(* ===== verification/Prelude.thy ===== *)
theory Prelude
  imports Main "HOL-Library.Word" "HOL-Library.State_Monad" "HOL-Library.Sublist" "HOL-Library.Multiset"
begin

text \<open>
  What every component of the development shares: Go's 64-bit signed integers as
  wrapped values of type \<^typ>\<open>int\<close>, Hoare triples over the library's state monad (the
  effectful code is written in that monad), and generic facts on lists.
\<close>

named_theorems hoare_rules \<open>rules for triples of monadic programs, one per program construct\<close>

section \<open>Signed 64-bit integers\<close>

text \<open>
  Go's \<open>int\<close>, \<open>int64\<close> and \<open>time.Duration\<close> are 64-bit two's complement. They are kept as
  \<^typ>\<open>int\<close> in the model and \<open>wrap64\<close> is applied where the code computes a value that can
  leave the range.
\<close>

abbreviation min_int64 :: int where "min_int64 \<equiv> -9223372036854775808"
abbreviation max_int64 :: int where "max_int64 \<equiv> 9223372036854775807"

definition wrap64 :: "int \<Rightarrow> int" where
  "wrap64 x = (x + 9223372036854775808) mod 18446744073709551616 - 9223372036854775808"

definition in_int64 :: "int \<Rightarrow> bool" where
  "in_int64 x \<longleftrightarrow> min_int64 \<le> x \<and> x \<le> max_int64"

lemma wrap64_range [simp]: "in_int64 (wrap64 x)"
  by (auto simp: wrap64_def in_int64_def)

lemma wrap64_id [simp]: "in_int64 x \<Longrightarrow> wrap64 x = x"
  by (simp add: wrap64_def in_int64_def)

lemma wrap64_sint: "wrap64 x = sint (word_of_int x :: 64 word)"
  by (simp add: wrap64_def signed_of_int signed_take_bit_eq_take_bit_shift take_bit_eq_mod)

lemma wrap64_add: "wrap64 (wrap64 a + b) = wrap64 (a + b)" "wrap64 (b + wrap64 a) = wrap64 (b + a)"
  by (simp_all add: wrap64_sint)

text \<open>Integer division truncates towards zero in Go.\<close>

definition go_div :: "int \<Rightarrow> int \<Rightarrow> int" where
  "go_div a b = sgn a * sgn b * (\<bar>a\<bar> div \<bar>b\<bar>)"

lemma go_div_nonneg: "0 \<le> a \<Longrightarrow> 0 < b \<Longrightarrow> go_div a b = a div b"
  by (cases "a = 0") (auto simp: go_div_def)

text \<open>The status class test \<open>status/100 == 2\<close> of the handlers.\<close>

lemma go_div_100_eq_2: "go_div s 100 = 2 \<longleftrightarrow> 200 \<le> s \<and> s < 300"
proof (cases "0 \<le> s")
  case True
  then show ?thesis by (simp add: go_div_nonneg) linarith
next
  case False
  then have "go_div s 100 = - (\<bar>s\<bar> div 100)"
    by (simp add: go_div_def)
  moreover have "0 \<le> \<bar>s\<bar> div 100" by simp
  ultimately show ?thesis using False by linarith
qed

section \<open>Triples over the state monad\<close>

text \<open>
  \<open>triple P m Q\<close>: run from a state satisfying \<open>P\<close>, the program \<open>m\<close> returns a value and
  a state satisfying \<open>Q\<close>. Programs of the state monad are total, so this is total
  correctness.
\<close>

definition triple :: "('s \<Rightarrow> bool) \<Rightarrow> ('s, 'a) state \<Rightarrow> ('a \<Rightarrow> 's \<Rightarrow> bool) \<Rightarrow> bool" where
  "triple P m Q \<longleftrightarrow> (\<forall>s. P s \<longrightarrow> Q (fst (run_state m s)) (snd (run_state m s)))"

lemma tripleI: "(\<And>s. P s \<Longrightarrow> Q (fst (run_state m s)) (snd (run_state m s))) \<Longrightarrow> triple P m Q"
  by (simp add: triple_def)

lemma tripleD: "triple P m Q \<Longrightarrow> P s \<Longrightarrow> run_state m s = (a, s') \<Longrightarrow> Q a s'"
  by (auto simp: triple_def dest: spec [of _ s])

lemma triple_return [hoare_rules]: "triple (Q a) (State_Monad.return a) Q"
  by (simp add: triple_def)

lemma triple_bind [hoare_rules]:
  assumes "triple P m R" and "\<And>a. triple (R a) (f a) Q"
  shows "triple P (State_Monad.bind m f) Q"
  using assms by (auto simp: triple_def split: prod.splits)

lemma triple_conseq:
  assumes "triple P' m Q'" and "\<And>s. P s \<Longrightarrow> P' s" and "\<And>a s. Q' a s \<Longrightarrow> Q a s"
  shows "triple P m Q"
  using assms by (auto simp: triple_def)

lemma triple_conj:
  assumes "triple P m Q" and "triple P' m Q'"
  shows "triple (\<lambda>s. P s \<and> P' s) m (\<lambda>a s. Q a s \<and> Q' a s)"
  using assms by (auto simp: triple_def)

lemma triple_if [hoare_rules]:
  assumes "b \<Longrightarrow> triple P m Q" and "\<not> b \<Longrightarrow> triple P m' Q"
  shows "triple P (if b then m else m') Q"
  using assms by simp

lemma triple_sum [hoare_rules]:
  assumes "\<And>a. x = Inl a \<Longrightarrow> triple P (f a) Q" and "\<And>b. x = Inr b \<Longrightarrow> triple P (g b) Q"
  shows "triple P (case x of Inl a \<Rightarrow> f a | Inr b \<Rightarrow> g b) Q"
  using assms by (cases x) auto

lemma triple_option [hoare_rules]:
  assumes "x = None \<Longrightarrow> triple P f Q" and "\<And>a. x = Some a \<Longrightarrow> triple P (g a) Q"
  shows "triple P (case x of None \<Rightarrow> f | Some a \<Rightarrow> g a) Q"
  using assms by (cases x) auto

lemma triple_prod [hoare_rules]:
  assumes "\<And>a b. x = (a, b) \<Longrightarrow> triple P (f a b) Q"
  shows "triple P (case x of (a, b) \<Rightarrow> f a b) Q"
  using assms by (cases x) auto

text \<open>Programs that preserve an assertion whatever they return.\<close>

named_theorems preserves_rules \<open>rules for \<open>preserves\<close>, one per program construct\<close>

definition preserves :: "('s \<Rightarrow> bool) \<Rightarrow> ('s, 'a) state \<Rightarrow> bool" where
  "preserves I p \<longleftrightarrow> triple I p (\<lambda>_. I)"

lemma preserves_return [preserves_rules]: "preserves I (State_Monad.return a)"
  by (simp add: preserves_def triple_def)

lemma preserves_bind [preserves_rules]:
  "preserves I m \<Longrightarrow> (\<And>a. preserves I (f a)) \<Longrightarrow> preserves I (State_Monad.bind m f)"
  unfolding preserves_def by (rule triple_bind)

lemma preserves_if [preserves_rules]:
  "(b \<Longrightarrow> preserves I m) \<Longrightarrow> (\<not> b \<Longrightarrow> preserves I m') \<Longrightarrow> preserves I (if b then m else m')"
  by simp

lemma preserves_sum [preserves_rules]:
  "(\<And>a. x = Inl a \<Longrightarrow> preserves I (f a)) \<Longrightarrow> (\<And>b. x = Inr b \<Longrightarrow> preserves I (g b)) \<Longrightarrow>
     preserves I (case x of Inl a \<Rightarrow> f a | Inr b \<Rightarrow> g b)"
  by (cases x) auto

lemma preserves_option [preserves_rules]:
  "(x = None \<Longrightarrow> preserves I f) \<Longrightarrow> (\<And>b. x = Some b \<Longrightarrow> preserves I (g b)) \<Longrightarrow>
     preserves I (case x of None \<Rightarrow> f | Some b \<Rightarrow> g b)"
  by (cases x) auto

lemma preserves_prod [preserves_rules]:
  "(\<And>a b. x = (a, b) \<Longrightarrow> preserves I (f a b)) \<Longrightarrow> preserves I (case x of (a, b) \<Rightarrow> f a b)"
  by (cases x) auto

lemma preservesD: "preserves I p \<Longrightarrow> I s \<Longrightarrow> run_state p s = (a, s') \<Longrightarrow> I s'"
  unfolding preserves_def using tripleD by fastforce

section \<open>Lists\<close>

lemma append_eq_drop: "s = w @ t \<Longrightarrow> take (length s - length t) s = w"
  by simp

lemma suffix_length_eq: "suffix t s \<Longrightarrow> s = take (length s - length t) s @ t"
  by (auto simp: suffix_def)

lemma infix_Cons_iff:
  "(\<exists>u w v. c # s = u @ w @ v \<and> P w) \<longleftrightarrow>
     (\<exists>w v. c # s = w @ v \<and> P w) \<or> (\<exists>u w v. s = u @ w @ v \<and> P w)"
  (is "?L \<longleftrightarrow> ?A \<or> ?B")
proof
  assume ?L
  then obtain u w v where *: "c # s = u @ w @ v" "P w" by blast
  then show "?A \<or> ?B" by (cases u) auto
next
  assume "?A \<or> ?B"
  then show ?L by (metis append_Cons append_Nil)
qed

lemma prefix_Cons_iff:
  "(\<exists>w. c # s = w @ t \<and> P w) \<longleftrightarrow> (t = c # s \<and> P []) \<or> (\<exists>w. s = w @ t \<and> P (c # w))"
  by (auto simp: Cons_eq_append_conv)

text \<open>A separator that occurs in neither left part fixes the split.\<close>

lemma append_sep_eq:
  assumes "x \<notin> set xs" and "x \<notin> set ys"
  shows "xs @ x # zs = ys @ x # ws \<longleftrightarrow> xs = ys \<and> zs = ws"
proof
  assume eq: "xs @ x # zs = ys @ x # ws"
  have "takeWhile (\<lambda>c. c \<noteq> x) (xs @ x # zs) = xs" "takeWhile (\<lambda>c. c \<noteq> x) (ys @ x # ws) = ys"
    using assms by (auto simp: takeWhile_append2 takeWhile_tail)
  with eq show "xs = ys \<and> zs = ws" by auto
qed auto

lemma append_prefix:
  assumes "xs @ u = ys @ v" and "length ys \<le> length xs"
  shows "\<exists>z. xs = ys @ z"
  using assms by (metis append_eq_append_conv_if append_take_drop_id)

lemma sum_list_replicate_int: "sum_list (replicate n (c::int)) = int n * c"
  by (induction n) (auto simp: algebra_simps)

end
