(* ===== verification/GoStrings.thy ===== *)
theory GoStrings
  imports Prelude
begin

text \<open>
  The functions of Go's \<open>strings\<close>, \<open>strconv\<close> and \<open>unicode\<close> packages that the gateway
  calls. A Go string is a sequence of bytes, so it is a \<^typ>\<open>string\<close> (a list of
  8-bit \<^typ>\<open>char\<close>s) here. Separators are single bytes in every call of the program.
\<close>

section \<open>Prefixes, search, replacement\<close>

definition HasPrefix :: "string \<Rightarrow> string \<Rightarrow> bool" where
  "HasPrefix s p \<longleftrightarrow> take (length p) s = p"

lemma HasPrefix_iff: "HasPrefix s p \<longleftrightarrow> (\<exists>r. s = p @ r)"
  by (metis HasPrefix_def append_eq_conv_conj append_take_drop_id)

lemma HasPrefix_append [simp]: "HasPrefix (p @ r) p"
  by (simp add: HasPrefix_def)

lemma HasPrefix_Nil [simp]: "HasPrefix s []"
  by (simp add: HasPrefix_def)

definition TrimPrefix :: "string \<Rightarrow> string \<Rightarrow> string" where
  "TrimPrefix s p = (if HasPrefix s p then drop (length p) s else s)"

fun Contains :: "string \<Rightarrow> string \<Rightarrow> bool" where
  "Contains [] sub \<longleftrightarrow> sub = []"
| "Contains (c # s) sub \<longleftrightarrow> HasPrefix (c # s) sub \<or> Contains s sub"

lemma Contains_iff: "Contains s sub \<longleftrightarrow> (\<exists>u v. s = u @ sub @ v)"
proof (induction s)
  case Nil
  then show ?case by auto
next
  case (Cons c s)
  have "(\<exists>u v. c # s = u @ sub @ v) \<longleftrightarrow> (\<exists>v. c # s = sub @ v) \<or> (\<exists>u v. s = u @ sub @ v)"
    by (metis append_Cons append_Nil list.inject neq_Nil_conv)
  with Cons show ?case by (simp add: HasPrefix_iff)
qed

text \<open>\<open>strings.Replace(s, old, new, 1)\<close>: the first occurrence only.\<close>

fun Replace1 :: "string \<Rightarrow> string \<Rightarrow> string \<Rightarrow> string" where
  "Replace1 [] old new = (if old = [] then new else [])"
| "Replace1 (c # s) old new =
     (if HasPrefix (c # s) old then new @ drop (length old) (c # s)
      else c # Replace1 s old new)"

lemma Replace1_prefix: "HasPrefix s old \<Longrightarrow> Replace1 s old new = new @ drop (length old) s"
  by (cases s) (auto simp: HasPrefix_def)

text \<open>
  The position that is replaced is the first at which \<open>old\<close> occurs.
\<close>

lemma Replace1_first:
  assumes "\<And>u v. pre @ old @ post = u @ old @ v \<Longrightarrow> length pre \<le> length u"
  shows "Replace1 (pre @ old @ post) old new = pre @ new @ post"
  using assms
proof (induction pre)
  case Nil
  show ?case by (simp add: Replace1_prefix)
next
  case (Cons c pre)
  have "\<not> HasPrefix (c # pre @ old @ post) old"
    using Cons.prems [of "[]"] by (auto simp: HasPrefix_iff)
  moreover have "Replace1 (pre @ old @ post) old new = pre @ new @ post"
  proof (rule Cons.IH)
    fix u v
    assume "pre @ old @ post = u @ old @ v"
    then show "length pre \<le> length u"
      using Cons.prems [of "c # u" v] by simp
  qed
  ultimately show ?case by simp
qed

text \<open>\<open>strings.ReplaceAll\<close> for a search string of one byte.\<close>

definition ReplaceAll :: "string \<Rightarrow> char \<Rightarrow> string \<Rightarrow> string" where
  "ReplaceAll s c new = concat (map (\<lambda>x. if x = c then new else [x]) s)"

section \<open>Split and Join\<close>

fun Split :: "char \<Rightarrow> string \<Rightarrow> string list" where
  "Split c [] = [[]]"
| "Split c (x # s) =
     (if x = c then [] # Split c s
      else case Split c s of [] \<Rightarrow> [[x]] | p # ps \<Rightarrow> (x # p) # ps)"

fun Join :: "string list \<Rightarrow> string \<Rightarrow> string" where
  "Join [] sep = []"
| "Join [x] sep = x"
| "Join (x # y # ys) sep = x @ sep @ Join (y # ys) sep"

lemma Split_nonempty [simp]: "Split c s \<noteq> []"
  by (induction s) (auto split: list.splits)

lemma Split_no_sep: "p \<in> set (Split c s) \<Longrightarrow> c \<notin> set p"
proof (induction s arbitrary: p)
  case (Cons x s)
  obtain q qs where "Split c s = q # qs" by (cases "Split c s") auto
  with Cons show ?case by (auto split: if_splits)
qed simp

lemma Join_Split [simp]: "Join (Split c s) [c] = s"
proof (induction s)
  case (Cons x s)
  obtain q qs where "Split c s = q # qs" by (cases "Split c s") auto
  with Cons show ?case by (cases qs) auto
qed simp

lemma Split_clean: "c \<notin> set p \<Longrightarrow> Split c p = [p]"
  by (induction p) auto

lemma Split_append: "c \<notin> set p \<Longrightarrow> Split c (p @ c # s) = p # Split c s"
  by (induction p) auto

lemma Split_Join:
  "xs \<noteq> [] \<Longrightarrow> (\<forall>x \<in> set xs. c \<notin> set x) \<Longrightarrow> Split c (Join xs [c]) = xs"
  by (induction xs "[c]" rule: Join.induct) (auto simp: Split_clean Split_append)

lemma Join_append:
  "xs \<noteq> [] \<Longrightarrow> ys \<noteq> [] \<Longrightarrow> Join (xs @ ys) sep = Join xs sep @ sep @ Join ys sep"
  by (induction xs sep rule: Join.induct) (auto simp: neq_Nil_conv)

text \<open>\<open>strings.SplitN(s, c, 2)\<close> on a string that contains the separator.\<close>

definition cut_at :: "char \<Rightarrow> string \<Rightarrow> string \<times> string" where
  "cut_at c s = (takeWhile (\<lambda>x. x \<noteq> c) s, drop 1 (dropWhile (\<lambda>x. x \<noteq> c) s))"

section \<open>White space\<close>

text \<open>
  The UTF-8 encodings of the runes for which \<open>unicode.IsSpace\<close> holds. No encoding is a
  prefix or a suffix of another, and the first byte of an encoding never occurs inside
  another rune, so trimming by encodings is what the rune-wise loops of \<open>strings\<close> do.
\<close>

definition space_encs :: "string list" where
  "space_encs =
    [[CHR 0x20], [CHR 0x0A], [CHR 0x0D], [CHR 0x09], [CHR 0x0B], [CHR 0x0C],
     [CHR 0xC2, CHR 0x85], [CHR 0xC2, CHR 0xA0], [CHR 0xE1, CHR 0x9A, CHR 0x80],
     [CHR 0xE2, CHR 0x80, CHR 0x80], [CHR 0xE2, CHR 0x80, CHR 0x81],
     [CHR 0xE2, CHR 0x80, CHR 0x82], [CHR 0xE2, CHR 0x80, CHR 0x83],
     [CHR 0xE2, CHR 0x80, CHR 0x84], [CHR 0xE2, CHR 0x80, CHR 0x85],
     [CHR 0xE2, CHR 0x80, CHR 0x86], [CHR 0xE2, CHR 0x80, CHR 0x87],
     [CHR 0xE2, CHR 0x80, CHR 0x88], [CHR 0xE2, CHR 0x80, CHR 0x89],
     [CHR 0xE2, CHR 0x80, CHR 0x8A], [CHR 0xE2, CHR 0x80, CHR 0xA8],
     [CHR 0xE2, CHR 0x80, CHR 0xA9], [CHR 0xE2, CHR 0x80, CHR 0xAF],
     [CHR 0xE2, CHR 0x81, CHR 0x9F], [CHR 0xE3, CHR 0x80, CHR 0x80]]"

text \<open>The length of the first element of \<open>encs\<close> that starts \<open>s\<close>, 0 if there is none.\<close>

definition enc_len :: "string list \<Rightarrow> string \<Rightarrow> nat" where
  "enc_len encs s = (case find (HasPrefix s) encs of None \<Rightarrow> 0 | Some e \<Rightarrow> length e)"

function trim_encs :: "string list \<Rightarrow> string \<Rightarrow> string" where
  "trim_encs encs s =
     (let n = enc_len encs s in if n = 0 \<or> s = [] then s else trim_encs encs (drop n s))"
  by pat_completeness auto
termination
  by (relation "measure (\<lambda>(encs, s). length s)") auto

declare trim_encs.simps [simp del]

definition TrimLeftSpace :: "string \<Rightarrow> string" where
  "TrimLeftSpace s = trim_encs space_encs s"

definition TrimRightSpace :: "string \<Rightarrow> string" where
  "TrimRightSpace s = rev (trim_encs (map rev space_encs) (rev s))"

definition TrimSpace :: "string \<Rightarrow> string" where
  "TrimSpace s = TrimRightSpace (TrimLeftSpace s)"

lemma enc_len_zero_iff:
  "[] \<notin> set encs \<Longrightarrow> enc_len encs s = 0 \<longleftrightarrow> (\<forall>e \<in> set encs. \<not> HasPrefix s e)"
  by (auto simp: enc_len_def find_None_iff find_Some_iff split: option.splits) (metis nth_mem)

lemma space_encs_nonempty [simp]: "[] \<notin> set space_encs" "[] \<notin> rev ` set space_encs"
  by (auto simp: space_encs_def)

lemma enc_len_append: "[] \<notin> set encs \<Longrightarrow> enc_len encs (p @ r) = 0 \<Longrightarrow> enc_len encs p = 0"
  by (auto simp: enc_len_zero_iff HasPrefix_iff)

text \<open>A string whose first byte starts no encoding has nothing to trim.\<close>

lemma enc_len_hd:
  assumes "[] \<notin> set encs" and "s \<noteq> []" and "hd s \<notin> hd ` set encs"
  shows "enc_len encs s = 0"
proof -
  have "\<not> HasPrefix s e" if e: "e \<in> set encs" for e
  proof
    assume "HasPrefix s e"
    moreover have "e \<noteq> []" using assms(1) e by auto
    ultimately have "hd s = hd e" by (auto simp: HasPrefix_iff)
    with e assms(3) show False by auto
  qed
  then show ?thesis by (simp add: enc_len_zero_iff assms(1))
qed

lemma trim_encs_suffix: "\<exists>u. s = u @ trim_encs encs s"
proof (induction encs s rule: trim_encs.induct)
  case (1 encs s)
  show ?case
  proof (cases "enc_len encs s = 0 \<or> s = []")
    case True
    then show ?thesis by (simp add: trim_encs.simps [of encs s])
  next
    case False
    then obtain u where "drop (enc_len encs s) s = u @ trim_encs encs (drop (enc_len encs s) s)"
      using 1 by blast
    then have "s = (take (enc_len encs s) s @ u) @ trim_encs encs (drop (enc_len encs s) s)"
      by (metis append_assoc append_take_drop_id)
    moreover have "trim_encs encs (drop (enc_len encs s) s) = trim_encs encs s"
      using False by (simp add: trim_encs.simps [of encs s] Let_def)
    ultimately show ?thesis by metis
  qed
qed

lemma trim_encs_done: "trim_encs encs s = [] \<or> enc_len encs (trim_encs encs s) = 0"
proof (induction encs s rule: trim_encs.induct)
  case (1 encs s)
  then show ?case
    by (cases "enc_len encs s = 0 \<or> s = []") (auto simp: trim_encs.simps [of encs s] Let_def)
qed

lemma trim_encs_id: "enc_len encs s = 0 \<Longrightarrow> trim_encs encs s = s"
  by (simp add: trim_encs.simps)

lemma trim_encs_Nil [simp]: "trim_encs encs [] = []"
  by (simp add: trim_encs.simps)

text \<open>A string that neither starts nor ends with white space.\<close>

definition no_outer_space :: "string \<Rightarrow> bool" where
  "no_outer_space s \<longleftrightarrow>
     s = [] \<or> enc_len space_encs s = 0 \<and> enc_len (map rev space_encs) (rev s) = 0"

lemma TrimSpace_id: "no_outer_space s \<Longrightarrow> TrimSpace s = s"
  by (auto simp: no_outer_space_def TrimSpace_def TrimLeftSpace_def TrimRightSpace_def trim_encs_id)

lemma TrimSpace_clean: "no_outer_space (TrimSpace s)"
proof -
  define l where "l = TrimLeftSpace s"
  obtain u where u: "rev l = u @ trim_encs (map rev space_encs) (rev l)"
    using trim_encs_suffix by blast
  then have l: "l = rev (trim_encs (map rev space_encs) (rev l)) @ rev u"
    by (metis rev_append rev_rev_ident)
  have "l = [] \<or> enc_len space_encs l = 0"
    using trim_encs_done [of space_encs s] by (simp add: l_def TrimLeftSpace_def)
  then have "TrimSpace s = [] \<or> enc_len space_encs (TrimSpace s) = 0"
    using enc_len_append [of space_encs "TrimSpace s" "rev u"] l
    by (auto simp: TrimSpace_def TrimRightSpace_def l_def [symmetric])
  moreover have "TrimSpace s = [] \<or> enc_len (map rev space_encs) (rev (TrimSpace s)) = 0"
    using trim_encs_done [of "map rev space_encs" "rev l"]
    by (simp add: TrimSpace_def TrimRightSpace_def l_def)
  ultimately show ?thesis by (auto simp: no_outer_space_def)
qed

lemma TrimSpace_idem [simp]: "TrimSpace (TrimSpace s) = TrimSpace s"
  by (simp add: TrimSpace_id TrimSpace_clean)

lemma TrimSpace_infix: "\<exists>u v. s = u @ TrimSpace s @ v"
proof -
  obtain u where u: "s = u @ TrimLeftSpace s"
    using trim_encs_suffix [of s space_encs] by (auto simp: TrimLeftSpace_def)
  obtain v where "rev (TrimLeftSpace s) = v @ rev (TrimSpace s)"
    using trim_encs_suffix [of "rev (TrimLeftSpace s)" "map rev space_encs"]
    by (auto simp: TrimSpace_def TrimRightSpace_def)
  then have "TrimLeftSpace s = TrimSpace s @ rev v"
    by (metis rev_append rev_rev_ident)
  with u show ?thesis by metis
qed

lemma TrimSpace_set: "set (TrimSpace s) \<subseteq> set s"
proof -
  obtain u v where "s = u @ TrimSpace s @ v" using TrimSpace_infix by blast
  then have "set s = set u \<union> set (TrimSpace s) \<union> set v" by (metis set_append sup_assoc)
  then show ?thesis by blast
qed

text \<open>ASCII white space around a string does not change what is left of it.\<close>

abbreviation ascii_space :: "char \<Rightarrow> bool" where
  "ascii_space c \<equiv> [c] \<in> set space_encs"

text \<open>An encoding that starts with an ASCII byte is that byte; no later byte of one is ASCII.\<close>

definition enc_shape :: "string \<Rightarrow> bool" where
  "enc_shape e \<longleftrightarrow> e \<noteq> [] \<and> (ascii_space (hd e) \<longrightarrow> tl e = []) \<and> list_all (\<lambda>d. \<not> ascii_space d) (tl e)"

lemma space_encs_shape: "list_all enc_shape space_encs" "list_all enc_shape (map rev space_encs)"
  by code_simp+

lemma enc_len_single:
  assumes "[c] \<in> set encs"
    and "ascii_space c" and "list_all enc_shape encs"
  shows "enc_len encs (c # s) = 1"
proof -
  have "HasPrefix (c # s) [c]" by (simp add: HasPrefix_def)
  then obtain e where e: "find (HasPrefix (c # s)) encs = Some e"
    using assms(1) by (cases "find (HasPrefix (c # s)) encs") (auto simp: find_None_iff)
  then have "e \<in> set encs" "HasPrefix (c # s) e" by (auto simp: find_Some_iff)
  with assms(2,3) have "e = [c]"
    by (cases e) (auto simp: HasPrefix_iff enc_shape_def list_all_iff)
  with e show ?thesis by (simp add: enc_len_def)
qed

lemma trim_encs_ascii:
  assumes "ascii_space c"
  shows "trim_encs space_encs (c # s) = trim_encs space_encs s"
    and "trim_encs (map rev space_encs) (c # s) = trim_encs (map rev space_encs) s"
proof -
  have "enc_len space_encs (c # s) = 1"
    by (rule enc_len_single) (use assms space_encs_shape in simp_all)
  moreover have "[c] \<in> set (map rev space_encs)" using assms by force
  then have "enc_len (map rev space_encs) (c # s) = 1"
    by (rule enc_len_single) (use assms space_encs_shape in simp_all)
  ultimately show "trim_encs space_encs (c # s) = trim_encs space_encs s"
    "trim_encs (map rev space_encs) (c # s) = trim_encs (map rev space_encs) s"
    by (simp_all add: trim_encs.simps [of _ "c # s"])
qed

lemma trim_encs_ascii_prefix:
  assumes "list_all ascii_space w"
  shows "trim_encs space_encs (w @ s) = trim_encs space_encs s"
    and "trim_encs (map rev space_encs) (w @ s) = trim_encs (map rev space_encs) s"
  using assms by (induction w) (auto simp: trim_encs_ascii)

lemma trim_encs_ascii_all: "list_all ascii_space w \<Longrightarrow> trim_encs space_encs w = []"
  using trim_encs_ascii_prefix(1) [of w "[]"] by simp

lemma enc_len_ascii_suffix:
  assumes "s \<noteq> []" and "w = [] \<or> ascii_space (hd w)" and shape: "list_all enc_shape encs"
  shows "enc_len encs (s @ w) = enc_len encs s"
proof -
  have "HasPrefix (s @ w) e = HasPrefix s e" if e: "e \<in> set encs" for e
  proof
    assume "HasPrefix (s @ w) e"
    then obtain r where r: "s @ w = e @ r" by (auto simp: HasPrefix_iff)
    show "HasPrefix s e"
    proof (cases "length e \<le> length s")
      case True
      with r show ?thesis by (auto simp: HasPrefix_def append_eq_append_conv_if split: if_splits)
    next
      case False
      then obtain u where u: "e = s @ u" "w = u @ r"
        using r by (auto simp: append_eq_append_conv2)
      moreover have "enc_shape e" using e shape by (simp add: list_all_iff)
      ultimately have "u = []"
        using assms(1,2) by (cases s; cases u) (auto simp: enc_shape_def)
      with u show ?thesis by (simp add: HasPrefix_def)
    qed
  qed (auto simp: HasPrefix_iff)
  then have "find (HasPrefix (s @ w)) encs = find (HasPrefix s) encs"
    by (intro find_cong) auto
  then show ?thesis by (simp add: enc_len_def)
qed

lemma trim_encs_ascii_suffix:
  assumes "list_all ascii_space w"
  shows "trim_encs space_encs (s @ w) =
    (if trim_encs space_encs s = [] then [] else trim_encs space_encs s @ w)"
proof (induction "length s" arbitrary: s rule: less_induct)
  case less
  show ?case
  proof (cases "s = []")
    case True
    then show ?thesis using assms by (simp add: trim_encs_ascii_all)
  next
    case False
    let ?n = "enc_len space_encs s"
    have n: "enc_len space_encs (s @ w) = ?n"
      by (rule enc_len_ascii_suffix [OF False _ space_encs_shape(1)])
        (use assms in \<open>cases w; simp\<close>)
    show ?thesis
    proof (cases "?n = 0")
      case True
      then show ?thesis using False n by (simp add: trim_encs_id)
    next
      case nz: False
      then have le: "?n \<le> length s"
        by (auto simp: enc_len_def find_Some_iff HasPrefix_iff split: option.splits)
      have "trim_encs space_encs (s @ w) = trim_encs space_encs (drop ?n s @ w)"
        using nz False n le by (simp add: trim_encs.simps [of _ "s @ w"])
      moreover have "trim_encs space_encs s = trim_encs space_encs (drop ?n s)"
        using nz False by (simp add: trim_encs.simps [of _ s])
      ultimately show ?thesis
        using less [of "drop ?n s"] nz False by simp
    qed
  qed
qed

lemma TrimSpace_ascii:
  assumes "list_all ascii_space w" and "list_all ascii_space w'"
  shows "TrimSpace (w @ s @ w') = TrimSpace s"
proof -
  have "TrimLeftSpace (w @ s @ w') = (if TrimLeftSpace s = [] then [] else TrimLeftSpace s @ w')"
    using assms by (simp add: TrimLeftSpace_def trim_encs_ascii_prefix trim_encs_ascii_suffix)
  moreover have "list_all ascii_space (rev w')" using assms(2) by (simp add: list_all_iff)
  ultimately show ?thesis
    by (simp add: TrimSpace_def TrimRightSpace_def trim_encs_ascii_prefix)
qed

text \<open>Trimmed lines joined by a line break are trimmed.\<close>

lemma Join_Cons_shape: "\<exists>r. Join (x # xs) [c] = x @ r \<and> (r = [] \<or> hd r = c)"
  by (cases xs) auto

lemma Join_snoc_shape: "\<exists>r. rev (Join (xs @ [y]) [c]) = rev y @ r \<and> (r = [] \<or> hd r = c)"
  by (cases "xs = []") (auto simp: Join_append)

lemma no_outer_space_Join:
  assumes "xs \<noteq> []" and "\<forall>x \<in> set xs. x \<noteq> [] \<and> no_outer_space x" and "ascii_space c"
  shows "no_outer_space (Join xs [c])"
proof -
  obtain x xs' where x: "xs = x # xs'" using assms(1) by (cases xs) auto
  obtain ys y where y: "xs = ys @ [y]" using assms(1) by (cases xs rule: rev_cases) auto
  obtain r r' where r: "Join xs [c] = x @ r" "r = [] \<or> hd r = c"
      and r': "rev (Join xs [c]) = rev y @ r'" "r' = [] \<or> hd r' = c"
    using Join_Cons_shape [of x xs' c] Join_snoc_shape [of ys y c] x y by metis
  have "x \<in> set xs" using x by simp
  moreover have "y \<in> set xs" using y by simp
  ultimately have nx: "x \<noteq> []" "no_outer_space x" "y \<noteq> []" "no_outer_space y" using assms(2) by auto
  have "enc_len space_encs (x @ r) = enc_len space_encs x"
    by (rule enc_len_ascii_suffix) (use nx r assms(3) space_encs_shape in auto)
  moreover have "enc_len (map rev space_encs) (rev y @ r') = enc_len (map rev space_encs) (rev y)"
    by (rule enc_len_ascii_suffix) (use nx r' assms(3) space_encs_shape in auto)
  ultimately show ?thesis
    unfolding no_outer_space_def r'(1) unfolding r(1) using nx by (simp add: no_outer_space_def)
qed

text \<open>\<open>strings.Fields\<close>: the maximal runs of bytes that are not part of a space.\<close>

function fields_loop :: "string \<Rightarrow> string \<Rightarrow> string list" where
  "fields_loop acc [] = (if acc = [] then [] else [rev acc])"
| "fields_loop acc (c # s) =
     (let n = enc_len space_encs (c # s)
      in if n = 0 then fields_loop (c # acc) s
         else (if acc = [] then [] else [rev acc]) @ fields_loop [] (drop n (c # s)))"
  by pat_completeness auto
termination
  by (relation "measure (\<lambda>(acc, s). length s)") auto

definition Fields :: "string \<Rightarrow> string list" where
  "Fields s = fields_loop [] s"

text \<open>\<open>strings.Trim(s, cutset)\<close> and \<open>strings.TrimRight(s, cutset)\<close> for ASCII cutsets.\<close>

definition TrimRight :: "string \<Rightarrow> string \<Rightarrow> string" where
  "TrimRight s cutset = rev (dropWhile (\<lambda>c. c \<in> set cutset) (rev s))"

definition Trim :: "string \<Rightarrow> string \<Rightarrow> string" where
  "Trim s cutset = TrimRight (dropWhile (\<lambda>c. c \<in> set cutset) s) cutset"

section \<open>Case\<close>

text \<open>
  \<open>strings.ToLower\<close>, as far as ASCII results go: besides the ASCII capitals, the runes
  U+0130 and U+212A lower to ASCII letters. Runes that lower to a rune outside ASCII are
  left alone, which no search for an ASCII substring can observe.
\<close>

definition lower_byte :: "char \<Rightarrow> char" where
  "lower_byte c = (if 65 \<le> (of_char c :: int) \<and> (of_char c :: int) \<le> 90 then char_of ((of_char c :: int) + 32) else c)"

fun ToLower :: "string \<Rightarrow> string" where
  "ToLower [] = []"
| "ToLower (c # s) =
     (if HasPrefix (c # s) [CHR 0xC4, CHR 0xB0] then CHR ''i'' # ToLower (drop 1 s)
      else if HasPrefix (c # s) [CHR 0xE2, CHR 0x84, CHR 0xAA] then CHR ''k'' # ToLower (drop 2 s)
      else lower_byte c # ToLower s)"

section \<open>Decimal numerals\<close>

definition digit_char :: "int \<Rightarrow> char" where
  "digit_char d = char_of (48 + d)"

definition is_digit :: "char \<Rightarrow> bool" where
  "is_digit c \<longleftrightarrow> 48 \<le> (of_char c :: int) \<and> (of_char c :: int) \<le> 57"

definition digit_val :: "char \<Rightarrow> int" where
  "digit_val c = of_char c - 48"

lemma of_char_digit_char: "0 \<le> d \<Longrightarrow> d < 10 \<Longrightarrow> (of_char (digit_char d) :: int) = 48 + d"
  by (simp add: digit_char_def of_char_of)

lemma digit_char_digit [simp]: "0 \<le> d \<Longrightarrow> d < 10 \<Longrightarrow> is_digit (digit_char d)"
  by (simp add: is_digit_def of_char_digit_char)

lemma digit_val_char [simp]: "0 \<le> d \<Longrightarrow> d < 10 \<Longrightarrow> digit_val (digit_char d) = d"
  by (simp add: digit_val_def of_char_digit_char)

text \<open>The decimal digits of a number that is not negative.\<close>

function dec_digits :: "int \<Rightarrow> string" where
  "dec_digits n =
     (if n < 10 then [digit_char n] else dec_digits (n div 10) @ [digit_char (n mod 10)])"
  by pat_completeness auto
termination
  by (relation "measure nat") auto

declare dec_digits.simps [simp del]

definition Itoa :: "int \<Rightarrow> string" where
  "Itoa x = (if x < 0 then ''-'' @ dec_digits (- x) else dec_digits x)"

fun digits_val :: "int \<Rightarrow> string \<Rightarrow> int" where
  "digits_val acc [] = acc"
| "digits_val acc (c # s) = digits_val (10 * acc + digit_val c) s"

lemma digits_val_append: "digits_val acc (s @ t) = digits_val (digits_val acc s) t"
  by (induction s arbitrary: acc) auto

text \<open>
  \<open>strconv.Atoi\<close>: an optional sign and decimal digits, \<open>None\<close> for a syntax error or a
  value outside \<open>int64\<close>.
\<close>

definition Atoi :: "string \<Rightarrow> int option" where
  "Atoi s =
     (let neg = HasPrefix s ''-'';
          ds = (if neg \<or> HasPrefix s ''+'' then drop 1 s else s);
          v = (if neg then - digits_val 0 ds else digits_val 0 ds)
      in if ds \<noteq> [] \<and> list_all is_digit ds \<and> in_int64 v then Some v else None)"

lemma dec_digits_digits: "0 \<le> n \<Longrightarrow> list_all is_digit (dec_digits n) \<and> dec_digits n \<noteq> []"
proof (induction n rule: dec_digits.induct)
  case (1 n)
  then show ?case by (subst (1 2) dec_digits.simps) auto
qed

lemma digits_val_dec_digits: "0 \<le> n \<Longrightarrow> digits_val 0 (dec_digits n) = n"
proof (induction n rule: dec_digits.induct)
  case (1 n)
  then show ?case by (subst dec_digits.simps) (auto simp: digits_val_append)
qed

lemma dec_digits_no_sign:
  assumes "0 \<le> n"
  shows "\<not> HasPrefix (dec_digits n) ''-'' \<and> \<not> HasPrefix (dec_digits n) ''+''"
proof -
  obtain c r where cr: "dec_digits n = c # r" "is_digit c"
    using dec_digits_digits [OF assms] by (cases "dec_digits n") auto
  then show ?thesis by (auto simp: HasPrefix_def is_digit_def)
qed

text \<open>\<open>Atoi\<close> reads back what \<open>Itoa\<close> prints.\<close>

lemma Atoi_Itoa: "in_int64 x \<Longrightarrow> Atoi (Itoa x) = Some x"
  using dec_digits_digits [of x] digits_val_dec_digits [of x] dec_digits_no_sign [of x]
    dec_digits_digits [of "- x"] digits_val_dec_digits [of "- x"]
  by (cases "x < 0") (auto simp: Atoi_def Itoa_def Let_def HasPrefix_def)

end
