(* ===== verification/GoTime.thy ===== *)
theory GoTime
  imports GoStrings
begin

text \<open>
  Go's \<open>time\<close> package, as far as the gateway uses it. An instant is the number of
  nanoseconds since Go's zero \<open>time.Time\<close> (1 January of year 1, UTC), so \<open>time.Time{}\<close> is 0;
  a duration is a number of nanoseconds. Parsing and printing of \<open>time.RFC3339Nano\<close> follow
  the package's layout-driven parser, with its leniencies (a one-digit hour, a comma before
  the fraction, offsets of 24 hours or 60 minutes), and printing followed by parsing is the
  identity for the years 0 to 9999.
\<close>

type_synonym instant = int
type_synonym duration = int

abbreviation second :: duration where "second \<equiv> 1000000000"
abbreviation millisecond :: duration where "millisecond \<equiv> 1000000"

text \<open>\<open>time.Unix(0, 0)\<close>.\<close>

definition unix_epoch :: instant where "unix_epoch = 62135596800 * second"

text \<open>\<open>t.Sub(u)\<close> saturates at the ends of the \<open>Duration\<close> range.\<close>

definition time_Sub :: "instant \<Rightarrow> instant \<Rightarrow> duration" where
  "time_Sub t u = max min_int64 (min max_int64 (t - u))"

text \<open>\<open>t.Truncate(d)\<close>: down to a multiple of \<open>d\<close> since the zero time.\<close>

definition time_Truncate :: "instant \<Rightarrow> duration \<Rightarrow> instant" where
  "time_Truncate t d = (if d \<le> 0 then t else t - t mod d)"

lemma time_Sub_range [simp]: "in_int64 (time_Sub t u)"
  by (auto simp: time_Sub_def in_int64_def)

section \<open>Civil dates\<close>

definition is_leap :: "int \<Rightarrow> bool" where
  "is_leap y \<longleftrightarrow> y mod 4 = 0 \<and> (y mod 100 \<noteq> 0 \<or> y mod 400 = 0)"

definition days_before_year :: "int \<Rightarrow> int" where
  "days_before_year y = 365 * (y - 1) + (y - 1) div 4 - (y - 1) div 100 + (y - 1) div 400"

definition month_lens :: "bool \<Rightarrow> int list" where
  "month_lens leap = [31, if leap then 29 else 28, 31, 30, 31, 30, 31, 31, 30, 31, 30, 31]"

text \<open>Days from 1 January of year 1 to a date.\<close>

definition date_days :: "int \<Rightarrow> int \<Rightarrow> int \<Rightarrow> int" where
  "date_days y m d =
     days_before_year y + sum_list (take (nat (m - 1)) (month_lens (is_leap y))) + d - 1"

text \<open>The date of a day number, by cycles of 400, 100, 4 and 1 years.\<close>

definition year_split :: "int \<Rightarrow> int \<times> int" where
  "year_split n =
     (let n400 = n div 146097; r400 = n mod 146097;
          n100 = min 3 (r400 div 36524); r100 = r400 - 36524 * n100;
          n4 = r100 div 1461; r4 = r100 mod 1461;
          n1 = min 3 (r4 div 365)
      in (400 * n400 + 100 * n100 + 4 * n4 + n1 + 1, r4 - 365 * n1))"

text \<open>Month and day from the day of the year (from 0), counting down the month lengths.\<close>

fun month_split :: "int \<Rightarrow> int list \<Rightarrow> int \<Rightarrow> int \<times> int" where
  "month_split m [] yday = (m, yday + 1)"
| "month_split m (l # ls) yday =
     (if yday < l then (m, yday + 1) else month_split (m + 1) ls (yday - l))"

definition civil_of_days :: "int \<Rightarrow> int \<times> int \<times> int" where
  "civil_of_days n =
     (let (y, yday) = year_split n; (m, d) = month_split 1 (month_lens (is_leap y)) yday
      in (y, m, d))"

text \<open>Three short periods and a last one that is one day longer.\<close>

lemma cycle_rest:
  assumes "0 \<le> r" and "r \<le> 4 * k" and "(0::int) < k"
  shows "0 \<le> min 3 (r div k)" and "0 \<le> r - k * min 3 (r div k)"
    and "r - k * min 3 (r div k) < k \<or> min 3 (r div k) = 3 \<and> r - k * min 3 (r div k) \<le> k"
proof -
  have r: "r = k * (r div k) + r mod k" "0 \<le> r mod k" "r mod k < k" using assms(3) by auto
  show "0 \<le> min 3 (r div k)" using assms by (simp add: pos_imp_zdiv_nonneg_iff)
  have le: "k * min 3 (r div k) \<le> k * (r div k)" using assms(3) by simp
  then show "0 \<le> r - k * min 3 (r div k)" using r by linarith
  show "r - k * min 3 (r div k) < k \<or> min 3 (r div k) = 3 \<and> r - k * min 3 (r div k) \<le> k"
  proof (cases "r div k \<le> 3")
    case True
    then show ?thesis using r(3) by (simp add: min_def minus_mult_div_eq_mod)
  next
    case False
    then show ?thesis using assms(2) by (simp add: min_def)
  qed
qed

lemma year_split_bounds:
  assumes "year_split n = (y, yd)"
  shows "days_before_year y + yd = n" and "0 \<le> yd" and "yd < (if is_leap y then 366 else 365)"
proof -
  define q r where "q = n div 146097" and "r = n mod 146097"
  define c where "c = min 3 (r div 36524)"
  define r1 where "r1 = r - 36524 * c"
  define b where "b = r1 div 1461"
  define r2 where "r2 = r1 mod 1461"
  define a where "a = min 3 (r2 div 365)"
  have y: "y = 400 * q + 100 * c + 4 * b + a + 1" and yd: "yd = r2 - 365 * a"
    using assms
    by (simp_all only: year_split_def Let_def prod.inject
        q_def [symmetric] r_def [symmetric] c_def [symmetric] r1_def [symmetric]
        b_def [symmetric] r2_def [symmetric] a_def [symmetric])
  have n: "n = 146097 * q + r" and r: "0 \<le> r" "r < 146097"
    by (auto simp: q_def r_def)
  have c: "0 \<le> c" "c \<le> 3" and r1: "0 \<le> r1" "r1 < 36524 \<or> c = 3 \<and> r1 \<le> 36524"
    using cycle_rest [of r 36524] r by (auto simp: c_def r1_def)
  have r1': "r1 = 1461 * b + r2" and r2: "0 \<le> r2" "r2 < 1461"
    by (auto simp: b_def r2_def)
  have b: "0 \<le> b" "b \<le> 24" using r1 r1' r2 by linarith+
  have a: "0 \<le> a" "a \<le> 3" and yd': "0 \<le> yd" "yd < 365 \<or> a = 3 \<and> yd = 365"
    using cycle_rest [of r2 365] r2 by (auto simp: a_def yd)
  have d4: "(y - 1) div 4 = 100 * q + 25 * c + b"
    by (rule int_div_pos_eq [where r = a]) (use a y in simp_all)
  have d100: "(y - 1) div 100 = 4 * q + c"
    by (rule int_div_pos_eq [where r = "4 * b + a"]) (use a b y in simp_all)
  have d400: "(y - 1) div 400 = q"
    by (rule int_div_pos_eq [where r = "100 * c + 4 * b + a"]) (use a b c y in simp_all)
  show "0 \<le> yd" by (fact yd'(1))
  have "n = 146097 * q + 36524 * c + 1461 * b + r2" using n r1_def r1' by simp
  then show "days_before_year y + yd = n"
    unfolding days_before_year_def d4 d100 d400 by (simp add: y yd)
  show "yd < (if is_leap y then 366 else 365)"
  proof (cases "yd = 365")
    case True
    then have a3: "a = 3" using yd' by simp
    have bc: "b \<noteq> 24 \<or> c = 3" using r1 r1' True yd a3 by linarith
    have y4: "y = 4 * (b + 1) + (4 * q + c) * 100" using y a3 by simp
    then have "y = 4 * (b + 1 + 100 * q + 25 * c)" by simp
    then have "y mod 4 = 0" by simp
    moreover have "y mod 100 = 4 * (b + 1) mod 100" unfolding y4 by (rule mod_mult_self1)
    moreover have "4 * (b + 1) mod 100 = 4 * (b + 1)" if "b \<noteq> 24" using b that by simp
    moreover have "y mod 400 = 0" if "b = 24" using that bc y4 by simp
    ultimately have "is_leap y"
      unfolding is_leap_def using b(1) by (cases "b = 24") simp_all
    with True show ?thesis by simp
  next
    case False
    then show ?thesis using yd' by auto
  qed
qed

lemma month_split_bounds:
  assumes "month_split m0 ls yd = (m, d)" and "0 \<le> yd" and "yd < sum_list ls"
  shows "m0 \<le> m \<and> m < m0 + int (length ls) \<and> 1 \<le> d \<and> d \<le> ls ! nat (m - m0) \<and>
    sum_list (take (nat (m - m0)) ls) + d = yd + 1"
  using assms
proof (induction m0 ls yd rule: month_split.induct)
  case (2 m0 l ls yd)
  show ?case
  proof (cases "yd < l")
    case True
    with 2 show ?thesis by auto
  next
    case False
    with 2 have IH: "m0 + 1 \<le> m \<and> m < m0 + 1 + int (length ls) \<and> 1 \<le> d \<and> d \<le> ls ! nat (m - (m0 + 1)) \<and>
        sum_list (take (nat (m - (m0 + 1))) ls) + d = yd - l + 1"
      by auto
    then have "nat (m - m0) = Suc (nat (m - (m0 + 1)))" by linarith
    with IH show ?thesis by auto
  qed
qed simp

lemma sum_month_lens: "sum_list (month_lens leap) = (if leap then 366 else 365)"
  by (simp add: month_lens_def)

lemma civil_of_days:
  assumes "civil_of_days n = (y, m, d)"
  shows "date_days y m d = n" "1 \<le> m" "m \<le> 12" "1 \<le> d" "d \<le> month_lens (is_leap y) ! nat (m - 1)"
proof -
  obtain yd where yd: "year_split n = (y, yd)"
      and md: "month_split 1 (month_lens (is_leap y)) yd = (m, d)"
    using assms by (auto simp: civil_of_days_def split: prod.splits)
  note yb = year_split_bounds [OF yd]
  have "yd < sum_list (month_lens (is_leap y))"
    using yb(3) by (simp add: sum_month_lens)
  note mb = month_split_bounds [OF md yb(2) this]
  have "length (month_lens (is_leap y)) = 12" by (simp add: month_lens_def)
  with mb show "1 \<le> m" "m \<le> 12" "1 \<le> d" "d \<le> month_lens (is_leap y) ! nat (m - 1)" by auto
  show "date_days y m d = n" using yb(1) mb by (simp add: date_days_def)
qed

section \<open>Printing RFC3339Nano\<close>

definition zpad :: "nat \<Rightarrow> string \<Rightarrow> string" where
  "zpad w s = replicate (w - length s) (CHR ''0'') @ s"

definition append_int :: "int \<Rightarrow> nat \<Rightarrow> string" where
  "append_int x w = (if x < 0 then ''-'' else []) @ zpad w (dec_digits \<bar>x\<bar>)"

definition strip_zeros :: "string \<Rightarrow> string" where
  "strip_zeros s = rev (dropWhile (\<lambda>c. c = CHR ''0'') (rev s))"

text \<open>The fraction \<open>.999999999\<close> of the layout: nothing for zero nanoseconds, no trailing zeros.\<close>

definition append_nano :: "int \<Rightarrow> string" where
  "append_nano ns = (if ns = 0 then [] else CHR ''.'' # strip_zeros (zpad 9 (dec_digits ns)))"

text \<open>\<open>t.UTC().Format(time.RFC3339Nano)\<close>.\<close>

definition Format_RFC3339Nano :: "instant \<Rightarrow> string" where
  "Format_RFC3339Nano t =
     (let secs = t div second; ns = t mod second;
          (y, m, d) = civil_of_days (secs div 86400); sod = secs mod 86400
      in append_int y 4 @ ''-'' @ append_int m 2 @ ''-'' @ append_int d 2 @ ''T'' @
         append_int (sod div 3600) 2 @ '':'' @ append_int (sod mod 3600 div 60) 2 @ '':'' @
         append_int (sod mod 60) 2 @ append_nano ns @ ''Z'')"

section \<open>Parsing RFC3339Nano\<close>

definition getnum :: "string \<Rightarrow> bool \<Rightarrow> (int \<times> string) option" where
  "getnum s fixed =
     (case s of [] \<Rightarrow> None
      | a # r \<Rightarrow>
          if \<not> is_digit a then None
          else if r \<noteq> [] \<and> is_digit (hd r) then Some (10 * digit_val a + digit_val (hd r), tl r)
          else if fixed then None else Some (digit_val a, r))"

definition expect :: "char \<Rightarrow> string \<Rightarrow> string option" where
  "expect c s = (case s of [] \<Rightarrow> None | x # r \<Rightarrow> if x = c then Some r else None)"

definition guard_opt :: "bool \<Rightarrow> unit option" where
  "guard_opt b = (if b then Some () else None)"

text \<open>The fraction: a period or comma and a digit, or nothing; digits after the ninth are dropped.\<close>

definition parse_nano :: "string \<Rightarrow> int \<times> string" where
  "parse_nano s =
     (if length s \<ge> 2 \<and> hd s \<in> {CHR ''.'', CHR '',''} \<and> is_digit (s ! 1)
      then let ds = takeWhile is_digit (tl s); k = take 9 ds
           in (digits_val 0 k * 10 ^ (9 - length k), dropWhile is_digit (tl s))
      else (0, s))"

text \<open>The zone: the offset in seconds east of UTC.\<close>

definition parse_zone :: "string \<Rightarrow> (int \<times> string) option" where
  "parse_zone s =
     (if s \<noteq> [] \<and> hd s = CHR ''Z'' then Some (0, tl s)
      else if length s < 6 \<or> s ! 3 \<noteq> CHR '':'' then None
      else do {
        (hr, _) \<leftarrow> getnum (take 2 (drop 1 s)) True;
        (mm, _) \<leftarrow> getnum (take 2 (drop 4 s)) True;
        guard_opt (hr \<le> 24 \<and> mm \<le> 60);
        (if hd s = CHR ''+'' then Some ((hr * 60 + mm) * 60, drop 6 s)
         else if hd s = CHR ''-'' then Some (- ((hr * 60 + mm) * 60), drop 6 s)
         else None)
      })"

text \<open>\<open>time.Parse(time.RFC3339Nano, s)\<close>; \<open>None\<close> is an error.\<close>

definition Parse_RFC3339Nano :: "string \<Rightarrow> instant option" where
  "Parse_RFC3339Nano s = do {
     guard_opt (4 \<le> length s \<and> list_all is_digit (take 4 s));
     let year = digits_val 0 (take 4 s);
     s \<leftarrow> expect (CHR ''-'') (drop 4 s);
     (month, s) \<leftarrow> getnum s True;
     guard_opt (1 \<le> month \<and> month \<le> 12);
     s \<leftarrow> expect (CHR ''-'') s;
     (day, s) \<leftarrow> getnum s True;
     s \<leftarrow> expect (CHR ''T'') s;
     (hour, s) \<leftarrow> getnum s False;
     guard_opt (hour < 24);
     s \<leftarrow> expect (CHR '':'') s;
     (mi, s) \<leftarrow> getnum s True;
     guard_opt (mi < 60);
     s \<leftarrow> expect (CHR '':'') s;
     (sec, s) \<leftarrow> getnum s True;
     guard_opt (sec < 60);
     let (ns, s) = parse_nano s;
     (off, s) \<leftarrow> parse_zone s;
     guard_opt (s = []);
     guard_opt (1 \<le> day \<and> day \<le> month_lens (is_leap year) ! nat (month - 1));
     Some ((date_days year month day * 86400 + (hour * 3600 + mi * 60 + sec) - off) * second + ns)
   }"

section \<open>Parsing reads back what printing writes\<close>

fun fixdig :: "nat \<Rightarrow> int \<Rightarrow> string" where
  "fixdig 0 n = []"
| "fixdig (Suc w) n = fixdig w (n div 10) @ [digit_char (n mod 10)]"

lemma length_fixdig [simp]: "length (fixdig w n) = w"
  by (induction w arbitrary: n) auto

lemma digits_fixdig [simp]: "list_all is_digit (fixdig w n)"
  by (induction w arbitrary: n) auto

lemma fixdig_0: "fixdig w 0 = replicate w (CHR ''0'')"
  by (induction w) (auto simp: digit_char_def char_of_def simp flip: replicate_append_same)

lemma digits_val_fixdig: "0 \<le> n \<Longrightarrow> n < 10 ^ w \<Longrightarrow> digits_val 0 (fixdig w n) = n"
  by (induction w arbitrary: n) (auto simp: digits_val_append)

lemma zpad_snoc: "zpad (Suc w) (s @ [c]) = zpad w s @ [c]"
  by (simp add: zpad_def)

lemma zpad_dec_digits:
  "0 \<le> n \<Longrightarrow> n < 10 ^ w \<Longrightarrow> 0 < w \<Longrightarrow> zpad w (dec_digits n) = fixdig w n"
proof (induction w arbitrary: n)
  case (Suc w)
  show ?case
  proof (cases "n < 10")
    case True
    with Suc.prems show ?thesis
      by (simp add: dec_digits.simps [of n] zpad_def fixdig_0)
  next
    case False
    then have "0 < w" using Suc.prems by (cases w) auto
    with False Suc show ?thesis
      by (simp add: dec_digits.simps [of n] zpad_snoc)
  qed
qed simp

lemma append_int_fixdig: "0 \<le> x \<Longrightarrow> x < 10 ^ w \<Longrightarrow> 0 < w \<Longrightarrow> append_int x w = fixdig w x"
  by (simp add: append_int_def zpad_dec_digits)

lemma getnum_fixdig: "0 \<le> n \<Longrightarrow> n < 100 \<Longrightarrow> getnum (fixdig 2 n @ r) b = Some (n, r)"
  by (auto simp: getnum_def numeral_2_eq_2)

lemma expect_Cons [simp]: "expect c (c # r) = Some r"
  by (simp add: expect_def)

lemma guard_opt_True [simp]: "guard_opt True = Some ()"
  by (simp add: guard_opt_def)

lemma strip_zeros_decomp: "\<exists>k. s = strip_zeros s @ replicate k (CHR ''0'')"
proof -
  define z where "z = takeWhile (\<lambda>c. c = CHR ''0'') (rev s)"
  have "\<forall>c \<in> set z. c = CHR ''0''" by (auto simp: z_def dest: set_takeWhileD)
  then have "z = replicate (length z) (CHR ''0'')" by (simp add: replicate_length_same)
  moreover have "s = rev (dropWhile (\<lambda>c. c = CHR ''0'') (rev s)) @ rev z"
    unfolding z_def by (metis rev_append rev_rev_ident takeWhile_dropWhile_id)
  ultimately show ?thesis
    unfolding strip_zeros_def by (metis rev_replicate)
qed

lemma digits_val_zeros: "digits_val a (replicate k (CHR ''0'')) = a * 10 ^ k"
  by (induction k arbitrary: a) (auto simp: digit_val_def)

lemma digit_Z [simp]: "\<not> is_digit (CHR ''Z'')"
  by (simp add: is_digit_def)

lemma parse_nano_append:
  assumes "0 \<le> ns" and "ns < second"
  shows "parse_nano (append_nano ns @ ''Z'') = (ns, ''Z'')"
proof (cases "ns = 0")
  case True
  then show ?thesis by (simp add: append_nano_def parse_nano_def)
next
  case False
  define s where "s = strip_zeros (fixdig 9 ns)"
  obtain k where k: "fixdig 9 ns = s @ replicate k (CHR ''0'')"
    using strip_zeros_decomp s_def by blast
  have val: "digits_val 0 s * 10 ^ k = ns"
    using digits_val_fixdig [of ns 9] assms k by (simp add: digits_val_append digits_val_zeros)
  with False have "s \<noteq> []" by auto
  have len: "length s + k = 9" using arg_cong [OF k, of length] by simp
  have dig: "list_all is_digit s" using k digits_fixdig by (metis list_all_append)
  have an: "append_nano ns = CHR ''.'' # s"
    using False assms by (simp add: append_nano_def zpad_dec_digits s_def)
  have tw: "takeWhile is_digit (s @ ''Z'') = s" "dropWhile is_digit (s @ ''Z'') = ''Z''"
    using dig by (induction s) auto
  have "is_digit ((s @ ''Z'') ! 0)" using dig \<open>s \<noteq> []\<close> by (cases s) auto
  moreover have "9 - length s = k" "take 9 s = s" using len by auto
  ultimately show ?thesis
    using \<open>s \<noteq> []\<close> val tw by (simp add: an parse_nano_def Let_def)
qed

text \<open>The year of an instant has at most four digits.\<close>

definition four_digit_year :: "instant \<Rightarrow> bool" where
  "four_digit_year t \<longleftrightarrow> (let y = fst (civil_of_days (t div second div 86400)) in 0 \<le> y \<and> y \<le> 9999)"

lemma Parse_Format_RFC3339Nano:
  assumes "four_digit_year t"
  shows "Parse_RFC3339Nano (Format_RFC3339Nano t) = Some t"
proof -
  define secs where "secs = t div second"
  define sod where "sod = secs mod 86400"
  define ns where "ns = t mod second"
  obtain y m d where c: "civil_of_days (secs div 86400) = (y, m, d)" by (metis prod_cases3)
  note cb = civil_of_days [OF c]
  have y: "0 \<le> y" "y < 10 ^ 4" using assms c by (auto simp: four_digit_year_def secs_def Let_def)
  have d: "d \<le> 31" using cb by (auto simp: month_lens_def nth_Cons' split: if_splits)
  have sod: "0 \<le> sod" "sod < 86400" by (auto simp: sod_def)
  define h mi se where "h = sod div 3600" and "mi = sod mod 3600 div 60" and "se = sod mod 60"
  have h: "0 \<le> h" "h < 24" and mi: "0 \<le> mi" "mi < 60" and se: "0 \<le> se" "se < 60"
    using sod by (auto simp: h_def mi_def se_def)
  have sod_eq: "sod = h * 3600 + mi * 60 + se"
  proof -
    have "sod mod 3600 mod 60 = sod mod 60" by (rule mod_mod_cancel) simp
    then show ?thesis
      using div_mult_mod_eq [of sod 3600] div_mult_mod_eq [of "sod mod 3600" 60]
      unfolding h_def mi_def se_def by linarith
  qed
  have ns: "0 \<le> ns" "ns < second" by (auto simp: ns_def)
  have "Format_RFC3339Nano t = fixdig 4 y @ ''-'' @ fixdig 2 m @ ''-'' @ fixdig 2 d @ ''T'' @
      fixdig 2 h @ '':'' @ fixdig 2 mi @ '':'' @ fixdig 2 se @ append_nano ns @ ''Z''"
    using c y cb d h mi se
    by (simp add: Format_RFC3339Nano_def secs_def [symmetric] sod_def [symmetric] ns_def [symmetric]
        h_def [symmetric] mi_def [symmetric] se_def [symmetric] append_int_fixdig)
  moreover have "t = (date_days y m d * 86400 + (h * 3600 + mi * 60 + se)) * second + ns"
    unfolding sod_eq [symmetric] cb(1) sod_def secs_def ns_def by simp
  ultimately show ?thesis
    using y cb d h mi se ns
    by (simp add: Parse_RFC3339Nano_def digits_val_fixdig getnum_fixdig parse_nano_append parse_zone_def)
qed

text \<open>The bytes of a printed instant.\<close>

definition time_byte :: "char \<Rightarrow> bool" where
  "time_byte c \<longleftrightarrow> is_digit c \<or> c \<in> set ''-T:.Z''"

lemma digits_time_bytes: "list_all is_digit s \<Longrightarrow> list_all time_byte s"
  by (auto simp: list_all_iff time_byte_def)

lemma append_int_bytes: "list_all time_byte (append_int x w)"
proof -
  have "is_digit (CHR ''0'')" by (simp add: is_digit_def)
  then have "list_all is_digit (zpad w (dec_digits \<bar>x\<bar>))"
    using dec_digits_digits [of "\<bar>x\<bar>"] by (auto simp: zpad_def list_all_iff)
  then show ?thesis
    using digits_time_bytes by (auto simp: append_int_def time_byte_def)
qed

lemma append_nano_bytes: "0 \<le> ns \<Longrightarrow> list_all time_byte (append_nano ns)"
proof -
  assume "0 \<le> ns"
  moreover have "is_digit (CHR ''0'')" by (simp add: is_digit_def)
  ultimately have "list_all is_digit (zpad 9 (dec_digits ns))"
    using dec_digits_digits [of ns] by (auto simp: zpad_def list_all_iff)
  then have "list_all is_digit (strip_zeros (zpad 9 (dec_digits ns)))"
    by (auto simp: strip_zeros_def list_all_iff dest: set_dropWhileD)
  then show ?thesis using digits_time_bytes by (auto simp: append_nano_def time_byte_def)
qed

lemma Format_RFC3339Nano_bytes: "list_all time_byte (Format_RFC3339Nano t)"
  by (simp add: Format_RFC3339Nano_def Let_def append_int_bytes append_nano_bytes split: prod.splits)
    (simp add: time_byte_def)

lemma Format_RFC3339Nano_nonempty: "Format_RFC3339Nano t \<noteq> []"
  by (simp add: Format_RFC3339Nano_def Let_def split: prod.splits)

end
