(* ===== verification/FluxMerge.thy ===== *)
theory FluxMerge
  imports GoTime
begin

text \<open>
  \<open>internal/flux/merge.go\<close>: the CSV answers of the cached and of the live segment merged into
  one. \<open>sort.Slice\<close> leaves the order of rows with equal times open, so it is an argument of
  the model; its contract is the locale \<open>row_sorter\<close>, in which the lemmas on the merged rows
  are proved. The insertion sort that \<open>sort.Slice\<close> runs on short slices interprets the locale.
\<close>

abbreviation newline :: char where "newline \<equiv> CHR 0x0A"

record csvRow =
  row_time :: instant
  raw :: string

record csv_state =
  csv_meta :: "string list"
  csv_header :: string
  csv_timeCol :: int
  csv_rows :: "csvRow list"

text \<open>The index of the first column named \<open>_time\<close>, or -1.\<close>

definition findTimeCol :: "string list \<Rightarrow> int" where
  "findTimeCol cols =
     (let n = length (takeWhile (\<lambda>c. TrimSpace c \<noteq> ''_time'') cols)
      in if n < length cols then int n else -1)"

definition rowTime :: "int \<Rightarrow> string \<Rightarrow> instant" where
  "rowTime timeCol line =
     (let parts = Split (CHR '','') line
      in if timeCol \<ge> 0 \<and> timeCol < int (length parts)
         then (case Parse_RFC3339Nano (TrimSpace (parts ! nat timeCol)) of
                 Some parsed \<Rightarrow> parsed | None \<Rightarrow> unix_epoch)
         else unix_epoch)"

text \<open>One round of the loop over the lines.\<close>

definition parseLine :: "csv_state \<Rightarrow> string \<Rightarrow> csv_state" where
  "parseLine st line =
     (if line = [] then st
      else if HasPrefix line ''#'' then st\<lparr>csv_meta := csv_meta st @ [line]\<rparr>
      else if csv_header st = []
        then st\<lparr>csv_header := line, csv_timeCol :=
               (let i = findTimeCol (Split (CHR '','') line) in if i \<ge> 0 then i else csv_timeCol st)\<rparr>
      else st\<lparr>csv_rows := csv_rows st @ [\<lparr>row_time = rowTime (csv_timeCol st) line, raw = line\<rparr>]\<rparr>)"

definition csv_start :: csv_state where
  "csv_start = \<lparr>csv_meta = [], csv_header = [], csv_timeCol = -1, csv_rows = []\<rparr>"

definition parseCSVResponse :: "string \<Rightarrow> csv_state" where
  "parseCSVResponse body = foldl parseLine csv_start (Split newline (TrimSpace body))"

text \<open>The loop that keeps the first of several rows with the same text.\<close>

fun dedupRows :: "string set \<Rightarrow> csvRow list \<Rightarrow> csvRow list" where
  "dedupRows seen [] = []"
| "dedupRows seen (row # rows) =
     (if raw row \<in> seen then dedupRows seen rows
      else row # dedupRows (insert (raw row) seen) rows)"

definition MergeCSV :: "(csvRow list \<Rightarrow> csvRow list) \<Rightarrow> string \<Rightarrow> string \<Rightarrow> string" where
  "MergeCSV sort_Slice cachedBody liveBody =
     (let c = parseCSVResponse cachedBody;
          l = parseCSVResponse liveBody;
          header = (if csv_header c = [] then csv_header l else csv_header c)
      in if header = [] then liveBody
         else
           (let rows = sort_Slice (dedupRows {} (csv_rows c @ csv_rows l));
                out = csv_meta c @ [header] @ map raw rows
            in Join out [newline] @ [newline]))"

section \<open>Insertion sort\<close>

text \<open>
  \<open>sort.Slice\<close> on at most twelve elements: each element is swapped to the left while it is
  less than its neighbour. The accumulator is the sorted part, last element first.
\<close>

fun insert_back :: "csvRow \<Rightarrow> csvRow list \<Rightarrow> csvRow list" where
  "insert_back x [] = [x]"
| "insert_back x (y # ys) = (if row_time x < row_time y then y # insert_back x ys else x # y # ys)"

definition insertionSort :: "csvRow list \<Rightarrow> csvRow list" where
  "insertionSort rows = rev (fold insert_back rows [])"

lemma mset_insert_back: "mset (insert_back x ys) = add_mset x (mset ys)"
  by (induction ys) auto

lemma sorted_insert_back:
  "sorted_wrt (\<lambda>a b. row_time b \<le> row_time a) ys \<Longrightarrow>
   sorted_wrt (\<lambda>a b. row_time b \<le> row_time a) (insert_back x ys)"
proof (induction ys)
  case (Cons y ys)
  have "set (insert_back x ys) = insert x (set ys)"
    by (metis mset_insert_back set_mset_add_mset_insert set_mset_mset)
  with Cons show ?case by auto
qed simp

lemma mset_insertionSort: "mset (insertionSort rows) = mset rows"
proof -
  have "mset (fold insert_back rows acc) = mset rows + mset acc" for acc
    by (induction rows arbitrary: acc) (auto simp: mset_insert_back)
  then show ?thesis by (simp add: insertionSort_def)
qed

lemma sorted_insertionSort: "sorted (map row_time (insertionSort rows))"
proof -
  have "sorted_wrt (\<lambda>a b. row_time b \<le> row_time a) acc \<Longrightarrow>
      sorted_wrt (\<lambda>a b. row_time b \<le> row_time a) (fold insert_back rows acc)" for acc
    by (induction rows arbitrary: acc) (auto simp: sorted_insert_back)
  then show ?thesis
    by (simp add: insertionSort_def sorted_wrt_map sorted_wrt_rev)
qed

section \<open>The parser\<close>

definition is_meta :: "string \<Rightarrow> bool" where
  "is_meta line \<longleftrightarrow> line \<noteq> [] \<and> HasPrefix line ''#''"

definition is_data :: "string \<Rightarrow> bool" where
  "is_data line \<longleftrightarrow> line \<noteq> [] \<and> \<not> HasPrefix line ''#''"

definition headerTimeCol :: "string \<Rightarrow> int" where
  "headerTimeCol header = findTimeCol (Split (CHR '','') header)"

lemma headerTimeCol_ge: "-1 \<le> headerTimeCol h"
  by (simp add: headerTimeCol_def findTimeCol_def Let_def)

definition mkRow :: "string \<Rightarrow> string \<Rightarrow> csvRow" where
  "mkRow header line = \<lparr>row_time = rowTime (headerTimeCol header) line, raw = line\<rparr>"

lemma raw_mkRow [simp]: "raw (mkRow h line) = line"
  by (simp add: mkRow_def)

text \<open>
  The loop in closed form: annotation lines in order; the first data line is the header, the
  others are rows.
\<close>

lemma foldl_parseLine_rows:
  assumes "csv_header st \<noteq> []" and "csv_timeCol st = headerTimeCol (csv_header st)"
  shows "foldl parseLine st lines = st\<lparr>csv_meta := csv_meta st @ filter is_meta lines,
    csv_rows := csv_rows st @ map (mkRow (csv_header st)) (filter is_data lines)\<rparr>"
  using assms
proof (induction lines arbitrary: st)
  case (Cons x lines)
  then show ?case
    by (auto simp: parseLine_def is_meta_def is_data_def mkRow_def)
qed simp

lemma foldl_parseLine_start:
  "foldl parseLine \<lparr>csv_meta = ms, csv_header = [], csv_timeCol = -1, csv_rows = []\<rparr> lines =
    \<lparr>csv_meta = ms @ filter is_meta lines,
     csv_header = (case filter is_data lines of [] \<Rightarrow> [] | h # _ \<Rightarrow> h),
     csv_timeCol = (case filter is_data lines of [] \<Rightarrow> -1 | h # _ \<Rightarrow> headerTimeCol h),
     csv_rows = (case filter is_data lines of [] \<Rightarrow> [] | h # ls \<Rightarrow> map (mkRow h) ls)\<rparr>"
proof (induction lines arbitrary: ms)
  case (Cons x lines)
  consider "x = []" | "is_meta x" | "is_data x"
    by (auto simp: is_meta_def is_data_def)
  then show ?case
  proof cases
    case 3
    have "parseLine \<lparr>csv_meta = ms, csv_header = [], csv_timeCol = -1, csv_rows = []\<rparr> x =
        \<lparr>csv_meta = ms, csv_header = x, csv_timeCol = headerTimeCol x, csv_rows = []\<rparr>"
      using 3 headerTimeCol_ge [of x] by (auto simp: parseLine_def is_data_def headerTimeCol_def Let_def)
    moreover have "x \<noteq> []" "\<not> is_meta x" using 3 by (auto simp: is_data_def is_meta_def)
    ultimately show ?thesis using 3 by (simp add: foldl_parseLine_rows)
  qed (use Cons in \<open>auto simp: parseLine_def is_meta_def is_data_def\<close>)
qed simp

lemma parseCSVResponse_eq:
  "parseCSVResponse body =
    (let lines = Split newline (TrimSpace body)
     in \<lparr>csv_meta = filter is_meta lines,
         csv_header = (case filter is_data lines of [] \<Rightarrow> [] | h # _ \<Rightarrow> h),
         csv_timeCol = (case filter is_data lines of [] \<Rightarrow> -1 | h # _ \<Rightarrow> headerTimeCol h),
         csv_rows = (case filter is_data lines of [] \<Rightarrow> [] | h # ls \<Rightarrow> map (mkRow h) ls)\<rparr>)"
  by (simp add: parseCSVResponse_def csv_start_def foldl_parseLine_start Let_def)

section \<open>Deduplication\<close>

lemma dedupRows_distinct: "distinct (map raw (dedupRows seen rows)) \<and> raw ` set (dedupRows seen rows) \<inter> seen = {}"
  by (induction rows arbitrary: seen) auto

lemma dedupRows_raws: "raw ` set (dedupRows seen rows) = raw ` set rows - seen"
  by (induction rows arbitrary: seen) auto

lemma dedupRows_subset: "set (dedupRows seen rows) \<subseteq> set rows"
  by (induction rows arbitrary: seen) auto

section \<open>The contract of the sort and what the merge guarantees\<close>

definition mergedRows :: "(csvRow list \<Rightarrow> csvRow list) \<Rightarrow> string \<Rightarrow> string \<Rightarrow> csvRow list" where
  "mergedRows sort_Slice cachedBody liveBody =
     sort_Slice (dedupRows {} (csv_rows (parseCSVResponse cachedBody) @ csv_rows (parseCSVResponse liveBody)))"

definition mergedHeader :: "string \<Rightarrow> string \<Rightarrow> string" where
  "mergedHeader cachedBody liveBody =
     (if csv_header (parseCSVResponse cachedBody) = [] then csv_header (parseCSVResponse liveBody)
      else csv_header (parseCSVResponse cachedBody))"

lemma MergeCSV_eq:
  "mergedHeader c l \<noteq> [] \<Longrightarrow> MergeCSV sort_Slice c l =
     Join (csv_meta (parseCSVResponse c) @ [mergedHeader c l] @ map raw (mergedRows sort_Slice c l)) [newline] @ [newline]"
  by (auto simp: MergeCSV_def mergedHeader_def mergedRows_def Let_def)

lemma MergeCSV_no_header: "mergedHeader c l = [] \<Longrightarrow> MergeCSV sort_Slice c l = l"
  by (auto simp: MergeCSV_def mergedHeader_def Let_def split: if_splits)

text \<open>A line of a parsed body: no line break in it; not empty; data lines do not start with \<open>#\<close>.\<close>

lemma parseCSVResponse_lines:
  defines "lines b \<equiv> Split newline (TrimSpace b)"
  shows "csv_meta (parseCSVResponse b) = filter is_meta (lines b)"
    and "csv_header (parseCSVResponse b) # map raw (csv_rows (parseCSVResponse b)) =
      (if filter is_data (lines b) = [] then [[]] else filter is_data (lines b))"
  by (auto simp: parseCSVResponse_eq Let_def lines_def comp_def split: list.splits)

lemma data_line:
  assumes "x \<in> set (csv_header (parseCSVResponse b) # map raw (csv_rows (parseCSVResponse b)))" and "x \<noteq> []"
  shows "is_data x \<and> newline \<notin> set x"
proof -
  have "x \<in> set (filter is_data (Split newline (TrimSpace b)))"
    using assms by (auto simp: parseCSVResponse_lines(2) split: if_splits)
  then show ?thesis by (auto dest: Split_no_sep)
qed

lemma row_line:
  assumes "r \<in> set (csv_rows (parseCSVResponse b))"
  shows "is_data (raw r) \<and> newline \<notin> set (raw r)"
proof -
  obtain h ls where hl: "filter is_data (Split newline (TrimSpace b)) = h # ls" and "r \<in> mkRow h ` set ls"
    using assms by (cases "filter is_data (Split newline (TrimSpace b))") (auto simp: parseCSVResponse_eq Let_def)
  then have "raw r \<in> set (filter is_data (Split newline (TrimSpace b)))"
    unfolding hl by auto
  then show ?thesis by (auto dest: Split_no_sep)
qed

lemma row_mkRow:
  "r \<in> set (csv_rows (parseCSVResponse b)) \<Longrightarrow> r = mkRow (csv_header (parseCSVResponse b)) (raw r)"
  by (auto simp: parseCSVResponse_eq Let_def split: list.splits)

locale row_sorter =
  fixes sort_Slice :: "csvRow list \<Rightarrow> csvRow list"
  assumes perm: "mset (sort_Slice rows) = mset rows"
    and ordered: "sorted (map row_time (sort_Slice rows))"
begin

lemma set_sort: "set (sort_Slice rows) = set rows"
  using perm by (metis set_mset_mset)

lemma merged_sorted: "sorted (map row_time (mergedRows sort_Slice c l))"
  by (simp add: mergedRows_def ordered)

lemma merged_distinct: "distinct (map raw (mergedRows sort_Slice c l))"
proof -
  let ?d = "dedupRows {} (csv_rows (parseCSVResponse c) @ csv_rows (parseCSVResponse l))"
  have "mset (map raw (sort_Slice ?d)) = mset (map raw ?d)"
    by (simp add: perm)
  then show ?thesis
    using dedupRows_distinct by (metis mergedRows_def mset_eq_imp_distinct_iff)
qed

lemma merged_rows:
  "set (mergedRows sort_Slice c l) \<subseteq> set (csv_rows (parseCSVResponse c)) \<union> set (csv_rows (parseCSVResponse l))"
  using dedupRows_subset by (fastforce simp: mergedRows_def set_sort)

lemma merged_raws:
  "raw ` set (mergedRows sort_Slice c l) =
     raw ` set (csv_rows (parseCSVResponse c)) \<union> raw ` set (csv_rows (parseCSVResponse l))"
  by (simp add: mergedRows_def set_sort dedupRows_raws image_Un)

text \<open>
  Reading the merged body gives the cached annotations, the common header and the merged rows.
\<close>

lemma parse_merged:
  assumes h: "csv_header (parseCSVResponse c) = h" "csv_header (parseCSVResponse l) = h" "h \<noteq> []"
    and clean: "\<forall>x \<in> set (csv_meta (parseCSVResponse c)) \<union> {h} \<union>
      raw ` set (csv_rows (parseCSVResponse c)) \<union> raw ` set (csv_rows (parseCSVResponse l)). no_outer_space x"
  shows "parseCSVResponse (MergeCSV sort_Slice c l) =
    \<lparr>csv_meta = csv_meta (parseCSVResponse c), csv_header = h, csv_timeCol = headerTimeCol h,
     csv_rows = mergedRows sort_Slice c l\<rparr>"
proof -
  let ?m = "csv_meta (parseCSVResponse c)" and ?rows = "mergedRows sort_Slice c l"
  let ?out = "?m @ [h] @ map raw ?rows"
  have h_data: "is_data h" "newline \<notin> set h"
    using data_line [of h c] h by auto
  have m_meta: "is_meta x \<and> newline \<notin> set x" if "x \<in> set ?m" for x
    using that by (auto simp: parseCSVResponse_lines(1) dest: Split_no_sep)
  have r_data: "is_data x \<and> newline \<notin> set x" if "x \<in> set (map raw ?rows)" for x
    using that merged_rows row_line by fastforce
  have ne: "\<forall>x \<in> set ?out. x \<noteq> [] \<and> no_outer_space x \<and> newline \<notin> set x"
    using clean h_data m_meta r_data merged_raws [of c l]
    by (auto simp: is_data_def is_meta_def)
  have "no_outer_space (Join ?out [newline])"
    by (rule no_outer_space_Join) (use ne in \<open>auto simp: space_encs_def\<close>)
  moreover have "TrimSpace (Join ?out [newline] @ [newline]) = TrimSpace (Join ?out [newline])"
    using TrimSpace_ascii [of "[]" "[newline]"] by (simp add: space_encs_def)
  moreover have "mergedHeader c l = h" using h by (simp add: mergedHeader_def)
  ultimately have "TrimSpace (MergeCSV sort_Slice c l) = Join ?out [newline]"
    using h(3) by (simp add: MergeCSV_eq TrimSpace_id)
  then have lines: "Split newline (TrimSpace (MergeCSV sort_Slice c l)) = ?out"
    using ne by (simp only:) (rule Split_Join, auto)
  have "filter is_meta ?out = ?m" "filter is_data ?out = h # map raw ?rows"
    using m_meta r_data h_data by (auto simp: filter_empty_conv filter_id_conv is_meta_def is_data_def)
  moreover have "mkRow h (raw r) = r" if "r \<in> set ?rows" for r
    using that merged_rows [of c l] row_mkRow [of r c] row_mkRow [of r l] h(1,2) by auto
  then have "map (mkRow h) (map raw ?rows) = ?rows"
    by (simp add: map_idI)
  ultimately show ?thesis by (simp add: parseCSVResponse_eq Let_def lines)
qed

end

interpretation insertion: row_sorter insertionSort
  by unfold_locales (simp_all add: mset_insertionSort sorted_insertionSort)

section \<open>Claims\<close>

text \<open>
  C6: merging the answers of the two segments, for any sort that orders by time. The rows of
  the result are those of the two answers, none of them twice, in the order of their times,
  below the annotations of the cached answer and the header (that of the cached answer, or of
  the live answer when the cached one is empty). When neither has a header the live answer is
  returned as it is.
\<close>

theorem MergeCSV_rows:
  assumes "row_sorter sort_Slice"
  shows "\<exists>rows. distinct (map raw rows) \<and> sorted (map row_time rows) \<and>
     raw ` set rows = raw ` set (csv_rows (parseCSVResponse c)) \<union> raw ` set (csv_rows (parseCSVResponse l)) \<and>
     set rows \<subseteq> set (csv_rows (parseCSVResponse c)) \<union> set (csv_rows (parseCSVResponse l)) \<and>
     MergeCSV sort_Slice c l =
       (if mergedHeader c l = [] then l
        else Join (csv_meta (parseCSVResponse c) @ [mergedHeader c l] @ map raw rows) [newline] @ [newline])"
  by (rule exI [of _ "mergedRows sort_Slice c l"])
     (simp add: row_sorter.merged_distinct [OF assms] row_sorter.merged_sorted [OF assms]
       row_sorter.merged_raws [OF assms] row_sorter.merged_rows [OF assms] MergeCSV_eq MergeCSV_no_header)

theorem MergeCSV_rows_witness:
  "\<exists>rows :: csvRow list. distinct (map raw rows) \<and>
     MergeCSV insertionSort (''_time,v'' @ [newline] @ ''2024-01-01T00:00:02Z,2'' @ [newline] @ ''2024-01-01T00:00:01Z,1'')
       (''_time,v'' @ [newline] @ ''2024-01-01T00:00:02Z,2'') =
     Join ([] @ [''_time,v''] @ map raw rows) [newline] @ [newline]"
proof -
  define c where "c = ''_time,v'' @ [newline] @ ''2024-01-01T00:00:02Z,2'' @ [newline] @ ''2024-01-01T00:00:01Z,1''"
  define l where "l = ''_time,v'' @ [newline] @ ''2024-01-01T00:00:02Z,2''"
  have "csv_meta (parseCSVResponse c) = []" "mergedHeader c l = ''_time,v''"
    unfolding c_def l_def by code_simp+
  moreover obtain rows :: "csvRow list" where "distinct (map raw rows)" "MergeCSV insertionSort c l =
       (if mergedHeader c l = [] then l
        else Join (csv_meta (parseCSVResponse c) @ [mergedHeader c l] @ map raw rows) [newline] @ [newline])"
    using MergeCSV_rows [OF insertion.row_sorter_axioms, of c l] by blast
  ultimately show ?thesis
    unfolding c_def [symmetric] l_def [symmetric] by (intro exI [of _ rows]) simp
qed

text \<open>
  C17: a merged answer reads back. When both answers have the same header and no line begins or
  ends with white space, parsing the merged body gives the cached annotations, that header and
  exactly the merged rows with their times.
\<close>

theorem MergeCSV_parses_back:
  assumes "row_sorter sort_Slice"
    and "csv_header (parseCSVResponse c) = h" and "csv_header (parseCSVResponse l) = h" and "h \<noteq> []"
    and "\<forall>x \<in> set (csv_meta (parseCSVResponse c)) \<union> {h} \<union>
      raw ` set (csv_rows (parseCSVResponse c)) \<union> raw ` set (csv_rows (parseCSVResponse l)). no_outer_space x"
  shows "parseCSVResponse (MergeCSV sort_Slice c l) =
    \<lparr>csv_meta = csv_meta (parseCSVResponse c), csv_header = h, csv_timeCol = headerTimeCol h,
     csv_rows = mergedRows sort_Slice c l\<rparr>"
  using assms by (rule row_sorter.parse_merged)

theorem MergeCSV_parses_back_witness:
  "csv_rows (parseCSVResponse (MergeCSV insertionSort (''_time,v'' @ [newline] @ ''2024-01-01T00:00:02Z,2'')
      (''_time,v'' @ [newline] @ ''2024-01-01T00:00:01Z,1''))) =
   mergedRows insertionSort (''_time,v'' @ [newline] @ ''2024-01-01T00:00:02Z,2'') (''_time,v'' @ [newline] @ ''2024-01-01T00:00:01Z,1'')"
proof -
  have p: "parseCSVResponse (''_time,v'' @ [newline] @ ''2024-01-01T00:00:02Z,2'') =
      \<lparr>csv_meta = [], csv_header = ''_time,v'', csv_timeCol = 0,
       csv_rows = [\<lparr>row_time = 63839664002000000000, raw = ''2024-01-01T00:00:02Z,2''\<rparr>]\<rparr>"
    "parseCSVResponse (''_time,v'' @ [newline] @ ''2024-01-01T00:00:01Z,1'') =
      \<lparr>csv_meta = [], csv_header = ''_time,v'', csv_timeCol = 0,
       csv_rows = [\<lparr>row_time = 63839664001000000000, raw = ''2024-01-01T00:00:01Z,1''\<rparr>]\<rparr>"
    by code_simp+
  have "no_outer_space ''_time,v''" "no_outer_space ''2024-01-01T00:00:02Z,2''" "no_outer_space ''2024-01-01T00:00:01Z,1''"
    by code_simp+
  then show ?thesis
    using MergeCSV_parses_back [OF insertion.row_sorter_axioms, of "''_time,v'' @ [newline] @ ''2024-01-01T00:00:02Z,2''"
        "''_time,v''" "''_time,v'' @ [newline] @ ''2024-01-01T00:00:01Z,1''"]
    unfolding p by simp
qed

end
