(* ===== verification/Runtime.thy ===== *)
theory Runtime
  imports GoTime FluxMerge
begin

text \<open>
  What the gateway's code runs in: HTTP messages and headers, the clock, and the services and
  packages outside the repository. The latter (the Redis client, the HTTP client, URL joining,
  random numbers, \<open>sort.Slice\<close>) are the fields of the record \<open>env\<close>, functions on an abstract
  environment state, so every definition of the gateway takes them as an argument and the
  theorems hold for any behaviour of theirs unless a hypothesis restricts it.

  Effectful code runs in the state monad over \<open>host\<close>: the clock, the environment state, and
  the trace of everything the code did to the outside (commands sent to Redis, requests sent
  upstream, metrics, log entries). \<open>emits P m\<close> says that every event \<open>m\<close> adds to the trace
  satisfies \<open>P\<close>; its rules follow the structure of a program.
\<close>

section \<open>Headers\<close>

text \<open>\<open>http.Header\<close>: a map from names to values, as an association list without duplicate names.\<close>

type_synonym header = "(string \<times> string list) list"

definition header_byte :: "char \<Rightarrow> bool" where
  "header_byte c \<longleftrightarrow>
     is_digit c \<or> (65 \<le> (of_char c :: int) \<and> (of_char c :: int) \<le> 90) \<or>
     (97 \<le> (of_char c :: int) \<and> (of_char c :: int) \<le> 122) \<or> c \<in> set ''!#$%&*+-.^_|~'' \<or>
     c \<in> {CHR 0x27, CHR 0x60}"

definition upper_byte :: "char \<Rightarrow> char" where
  "upper_byte c =
     (if 97 \<le> (of_char c :: int) \<and> (of_char c :: int) \<le> 122 then char_of ((of_char c :: int) - 32) else c)"

fun canonical_loop :: "bool \<Rightarrow> string \<Rightarrow> string" where
  "canonical_loop up [] = []"
| "canonical_loop up (c # s) = (if up then upper_byte c else lower_byte c) # canonical_loop (c = CHR ''-'') s"

text \<open>\<open>textproto.CanonicalMIMEHeaderKey\<close>: a name with a byte that is not allowed is left alone.\<close>

definition CanonicalKey :: "string \<Rightarrow> string" where
  "CanonicalKey k = (if list_all header_byte k then canonical_loop True k else k)"

definition hdr_values :: "header \<Rightarrow> string \<Rightarrow> string list" where
  "hdr_values h k = (case map_of h (CanonicalKey k) of None \<Rightarrow> [] | Some vs \<Rightarrow> vs)"

definition hdr_Get :: "header \<Rightarrow> string \<Rightarrow> string" where
  "hdr_Get h k = (case hdr_values h k of [] \<Rightarrow> [] | v # _ \<Rightarrow> v)"

fun hdr_put :: "header \<Rightarrow> string \<Rightarrow> string list \<Rightarrow> header" where
  "hdr_put [] k vs = [(k, vs)]"
| "hdr_put ((k', vs') # h) k vs = (if k' = k then (k, vs) # h else (k', vs') # hdr_put h k vs)"

definition hdr_Set :: "string \<Rightarrow> string \<Rightarrow> header \<Rightarrow> header" where
  "hdr_Set k v h = hdr_put h (CanonicalKey k) [v]"

definition hdr_Add :: "string \<Rightarrow> string \<Rightarrow> header \<Rightarrow> header" where
  "hdr_Add k v h = hdr_put h (CanonicalKey k) (hdr_values h k @ [v])"

lemma map_of_hdr_put: "map_of (hdr_put h k vs) = (map_of h)(k \<mapsto> vs)"
  by (induction h k vs rule: hdr_put.induct) (auto simp: fun_eq_iff)

lemma hdr_values_Set: "hdr_values (hdr_Set k v h) k' = (if CanonicalKey k' = CanonicalKey k then [v] else hdr_values h k')"
  by (simp add: hdr_values_def hdr_Set_def map_of_hdr_put)

lemma hdr_values_Add:
  "hdr_values (hdr_Add k v h) k' =
     (if CanonicalKey k' = CanonicalKey k then hdr_values h k' @ [v] else hdr_values h k')"
  by (auto simp: hdr_values_def hdr_Add_def map_of_hdr_put)

lemma hdr_Get_Set: "hdr_Get (hdr_Set k v h) k' = (if CanonicalKey k' = CanonicalKey k then v else hdr_Get h k')"
  by (simp add: hdr_Get_def hdr_values_Set)

section \<open>Messages\<close>

record http_request =
  rq_method :: string
  rq_url :: string
  rq_header :: header
  rq_body :: string

record http_response =
  rs_status :: int
  rs_header :: header
  rs_body :: "string + string"  \<comment> \<open>\<open>Inl\<close>: reading the body fails\<close>

section \<open>Events and environment\<close>

text \<open>\<open>redis.Nil\<close> is the client's reply for a missing key.\<close>

datatype redis_error = RedisNil | RedisErr string

datatype level = LevelInfo | LevelError

datatype attr = AStr string | AInt int | ABool bool

text \<open>A command to Redis and a request upstream carry what came back.\<close>

datatype event =
    RedisPing "redis_error option"
  | RedisGet string "redis_error + string"
  | RedisSet string string duration "redis_error option"
  | RedisSetNX string string duration "redis_error + bool"
  | RedisDel string "redis_error option"
  | HttpDo http_request "string + http_response"
  | CacheResult string
  | RedisLatency string bool duration
  | UpLatency string string duration
  | Slog level string "(string \<times> attr) list"

record 'e env =
  elapse :: "'e \<Rightarrow> duration \<times> 'e"       \<comment> \<open>time that passed since the clock was last read\<close>
  redis_Ping :: "'e \<Rightarrow> redis_error option \<times> 'e"
  redis_Get :: "string \<Rightarrow> 'e \<Rightarrow> (redis_error + string) \<times> 'e"
  redis_Set :: "string \<Rightarrow> string \<Rightarrow> duration \<Rightarrow> 'e \<Rightarrow> redis_error option \<times> 'e"
  redis_SetNX :: "string \<Rightarrow> string \<Rightarrow> duration \<Rightarrow> 'e \<Rightarrow> (redis_error + bool) \<times> 'e"
  redis_Del :: "string \<Rightarrow> 'e \<Rightarrow> redis_error option \<times> 'e"
  http_Do :: "http_request \<Rightarrow> 'e \<Rightarrow> (string + http_response) \<times> 'e"
  http_NewRequest :: "string \<Rightarrow> string \<Rightarrow> string option"  \<comment> \<open>method, URL; \<open>Some\<close>: the error\<close>
  url_JoinPath :: "string \<Rightarrow> string \<Rightarrow> string + string"
  rand_Int63n :: "int \<Rightarrow> 'e \<Rightarrow> int \<times> 'e"
  sort_Slice :: "csvRow list \<Rightarrow> csvRow list"

record 'e host =
  clk :: instant
  ext :: 'e
  trace :: "event list"

type_synonym ('e, 'x, 'a) io = "(('e, 'x) host_scheme, 'a) state"

definition emit :: "event \<Rightarrow> ('e, 'x, unit) io" where
  "emit ev = State_Monad.update (\<lambda>s. s\<lparr>trace := trace s @ [ev]\<rparr>)"

text \<open>An operation of the environment.\<close>

definition external :: "('e \<Rightarrow> 'a \<times> 'e) \<Rightarrow> ('e, 'x, 'a) io" where
  "external f = State (\<lambda>s. case f (ext s) of (a, e) \<Rightarrow> (a, s\<lparr>ext := e\<rparr>))"

text \<open>\<open>time.Now\<close>: the clock never runs backwards. \<open>time.Sleep\<close> takes at least as long as asked.\<close>

definition time_Now :: "'e env \<Rightarrow> ('e, 'x, instant) io" where
  "time_Now env =
     State (\<lambda>s. case elapse env (ext s) of (d, e) \<Rightarrow>
       (clk s + max 0 d, s\<lparr>clk := clk s + max 0 d, ext := e\<rparr>))"

definition time_Sleep :: "duration \<Rightarrow> ('e, 'x, unit) io" where
  "time_Sleep d = State_Monad.update (\<lambda>s. s\<lparr>clk := clk s + max 0 d\<rparr>)"

definition time_Since :: "'e env \<Rightarrow> instant \<Rightarrow> ('e, 'x, duration) io" where
  "time_Since env t = do { now \<leftarrow> time_Now env; State_Monad.return (time_Sub now t) }"

lemma run_update [simp]: "run_state (State_Monad.update f) s = ((), f s)"
  by (simp add: State_Monad.update_def)

lemma run_emit [simp]: "run_state (emit ev) s = ((), s\<lparr>trace := trace s @ [ev]\<rparr>)"
  by (simp add: emit_def)

lemma run_external: "run_state (external f) s = (fst (f (ext s)), s\<lparr>ext := snd (f (ext s))\<rparr>)"
  by (simp add: external_def split: prod.splits)

lemma run_time_Now:
  "run_state (time_Now env) s = (clk s + max 0 (fst (elapse env (ext s))),
     s\<lparr>clk := clk s + max 0 (fst (elapse env (ext s))), ext := snd (elapse env (ext s))\<rparr>)"
  by (simp add: time_Now_def split: prod.splits)

lemma run_time_Sleep [simp]: "run_state (time_Sleep d) s = ((), s\<lparr>clk := clk s + max 0 d\<rparr>)"
  by (simp add: time_Sleep_def)

text \<open>\<open>client.Do\<close>: the request is sent; an error or the response comes back.\<close>

definition client_Do :: "'e env \<Rightarrow> http_request \<Rightarrow> ('e, 'x, string + http_response) io" where
  "client_Do env req = do { resp \<leftarrow> external (http_Do env req); emit (HttpDo req resp); State_Monad.return resp }"

lemma run_client_Do:
  "run_state (client_Do env req) s =
     (fst (http_Do env req (ext s)),
      s\<lparr>ext := snd (http_Do env req (ext s)), trace := trace s @ [HttpDo req (fst (http_Do env req (ext s)))]\<rparr>)"
  by (simp add: client_Do_def run_external)

section \<open>What a program may emit\<close>

named_theorems emits_rules \<open>rules for \<open>emits\<close>, one per program construct\<close>

definition emits :: "(event \<Rightarrow> bool) \<Rightarrow> ('e, 'x, 'a) io \<Rightarrow> bool" where
  "emits P m \<longleftrightarrow> (\<forall>s. \<exists>evs. trace (snd (run_state m s)) = trace s @ evs \<and> list_all P evs)"

lemma emitsD:
  "emits P m \<Longrightarrow> run_state m s = (a, s') \<Longrightarrow> \<exists>evs. trace s' = trace s @ evs \<and> list_all P evs"
  by (metis emits_def snd_conv)

lemma emits_return [emits_rules]: "emits P (State_Monad.return a)"
  by (simp add: emits_def)

lemma emits_emit [emits_rules]: "P ev \<Longrightarrow> emits P (emit ev)"
  by (simp add: emits_def)

lemma emits_external [emits_rules]: "emits P (external f)"
  by (simp add: emits_def run_external)

lemma emits_time_Now [emits_rules]: "emits P (time_Now env)"
  by (simp add: emits_def run_time_Now)

lemma emits_time_Sleep [emits_rules]: "emits P (time_Sleep d)"
  by (simp add: emits_def)

lemma emits_bind [emits_rules]:
  assumes "emits P m" and "\<And>a. emits P (f a)"
  shows "emits P (State_Monad.bind m f)"
  unfolding emits_def
proof
  fix s
  obtain a s1 where m: "run_state m s = (a, s1)" by (cases "run_state m s")
  obtain e1 where e1: "trace s1 = trace s @ e1" "list_all P e1" using emitsD [OF assms(1) m] by blast
  obtain b s2 where f: "run_state (f a) s1 = (b, s2)" by (cases "run_state (f a) s1")
  obtain e2 where "trace s2 = trace s1 @ e2" "list_all P e2" using emitsD [OF assms(2) f] by blast
  with e1 m f show "\<exists>evs. trace (snd (run_state (State_Monad.bind m f) s)) = trace s @ evs \<and> list_all P evs"
    by (intro exI [of _ "e1 @ e2"]) simp
qed

lemma emits_if [emits_rules]: "(b \<Longrightarrow> emits P m) \<Longrightarrow> (\<not> b \<Longrightarrow> emits P m') \<Longrightarrow> emits P (if b then m else m')"
  by simp

lemma emits_sum [emits_rules]:
  "(\<And>a. x = Inl a \<Longrightarrow> emits P (f a)) \<Longrightarrow> (\<And>b. x = Inr b \<Longrightarrow> emits P (g b)) \<Longrightarrow> emits P (case x of Inl a \<Rightarrow> f a | Inr b \<Rightarrow> g b)"
  by (cases x) auto

lemma emits_option [emits_rules]:
  "(x = None \<Longrightarrow> emits P f) \<Longrightarrow> (\<And>b. x = Some b \<Longrightarrow> emits P (g b)) \<Longrightarrow> emits P (case x of None \<Rightarrow> f | Some b \<Rightarrow> g b)"
  by (cases x) auto

lemma emits_prod [emits_rules]:
  "(\<And>a b. x = (a, b) \<Longrightarrow> emits P (f a b)) \<Longrightarrow> emits P (case x of (a, b) \<Rightarrow> f a b)"
  by (cases x) auto

lemma emits_mono: "emits P m \<Longrightarrow> (\<And>ev. P ev \<Longrightarrow> Q ev) \<Longrightarrow> emits Q m"
  unfolding emits_def by (metis list.pred_mono_strong)

lemma emits_time_Since [emits_rules]: "emits P (time_Since env t)"
  unfolding time_Since_def by (intro emits_rules)

lemma emits_client_Do [emits_rules]: "(\<And>resp. P (HttpDo req resp)) \<Longrightarrow> emits P (client_Do env req)"
  unfolding client_Do_def by (intro emits_rules)

text \<open>The continuation sees only values the first program can return.\<close>

lemma emits_bind_result:
  assumes "emits P m" and "\<And>s a s'. run_state m s = (a, s') \<Longrightarrow> emits P (f a)"
  shows "emits P (State_Monad.bind m f)"
  unfolding emits_def
proof
  fix s
  obtain a s1 where m: "run_state m s = (a, s1)" by (cases "run_state m s")
  obtain e1 where e1: "trace s1 = trace s @ e1" "list_all P e1" using emitsD [OF assms(1) m] by blast
  obtain b s2 where f: "run_state (f a) s1 = (b, s2)" by (cases "run_state (f a) s1")
  obtain e2 where "trace s2 = trace s1 @ e2" "list_all P e2" using emitsD [OF assms(2) [OF m] f] by blast
  with e1 m f show "\<exists>evs. trace (snd (run_state (State_Monad.bind m f) s)) = trace s @ evs \<and> list_all P evs"
    by (intro exI [of _ "e1 @ e2"]) simp
qed

end
