(* ===== verification/World.thy ===== *)
theory World
  imports Runtime
begin

text \<open>
  A concrete environment: a Redis server that keeps its keys in memory, upstreams that answer
  from a script, a clock that advances by a fixed amount whenever it is read. It shows that the
  contracts the theorems assume of the outside can be met, and the theorems are evaluated in it.
\<close>

record world =
  wnow :: instant
  wtick :: duration
  redisUp :: bool
  store :: "(string \<times> string \<times> instant option) list"
  answers :: "(string + http_response) list"
  dice :: int

definition expiresAt :: "instant \<Rightarrow> duration \<Rightarrow> instant option" where
  "expiresAt now ttl = (if ttl > 0 then Some (now + ttl) else None)"

definition alive :: "instant \<Rightarrow> instant option \<Rightarrow> bool" where
  "alive now until = (case until of None \<Rightarrow> True | Some t \<Rightarrow> now < t)"

definition lookupKey :: "world \<Rightarrow> string \<Rightarrow> string option" where
  "lookupKey w k =
     (case map_of (store w) k of
        None \<Rightarrow> None
      | Some (v, until) \<Rightarrow> if alive (wnow w) until then Some v else None)"

definition storeKey :: "string \<Rightarrow> string \<Rightarrow> duration \<Rightarrow> world \<Rightarrow> world" where
  "storeKey k v ttl w = w\<lparr>store := (k, v, expiresAt (wnow w) ttl) # filter (\<lambda>e. fst e \<noteq> k) (store w)\<rparr>"

definition dropKey :: "string \<Rightarrow> world \<Rightarrow> world" where
  "dropKey k w = w\<lparr>store := filter (\<lambda>e. fst e \<noteq> k) (store w)\<rparr>"

definition refused :: redis_error where
  "refused = RedisErr ''connection refused''"

definition worldEnv :: "world env" where
  "worldEnv =
     \<lparr>elapse = (\<lambda>w. (wtick w, w\<lparr>wnow := wnow w + wtick w\<rparr>)),
      redis_Ping = (\<lambda>w. (if redisUp w then None else Some refused, w)),
      redis_Get = (\<lambda>k w.
        (if redisUp w then (case lookupKey w k of None \<Rightarrow> Inl RedisNil | Some v \<Rightarrow> Inr v)
         else Inl refused, w)),
      redis_Set = (\<lambda>k v ttl w. if redisUp w then (None, storeKey k v ttl w) else (Some refused, w)),
      redis_SetNX = (\<lambda>k v ttl w.
        if \<not> redisUp w then (Inl refused, w)
        else if ttl < 0 then (Inl (RedisErr ''ERR invalid expire time in 'set' command''), w)
        else if lookupKey w k = None then (Inr True, storeKey k v ttl w)
        else (Inr False, w)),
      redis_Del = (\<lambda>k w. if redisUp w then (None, dropKey k w) else (Some refused, w)),
      http_Do = (\<lambda>req w.
        case answers w of
          [] \<Rightarrow> (Inl ''connection refused'', w)
        | a # as \<Rightarrow> (a, w\<lparr>answers := as\<rparr>)),
      http_NewRequest = (\<lambda>method url. if Contains url '' '' then Some ''invalid URL'' else None),
      url_JoinPath = (\<lambda>base path. if base = [] then Inl ''empty URL'' else Inr (base @ path)),
      rand_Int63n = (\<lambda>n w. (dice w mod n, w)),
      sort_Slice = insertionSort\<rparr>"

definition world0 :: world where
  "world0 = \<lparr>wnow = 0, wtick = millisecond, redisUp = True, store = [], answers = [], dice = 0\<rparr>"

lemma lookupKey_storeKey:
  "0 \<le> ttl \<Longrightarrow> lookupKey (storeKey k v ttl w) k' = (if k' = k then Some v else lookupKey w k')"
proof -
  have "map_of (filter (\<lambda>e. fst e \<noteq> k) st) k' = map_of st k'" if "k' \<noteq> k" for st :: "(string \<times> string \<times> instant option) list"
    using that by (induction st) auto
  then show ?thesis
    by (auto simp: lookupKey_def storeKey_def expiresAt_def alive_def cong: option.case_cong)
qed

lemma lookupKey_dropKey: "lookupKey (dropKey k w) k' = (if k' = k then None else lookupKey w k')"
proof -
  have "map_of (filter (\<lambda>e. fst e \<noteq> k) st) k' = (if k' = k then None else map_of st k')"
    for st :: "(string \<times> string \<times> instant option) list"
    by (induction st) auto
  then show ?thesis
    by (simp add: lookupKey_def dropKey_def cong: option.case_cong)
qed

end
