(* ===== verification/GoHash.thy ===== *)
theory GoHash
  imports GoStrings
begin

unbundle bit_operations_syntax

text \<open>
  \<open>crypto/sha256\<close> and \<open>encoding/hex\<close>: SHA-256 as FIPS 180-4 defines it, on 32-bit words, and
  the lower-case hexadecimal encoding. The lemmas give the lengths and the alphabet of their
  results, which is what the cache keys rely on.
\<close>

type_synonym u32 = "32 word"

section \<open>SHA-256\<close>

text \<open>
  The constants of the standard, from their definition: the first 32 bits of the fractional
  parts of the cube roots of the first 64 primes, and of the square roots of the first eight.
  The root is found bit by bit, \<open>b\<close> being the value of the current bit.
\<close>

fun int_root :: "(int \<Rightarrow> int) \<Rightarrow> int \<Rightarrow> nat \<Rightarrow> int \<Rightarrow> int \<Rightarrow> int" where
  "int_root f x 0 b r = r"
| "int_root f x (Suc n) b r = int_root f x n (b div 2) (if f (r + b) \<le> x then r + b else r)"

definition small_primes :: "int list" where
  "small_primes = filter (\<lambda>p. list_all (\<lambda>d. d * d > p \<or> p mod d \<noteq> 0) [2..17]) [2..311]"

definition cube_root_bits :: "int \<Rightarrow> u32" where
  "cube_root_bits p = word_of_int (int_root (\<lambda>r. r * r * r) (p * 79228162514264337593543950336) 35 17179869184 0)"

definition square_root_bits :: "int \<Rightarrow> u32" where
  "square_root_bits p = word_of_int (int_root (\<lambda>r. r * r) (p * 18446744073709551616) 35 17179869184 0)"

definition sha_K :: "u32 list" where
  "sha_K = map cube_root_bits small_primes"

definition sha_H0 :: "u32 list" where
  "sha_H0 = map square_root_bits (take 8 small_primes)"

lemma length_sha_H0: "length sha_H0 = 8"
proof -
  have "length (take 8 small_primes) = 8" by code_simp
  then show ?thesis by (simp add: sha_H0_def)
qed

definition word_of_bytes :: "char \<Rightarrow> char \<Rightarrow> char \<Rightarrow> char \<Rightarrow> u32" where
  "word_of_bytes a b c d =
     word_of_int (of_char a * 16777216 + of_char b * 65536 + of_char c * 256 + of_char d)"

definition bytes_of_word :: "u32 \<Rightarrow> string" where
  "bytes_of_word w =
     (let n = uint w
      in [char_of (n div 16777216), char_of (n div 65536), char_of (n div 256), char_of n])"

text \<open>Padding: a one bit, zeros, and the length in bits as a 64-bit number.\<close>

definition be64 :: "int \<Rightarrow> string" where
  "be64 n = map (\<lambda>i. char_of (n div 256 ^ i)) [7, 6, 5, 4, 3, 2, 1, 0]"

definition sha_pad :: "string \<Rightarrow> string" where
  "sha_pad m =
     m @ [CHR 0x80] @ replicate ((119 - length m mod 64) mod 64) (CHR 0x00) @ be64 (8 * int (length m))"

fun words_of :: "string \<Rightarrow> u32 list" where
  "words_of (a # b # c # d # r) = word_of_bytes a b c d # words_of r"
| "words_of _ = []"

definition sigma0 :: "u32 \<Rightarrow> u32" where
  "sigma0 x = word_rotr 7 x XOR word_rotr 18 x XOR drop_bit 3 x"

definition sigma1 :: "u32 \<Rightarrow> u32" where
  "sigma1 x = word_rotr 17 x XOR word_rotr 19 x XOR drop_bit 10 x"

definition Sigma0 :: "u32 \<Rightarrow> u32" where
  "Sigma0 x = word_rotr 2 x XOR word_rotr 13 x XOR word_rotr 22 x"

definition Sigma1 :: "u32 \<Rightarrow> u32" where
  "Sigma1 x = word_rotr 6 x XOR word_rotr 11 x XOR word_rotr 25 x"

fun sha_schedule :: "nat \<Rightarrow> u32 list \<Rightarrow> u32 list" where
  "sha_schedule 0 ws = ws"
| "sha_schedule (Suc n) ws =
     (let i = length ws
      in sha_schedule n
        (ws @ [sigma1 (ws ! (i - 2)) + ws ! (i - 7) + sigma0 (ws ! (i - 15)) + ws ! (i - 16)]))"

fun sha_round :: "u32 list \<Rightarrow> u32 \<times> u32 \<Rightarrow> u32 list" where
  "sha_round [a, b, c, d, e, f, g, h] (k, w) =
     (let t1 = h + Sigma1 e + ((e AND f) XOR (NOT e AND g)) + k + w;
          t2 = Sigma0 a + ((a AND b) XOR (a AND c) XOR (b AND c))
      in [t1 + t2, a, b, c, d + t1, e, f, g])"
| "sha_round st _ = st"

definition sha_block :: "u32 list \<Rightarrow> u32 list \<Rightarrow> u32 list" where
  "sha_block H ws = map2 (+) H (foldl sha_round H (zip sha_K (sha_schedule 48 ws)))"

function sha_blocks :: "u32 list \<Rightarrow> u32 list \<Rightarrow> u32 list" where
  "sha_blocks H ws = (if ws = [] then H else sha_blocks (sha_block H (take 16 ws)) (drop 16 ws))"
  by pat_completeness auto
termination
  by (relation "measure (\<lambda>(H, ws). length ws)") auto

declare sha_blocks.simps [simp del]

definition Sum256 :: "string \<Rightarrow> string" where
  "Sum256 m = concat (map bytes_of_word (sha_blocks sha_H0 (words_of (sha_pad m))))"

section \<open>Hexadecimal\<close>

definition hex_digit :: "int \<Rightarrow> char" where
  "hex_digit n = (if n < 10 then char_of (48 + n) else char_of (87 + n))"

definition EncodeToString :: "string \<Rightarrow> string" where
  "EncodeToString s = concat (map (\<lambda>c. [hex_digit (of_char c div 16), hex_digit (of_char c mod 16)]) s)"

section \<open>Lengths and alphabets\<close>

lemma length_sha_round [simp]: "length (sha_round st kw) = length st"
  by (induction st kw rule: sha_round.induct) (auto simp: Let_def)

lemma length_sha_block: "length H = 8 \<Longrightarrow> length (sha_block H ws) = 8"
proof -
  have "length (foldl sha_round H kws) = length H" for kws
    by (induction kws arbitrary: H) auto
  then show "length H = 8 \<Longrightarrow> length (sha_block H ws) = 8" by (simp add: sha_block_def)
qed

lemma length_sha_blocks: "length H = 8 \<Longrightarrow> length (sha_blocks H ws) = 8"
proof (induction H ws rule: sha_blocks.induct)
  case (1 H ws)
  show ?case
  proof (cases "ws = []")
    case True
    with 1 show ?thesis by (subst sha_blocks.simps) simp
  next
    case False
    with 1 show ?thesis by (subst sha_blocks.simps) (simp add: length_sha_block)
  qed
qed

lemma length_Sum256 [simp]: "length (Sum256 m) = 32"
proof -
  have "length (concat (map bytes_of_word ws)) = 4 * length ws" for ws
    by (induction ws) (auto simp: bytes_of_word_def Let_def)
  then show ?thesis by (simp add: Sum256_def length_sha_blocks length_sha_H0)
qed

lemma length_EncodeToString [simp]: "length (EncodeToString s) = 2 * length s"
  by (induction s) (auto simp: EncodeToString_def)

definition is_hex :: "char \<Rightarrow> bool" where
  "is_hex c \<longleftrightarrow> c \<in> set ''0123456789abcdef''"

lemma hex_digit_hex: "0 \<le> n \<Longrightarrow> n < 16 \<Longrightarrow> is_hex (hex_digit n)"
proof -
  assume "0 \<le> n" "n < 16"
  then have "n \<in> set [0..15]" by simp
  moreover have "list_all (\<lambda>n. is_hex (hex_digit n)) [0..15]" by code_simp
  ultimately show "is_hex (hex_digit n)" by (simp add: list_all_iff)
qed

lemma EncodeToString_hex: "list_all is_hex (EncodeToString s)"
proof -
  have "is_hex (hex_digit (of_char c div 16)) \<and> is_hex (hex_digit (of_char c mod 16))" for c :: char
  proof -
    have "0 \<le> (of_char c :: int)" "(of_char c :: int) < 256"
      using pos_mod_bound [of 256 "of_char c :: int"] pos_mod_sign [of 256 "of_char c :: int"]
      by simp_all
    then show ?thesis by (auto intro!: hex_digit_hex)
  qed
  then show ?thesis by (induction s) (auto simp: EncodeToString_def)
qed

end
