(* ===== verification/GoJson.thy ===== *)
theory GoJson
  imports GoHash "HOL-Library.Char_ord" "HOL-Library.List_Lexorder"
begin

text \<open>
  What the gateway uses of \<open>encoding/json\<close>: the scanner (a pushdown automaton over the bytes,
  as in the package), unquoting and quoting of strings with Go's treatment of UTF-8, and the
  compact printing of \<open>json.Marshal\<close>. A value keeps its literals and the raw text of its
  strings, so that it stands for a \<open>json.RawMessage\<close> up to the white space between tokens,
  which \<open>json.Marshal\<close> removes.
\<close>

abbreviation byte :: "char \<Rightarrow> int" where "byte c \<equiv> of_char c"

abbreviation dquote :: char where "dquote \<equiv> CHR 0x22"
abbreviation backslash :: char where "backslash \<equiv> CHR 0x5C"

section \<open>UTF-8\<close>

definition inRange :: "int \<Rightarrow> int \<Rightarrow> char \<Rightarrow> bool" where
  "inRange lo hi c \<longleftrightarrow> lo \<le> byte c \<and> byte c \<le> hi"

text \<open>The length of the well-formed encoding at the head of a string, 0 when there is none.\<close>

definition rune_size :: "string \<Rightarrow> nat" where
  "rune_size s =
     (case s of
        [] \<Rightarrow> 0
      | c # t \<Rightarrow>
          if byte c < 0x80 then 1
          else if inRange 0xC2 0xDF c then
            (case t of d # _ \<Rightarrow> if inRange 0x80 0xBF d then 2 else 0 | _ \<Rightarrow> 0)
          else if inRange 0xE0 0xEF c then
            (case t of d # e # _ \<Rightarrow>
               if inRange (if byte c = 0xE0 then 0xA0 else 0x80) (if byte c = 0xED then 0x9F else 0xBF) d \<and>
                  inRange 0x80 0xBF e then 3 else 0
             | _ \<Rightarrow> 0)
          else if inRange 0xF0 0xF4 c then
            (case t of d # e # f # _ \<Rightarrow>
               if inRange (if byte c = 0xF0 then 0x90 else 0x80) (if byte c = 0xF4 then 0x8F else 0xBF) d \<and>
                  inRange 0x80 0xBF e \<and> inRange 0x80 0xBF f then 4 else 0
             | _ \<Rightarrow> 0)
          else 0)"

lemma rune_size_le: "rune_size s \<le> length s"
  by (auto simp: rune_size_def split: list.splits)

function valid_utf8 :: "string \<Rightarrow> bool" where
  "valid_utf8 s =
     (if s = [] then True else if rune_size s = 0 then False else valid_utf8 (drop (rune_size s) s))"
  by pat_completeness auto
termination
  by (relation "measure length") auto

declare valid_utf8.simps [simp del]

text \<open>\<open>utf8.EncodeRune\<close>.\<close>

definition EncodeRune :: "int \<Rightarrow> string" where
  "EncodeRune r =
     (if r < 0x80 then [char_of r]
      else if r < 0x800 then [char_of (0xC0 + r div 64), char_of (0x80 + r mod 64)]
      else if r < 0x10000 then
        [char_of (0xE0 + r div 4096), char_of (0x80 + r div 64 mod 64), char_of (0x80 + r mod 64)]
      else
        [char_of (0xF0 + r div 262144), char_of (0x80 + r div 4096 mod 64),
         char_of (0x80 + r div 64 mod 64), char_of (0x80 + r mod 64)])"

definition replacement :: string where "replacement = [CHR 0xEF, CHR 0xBF, CHR 0xBD]"

section \<open>Strings\<close>

definition hexval :: "char \<Rightarrow> int option" where
  "hexval c =
     (let n = byte c
      in if 48 \<le> n \<and> n \<le> 57 then Some (n - 48)
         else if 97 \<le> n \<and> n \<le> 102 then Some (n - 87)
         else if 65 \<le> n \<and> n \<le> 70 then Some (n - 55)
         else None)"

text \<open>\<open>getu4\<close>: the code of an escape \<open>\uXXXX\<close> at the head, -1 when there is none.\<close>

definition getu4 :: "string \<Rightarrow> int" where
  "getu4 s =
     (case s of
        b # u # h1 # h2 # h3 # h4 # _ \<Rightarrow>
          if b = backslash \<and> u = CHR ''u'' then
            (case (hexval h1, hexval h2, hexval h3, hexval h4) of
               (Some a, Some b, Some c, Some d) \<Rightarrow> 4096 * a + 256 * b + 16 * c + d
             | _ \<Rightarrow> -1)
          else -1
      | _ \<Rightarrow> -1)"

definition isSurrogate :: "int \<Rightarrow> bool" where
  "isSurrogate r \<longleftrightarrow> 0xD800 \<le> r \<and> r < 0xE000"

text \<open>A valid pair of surrogates.\<close>

definition isPair :: "int \<Rightarrow> int \<Rightarrow> bool" where
  "isPair r1 r2 \<longleftrightarrow> 0xD800 \<le> r1 \<and> r1 < 0xDC00 \<and> 0xDC00 \<le> r2 \<and> r2 < 0xE000"

definition simpleEscape :: "char \<Rightarrow> char option" where
  "simpleEscape c =
     map_of [(dquote, dquote), (backslash, backslash), (CHR ''/'', CHR ''/''), (CHR ''b'', CHR 0x08),
             (CHR ''f'', CHR 0x0C), (CHR ''n'', CHR 0x0A), (CHR ''r'', CHR 0x0D), (CHR ''t'', CHR 0x09)] c"

text \<open>
  \<open>unquote\<close> on the text between the quotes: what one step consumes and produces, then the loop.
  \<open>None\<close> is Go's \<open>ok = false\<close>.
\<close>

definition unquote1 :: "string \<Rightarrow> (nat \<times> string) option" where
  "unquote1 s =
     (let c = hd s
      in if c = backslash then
           (case tl s of
              [] \<Rightarrow> None
            | u # _ \<Rightarrow>
                if u = CHR ''u'' then
                  (let r = getu4 s
                   in if r < 0 then None
                      else if isSurrogate r then
                        (let r' = getu4 (drop 6 s)
                         in if isPair r r'
                            then Some (12, EncodeRune ((r - 0xD800) * 1024 + (r' - 0xDC00) + 0x10000))
                            else Some (6, replacement))
                      else Some (6, EncodeRune r))
                else map_option (\<lambda>e. (2, [e])) (simpleEscape u))
         else if c = dquote \<or> byte c < 0x20 then None
         else if rune_size s = 0 then Some (1, replacement)
         else Some (rune_size s, take (rune_size s) s))"

function unquote :: "string \<Rightarrow> string option" where
  "unquote s =
     (if s = [] then Some []
      else case unquote1 s of
        None \<Rightarrow> None
      | Some (n, out) \<Rightarrow> map_option (\<lambda>t. out @ t) (unquote (drop (max 1 n) s)))"
  by pat_completeness auto
termination
  by (relation "measure length") auto

declare unquote.simps [simp del]

text \<open>\<open>appendString\<close> with HTML escaping: the text between the quotes.\<close>

definition hexEscape :: "char \<Rightarrow> string" where
  "hexEscape c = [backslash] @ ''u00'' @ [hex_digit (byte c div 16), hex_digit (byte c mod 16)]"

definition lineSep :: "string \<Rightarrow> bool" where
  "lineSep s \<longleftrightarrow> take 2 s = [CHR 0xE2, CHR 0x80] \<and> (take 1 (drop 2 s) = [CHR 0xA8] \<or> take 1 (drop 2 s) = [CHR 0xA9])"

definition lineSepEscape :: "string \<Rightarrow> string" where
  "lineSepEscape s = [backslash] @ ''u202'' @ [hex_digit (byte (s ! 2) mod 16)]"

definition quote1 :: "string \<Rightarrow> nat \<times> string" where
  "quote1 s =
     (let c = hd s
      in if byte c < 0x80 then
           (1, if c = dquote \<or> c = backslash then [backslash, c]
               else if c = CHR 0x08 then [backslash, CHR ''b'']
               else if c = CHR 0x0C then [backslash, CHR ''f'']
               else if c = CHR 0x0A then [backslash, CHR ''n'']
               else if c = CHR 0x0D then [backslash, CHR ''r'']
               else if c = CHR 0x09 then [backslash, CHR ''t'']
               else if byte c < 0x20 \<or> c \<in> set ''<>&'' then hexEscape c
               else [c])
         else if rune_size s = 0 then (1, [backslash] @ ''ufffd'')
         else if lineSep s then (3, lineSepEscape s)
         else (rune_size s, take (rune_size s) s))"

function appendString :: "string \<Rightarrow> string" where
  "appendString s =
     (if s = [] then []
      else case quote1 s of (n, out) \<Rightarrow> out @ appendString (drop (max 1 n) s))"
  by pat_completeness auto
termination
  by (relation "measure length") auto

declare appendString.simps [simp del]

text \<open>What \<open>compact\<close> does to the bytes of a string.\<close>

fun htmlEscape :: "string \<Rightarrow> string" where
  "htmlEscape (c # d # e # s) =
     (if c \<in> set ''<>&'' then hexEscape c @ htmlEscape (d # e # s)
      else if lineSep [c, d, e] then lineSepEscape [c, d, e] @ htmlEscape s
      else c # htmlEscape (d # e # s))"
| "htmlEscape [c, d] =
     (if c \<in> set ''<>&'' then hexEscape c else [c]) @ (if d \<in> set ''<>&'' then hexEscape d else [d])"
| "htmlEscape [c] = (if c \<in> set ''<>&'' then hexEscape c else [c])"
| "htmlEscape [] = []"

section \<open>Round trip of strings\<close>

lemma unquote_Nil [simp]: "unquote [] = Some []"
  by (simp add: unquote.simps)

lemma appendString_Nil [simp]: "appendString [] = []"
  by (simp add: appendString.simps)

lemma hexval_hex_digit: "0 \<le> n \<Longrightarrow> n < 16 \<Longrightarrow> hexval (hex_digit n) = Some n"
proof -
  assume "0 \<le> n" "n < 16"
  moreover have "list_all (\<lambda>n. hexval (hex_digit n) = Some n) [0..15]" by code_simp
  ultimately show ?thesis by (simp add: list_all_iff)
qed

lemma unquote_step:
  assumes "unquote1 (w @ s) = Some (length w, out)" and "w \<noteq> []"
  shows "unquote (w @ s) = map_option (\<lambda>t. out @ t) (unquote s)"
proof -
  have "max 1 (length w) = length w" using assms(2) by (cases w) auto
  with assms show ?thesis by (subst unquote.simps) simp
qed

lemma byte_range: "0 \<le> byte c" "byte c < 256"
  using pos_mod_bound [of 256 "byte c"] pos_mod_sign [of 256 "byte c"] by simp_all

lemma byte_div16: "0 \<le> byte c div 16" "byte c div 16 < 16" "0 \<le> byte c mod 16" "byte c mod 16 < 16"
  using byte_range [of c] by auto

lemma unquote_hexEscape:
  assumes "byte c < 0x80"
  shows "unquote (hexEscape c @ s) = map_option (\<lambda>t. [c] @ t) (unquote s)"
proof (rule unquote_step)
  have "hexval (CHR ''0'') = Some 0" by code_simp
  then have "getu4 (hexEscape c @ s) = byte c"
    using byte_div16 [of c] by (simp add: getu4_def hexEscape_def hexval_hex_digit)
  with assms byte_range [of c] show "unquote1 (hexEscape c @ s) = Some (length (hexEscape c), [c])"
    by (simp add: unquote1_def hexEscape_def isSurrogate_def EncodeRune_def)
qed (simp add: hexEscape_def)

lemma unquote_simpleEscape:
  "simpleEscape u = Some c \<Longrightarrow> unquote ([backslash, u] @ s) = map_option (\<lambda>t. [c] @ t) (unquote s)"
  by (rule unquote_step) (auto simp: unquote1_def simpleEscape_def split: if_splits)

lemma unquote_plain:
  "byte c < 0x80 \<Longrightarrow> 0x20 \<le> byte c \<Longrightarrow> c \<noteq> dquote \<Longrightarrow> c \<noteq> backslash \<Longrightarrow>
   unquote ([c] @ s) = map_option (\<lambda>t. [c] @ t) (unquote s)"
  by (rule unquote_step) (auto simp: unquote1_def rune_size_def)

lemma rune_size_single: "byte c < 0x80 \<Longrightarrow> rune_size (c # s) = 1"
  by (simp add: rune_size_def)

abbreviation cont :: "char \<Rightarrow> bool" where "cont c \<equiv> inRange 0x80 0xBF c"

lemma inRange_mono: "inRange lo hi c \<Longrightarrow> lo' \<le> lo \<Longrightarrow> hi \<le> hi' \<Longrightarrow> inRange lo' hi' c"
  by (simp add: inRange_def)

lemma rune_size_cases:
  assumes "rune_size s \<noteq> 0"
  obtains (1) c t where "s = c # t" "rune_size s = 1" "byte c < 0x80"
  | (2) c d t where "s = c # d # t" "rune_size s = 2" "inRange 0xC2 0xDF c" "cont d"
  | (3) c d e t where "s = c # d # e # t" "rune_size s = 3" "inRange 0xE0 0xEF c" "cont d" "cont e"
  | (4) c d e f t where "s = c # d # e # f # t" "rune_size s = 4" "inRange 0xF0 0xF4 c" "cont d" "cont e" "cont f"
proof -
  obtain c t where s: "s = c # t" using assms by (cases s) (auto simp: rune_size_def)
  consider "byte c < 0x80" | "\<not> byte c < 0x80" "inRange 0xC2 0xDF c"
    | "\<not> byte c < 0x80" "\<not> inRange 0xC2 0xDF c" "inRange 0xE0 0xEF c"
    | "\<not> byte c < 0x80" "\<not> inRange 0xC2 0xDF c" "\<not> inRange 0xE0 0xEF c" by blast
  then show ?thesis
  proof cases
    case 1
    then show ?thesis using that(1) s by (simp add: rune_size_single)
  next
    case 2
    with assms s show ?thesis using that(2)
      by (simp add: rune_size_def split: list.splits if_splits)
  next
    case 3
    obtain d e u where t: "t = d # e # u"
      using assms 3 by (auto simp: s rune_size_def split: list.splits if_splits)
    have d: "inRange (if byte c = 0xE0 then 0xA0 else 0x80) (if byte c = 0xED then 0x9F else 0xBF) d"
      and e: "cont e" and n: "rune_size s = 3"
      using assms 3 by (simp_all add: s t rune_size_def split: if_splits)
    have "cont d" by (rule inRange_mono [OF d]) simp_all
    from that(3) [OF _ n 3(3) this e] show ?thesis by (simp add: s t)
  next
    case 4
    have r: "inRange 0xF0 0xF4 c" using assms 4 by (simp add: s rune_size_def split: if_splits)
    obtain d e f u where t: "t = d # e # f # u"
      using assms 4 r by (auto simp: s rune_size_def split: list.splits if_splits)
    have d: "inRange (if byte c = 0xF0 then 0x90 else 0x80) (if byte c = 0xF4 then 0x8F else 0xBF) d"
      and ef: "cont e" "cont f" and n: "rune_size s = 4"
      using assms 4 r by (simp_all add: s t rune_size_def split: if_splits)
    have "cont d" by (rule inRange_mono [OF d]) simp_all
    from that(4) [OF _ n r this ef] show ?thesis by (simp add: s t)
  qed
qed

lemma rune_size_app:
  "rune_size [c, d] = 2 \<Longrightarrow> rune_size (c # d # r) = 2"
  "rune_size (c # d # t) = 2 \<Longrightarrow> rune_size [c, d] = 2"
  "rune_size [c, d, e] = 3 \<Longrightarrow> rune_size (c # d # e # r) = 3"
  "rune_size (c # d # e # t) = 3 \<Longrightarrow> rune_size [c, d, e] = 3"
  "rune_size [c, d, e, f] = 4 \<Longrightarrow> rune_size (c # d # e # f # r) = 4"
  "rune_size (c # d # e # f # t) = 4 \<Longrightarrow> rune_size [c, d, e, f] = 4"
  by (simp_all add: rune_size_def split: if_splits list.splits)

lemma rune_size_take:
  assumes "rune_size s = n" and "n \<noteq> 0"
  shows "rune_size (take n s @ r) = n"
proof -
  from assms have "rune_size s \<noteq> 0" by simp
  then show ?thesis
  proof (cases s rule: rune_size_cases)
    case (1 c t)
    with assms show ?thesis by (auto simp: rune_size_single)
  next
    case (2 c d t)
    then have "rune_size [c, d] = 2" using rune_size_app(2) by metis
    from rune_size_app(1) [OF this] 2 assms show ?thesis by (auto simp: eval_nat_numeral)
  next
    case (3 c d e t)
    then have "rune_size [c, d, e] = 3" using rune_size_app(4) by metis
    from rune_size_app(3) [OF this] 3 assms show ?thesis by (auto simp: eval_nat_numeral)
  next
    case (4 c d e f t)
    then have "rune_size [c, d, e, f] = 4" using rune_size_app(6) by metis
    from rune_size_app(5) [OF this] 4 assms show ?thesis by (auto simp: eval_nat_numeral)
  qed
qed

lemma unquote_rune:
  assumes "rune_size s = n" "n \<noteq> 0" "\<not> byte (hd s) < 0x80"
  shows "unquote (take n s @ r) = map_option (\<lambda>t. take n s @ t) (unquote r)"
proof (rule unquote_step)
  have "s \<noteq> []" using assms by (auto simp: rune_size_def)
  moreover have "byte backslash < 0x80" "byte dquote < 0x80" by code_simp+
  moreover have "hd (take n s @ r) = hd s" using assms(2) \<open>s \<noteq> []\<close> by (cases s; cases n) auto
  moreover have "length (take n s) = n" using rune_size_le [of s] assms(1) by simp
  moreover have "hd s \<noteq> backslash" "hd s \<noteq> dquote" "\<not> byte (hd s) < 0x20"
    using assms(3) calculation(2,3) by auto
  ultimately show "unquote1 (take n s @ r) = Some (length (take n s), take n s)"
    using assms(2) rune_size_take [OF assms(1,2)] by (simp add: unquote1_def Let_def)
  show "take n s \<noteq> []" using \<open>s \<noteq> []\<close> assms(2) by simp
qed

lemma unquote_lineSep:
  assumes "lineSep s"
  shows "unquote (lineSepEscape s @ r) = map_option (\<lambda>t. take 3 s @ t) (unquote r)"
proof (rule unquote_step)
  obtain c rest where s: "s = CHR 0xE2 # CHR 0x80 # c # rest" "c = CHR 0xA8 \<or> c = CHR 0xA9"
    using assms unfolding lineSep_def
    by (cases s; cases "tl s"; cases "tl (tl s)") auto
  have r: "getu4 (lineSepEscape s @ r) = (if c = CHR 0xA8 then 0x2028 else 0x2029)"
    using s(2) by (auto simp: lineSepEscape_def s(1) getu4_def hexval_def hex_digit_def Let_def)
  have "EncodeRune 0x2028 = [CHR 0xE2, CHR 0x80, CHR 0xA8]" "EncodeRune 0x2029 = [CHR 0xE2, CHR 0x80, CHR 0xA9]"
    by code_simp+
  with s(2) r have "EncodeRune (getu4 (lineSepEscape s @ r)) = take 3 s"
    by (auto simp: s(1))
  moreover have "\<not> isSurrogate (getu4 (lineSepEscape s @ r))" "\<not> getu4 (lineSepEscape s @ r) < 0"
    using r by (auto simp: isSurrogate_def)
  ultimately show "unquote1 (lineSepEscape s @ r) = Some (length (lineSepEscape s), take 3 s)"
    unfolding unquote1_def Let_def by (simp add: lineSepEscape_def)
qed (simp add: lineSepEscape_def)

lemma unquote_quote1:
  assumes "rune_size s \<noteq> 0" and "quote1 s = (n, out)"
  shows "n = rune_size s \<and> unquote (out @ r) = map_option (\<lambda>t. take n s @ t) (unquote r)"
proof (cases "byte (hd s) < 0x80")
  case False
  show ?thesis
  proof (cases "lineSep s")
    case True
    then have "rune_size s = 3"
      by (cases s; cases "tl s"; cases "tl (tl s)") (auto simp: lineSep_def rune_size_def inRange_def)
    with True False assms unquote_lineSep show ?thesis by (auto simp: quote1_def)
  next
    case False': False
    with False assms unquote_rune [of s "rune_size s" r] show ?thesis by (auto simp: quote1_def)
  qed
next
  case True
  obtain c t where s: "s = c # t" using assms by (cases s) (auto simp: rune_size_def)
  have e: "simpleEscape dquote = Some dquote" "simpleEscape backslash = Some backslash"
    "simpleEscape (CHR ''b'') = Some (CHR 0x08)" "simpleEscape (CHR ''f'') = Some (CHR 0x0C)"
    "simpleEscape (CHR ''n'') = Some (CHR 0x0A)" "simpleEscape (CHR ''r'') = Some (CHR 0x0D)"
    "simpleEscape (CHR ''t'') = Some (CHR 0x09)" by code_simp+
  have "n = 1" "take 1 s = [c]" "rune_size s = 1"
    using assms True by (auto simp: quote1_def s rune_size_def)
  moreover have "unquote (out @ r) = map_option (\<lambda>t. [c] @ t) (unquote r)"
    using assms(2) True unquote_simpleEscape [OF e(1)] unquote_simpleEscape [OF e(2)]
      unquote_simpleEscape [OF e(3)] unquote_simpleEscape [OF e(4)] unquote_simpleEscape [OF e(5)]
      unquote_simpleEscape [OF e(6)] unquote_simpleEscape [OF e(7)] unquote_hexEscape [of c r] unquote_plain [of c r]
    by (auto simp: quote1_def s split: if_splits)
  ultimately show ?thesis by simp
qed

lemma unquote_appendString: "valid_utf8 s \<Longrightarrow> unquote (appendString s) = Some s"
proof (induction s rule: appendString.induct)
  case (1 s)
  show ?case
  proof (cases "s = []")
    case False
    obtain n out where q: "quote1 s = (n, out)" by (cases "quote1 s")
    have r: "rune_size s \<noteq> 0" "valid_utf8 (drop (rune_size s) s)"
      using "1.prems" False by (auto simp: valid_utf8.simps [of s] split: if_splits)
    then have n: "n = rune_size s" "max 1 n = n" "unquote (out @ x) = map_option (\<lambda>t. take n s @ t) (unquote x)" for x
      using unquote_quote1 [OF _ q] by auto
    have "appendString s = out @ appendString (drop n s)"
      using False q n by (subst appendString.simps) simp
    moreover have "unquote (appendString (drop n s)) = Some (drop n s)"
      using "1.IH" [OF False q [symmetric]] r n by simp
    ultimately show ?thesis using n(3) by simp
  qed simp
qed

text \<open>A string that is one encoding, whatever follows it.\<close>

definition isRune :: "string \<Rightarrow> bool" where
  "isRune w \<longleftrightarrow> w \<noteq> [] \<and> rune_size w = length w"

lemma rune_size_isRune: "isRune w \<Longrightarrow> rune_size (w @ x) = length w"
  using rune_size_take [of w "length w" x] by (simp add: isRune_def)

lemma isRune_take: "rune_size s \<noteq> 0 \<Longrightarrow> isRune (take (rune_size s) s)"
  using rune_size_take [of s "rune_size s" "[]"] rune_size_le [of s]
  by (auto simp: isRune_def)

lemma valid_utf8_isRune: "isRune w \<Longrightarrow> valid_utf8 t \<Longrightarrow> valid_utf8 (w @ t)"
  using rune_size_isRune [of w t] by (subst valid_utf8.simps) (simp add: isRune_def)

lemma valid_utf8_Nil [simp]: "valid_utf8 []"
  by (simp add: valid_utf8.simps)

lemma byte_char_of: "0 \<le> x \<Longrightarrow> x < 256 \<Longrightarrow> byte (char_of x) = x"
  by simp

lemma base64_digits:
  "r = 4096 * (r div 4096) + 64 * (r div 64 mod 64) + r mod 64"
  "r div 4096 = 64 * (r div 262144) + r div 4096 mod 64" for r :: int
proof -
  have "r div 64 div 64 = r div 4096" "r div 4096 div 64 = r div 262144"
    using zdiv_zmult2_eq [of 64 r 64] zdiv_zmult2_eq [of 64 r 4096] by simp_all
  moreover have "r = 64 * (r div 64) + r mod 64" by simp
  moreover have "r div 64 = 64 * (r div 64 div 64) + r div 64 mod 64" by simp
  moreover have "r div 4096 = 64 * (r div 4096 div 64) + r div 4096 mod 64" by simp
  ultimately show "r = 4096 * (r div 4096) + 64 * (r div 64 mod 64) + r mod 64"
    "r div 4096 = 64 * (r div 262144) + r div 4096 mod 64" by linarith+
qed

lemma isRune_EncodeRune:
  assumes "0 \<le> r" "r < 0x110000" "\<not> isSurrogate r"
  shows "isRune (EncodeRune r)"
proof -
  consider "r < 0x80" | "0x80 \<le> r" "r < 0x800" | "0x800 \<le> r" "r < 0x10000" | "0x10000 \<le> r" by linarith
  then show ?thesis
  proof cases
    case 1
    with assms show ?thesis by (simp add: EncodeRune_def isRune_def rune_size_def)
  next
    case 2
    then have "2 \<le> r div 64" "r div 64 < 32" by linarith+
    with 2 show ?thesis
      by (simp add: EncodeRune_def isRune_def rune_size_def inRange_def byte_char_of)
  next
    case 3
    define a b c where "a = r div 4096" and "b = r div 64 mod 64" and "c = r mod 64"
    have r: "r = 4096 * a + 64 * b + c"
      unfolding a_def b_def c_def by (rule base64_digits(1))
    have abc: "0 \<le> a" "a < 16" "0 \<le> b" "b < 64" "0 \<le> c" "c < 64"
      using 3 by (auto simp: a_def b_def c_def)
    have "a = 0 \<longrightarrow> 32 \<le> b" "a = 13 \<longrightarrow> b \<le> 31"
      using r abc 3 assms(3) by (auto simp: isSurrogate_def)
    with abc 3 show ?thesis
      by (simp add: EncodeRune_def isRune_def rune_size_def inRange_def byte_char_of flip: a_def b_def c_def)
  next
    case 4
    define a b c d where "a = r div 262144" and "b = r div 4096 mod 64" and "c = r div 64 mod 64" and "d = r mod 64"
    have r: "r div 4096 = 64 * a + b"
      unfolding a_def b_def by (rule base64_digits(2))
    have abc: "0 \<le> a" "a < 5" "0 \<le> b" "b < 64" "0 \<le> c" "c < 64" "0 \<le> d" "d < 64"
      using 4 assms by (auto simp: a_def b_def c_def d_def)
    have "16 \<le> r div 4096" "r div 4096 < 272" using 4 assms by auto
    with r abc have "a = 0 \<longrightarrow> 16 \<le> b" "a = 4 \<longrightarrow> b \<le> 15" by auto
    with abc 4 show ?thesis
      by (simp add: EncodeRune_def isRune_def rune_size_def inRange_def byte_char_of flip: a_def b_def c_def d_def)
  qed
qed

end
