(* ===== verification/JsonScan.thy ===== *)
theory JsonScan
  imports GoJson
begin

text \<open>
  The scanner of \<open>encoding/json\<close> with the values it delimits, the compact printer, and the proof
  that scanning what was printed gives the value back.
\<close>

section \<open>Values\<close>

text \<open>
  \<open>JLit\<close>: \<open>true\<close>, \<open>false\<close>, \<open>null\<close> or a number, with its text. \<open>JStr\<close> and the keys of \<open>JObj\<close> hold
  the text between the quotes, escapes included.
\<close>

datatype jv = JLit string | JStr string | JArr "jv list" | JObj "(string \<times> jv) list"

definition digits1 :: "string \<Rightarrow> bool" where
  "digits1 s \<longleftrightarrow> s \<noteq> [] \<and> list_all is_digit s"

text \<open>The grammar of numbers: sign, integer part without leading zero, fraction, exponent.\<close>

definition validExp :: "string \<Rightarrow> bool" where
  "validExp s =
     (case s of
        [] \<Rightarrow> True
      | c # t \<Rightarrow> c \<in> set ''eE'' \<and> (case t of d # u \<Rightarrow> digits1 (if d \<in> set ''+-'' then u else t) | [] \<Rightarrow> False))"

definition validFrac :: "string \<Rightarrow> bool" where
  "validFrac s =
     (case s of
        [] \<Rightarrow> True
      | c # t \<Rightarrow>
          if c = CHR ''.'' then takeWhile is_digit t \<noteq> [] \<and> validExp (dropWhile is_digit t)
          else validExp s)"

definition validNumber :: "string \<Rightarrow> bool" where
  "validNumber s =
     (let s = (case s of c # t \<Rightarrow> if c = CHR ''-'' then t else s | [] \<Rightarrow> [])
      in case s of
           [] \<Rightarrow> False
         | c # t \<Rightarrow>
             if c = CHR ''0'' then validFrac t
             else is_digit c \<and> validFrac (dropWhile is_digit t))"

definition isLiteral :: "string \<Rightarrow> bool" where
  "isLiteral t \<longleftrightarrow> t \<in> {''true'', ''false'', ''null''} \<or> validNumber t"

section \<open>The scanner\<close>

text \<open>Inside a string: after a backslash, or in the hexadecimal digits of an escape.\<close>

datatype smode = SPlain | SEsc | SHex nat

fun sstep :: "smode \<Rightarrow> char \<Rightarrow> smode option" where
  "sstep SPlain c =
     (if c = backslash then Some SEsc
      else if c = dquote \<or> byte c < 0x20 then None
      else Some SPlain)"
| "sstep SEsc c =
     (if c = CHR ''u'' then Some (SHex 4)
      else if simpleEscape c \<noteq> None then Some SPlain
      else None)"
| "sstep (SHex n) c =
     (if hexval c = None then None else if n = 1 then Some SPlain else Some (SHex (n - 1)))"

fun sscan :: "smode \<Rightarrow> string \<Rightarrow> smode option" where
  "sscan m [] = Some m"
| "sscan m (c # s) = (case sstep m c of None \<Rightarrow> None | Some m' \<Rightarrow> sscan m' s)"

text \<open>
  The parse stack: an array with its elements so far, an object with its members so far, an
  object whose next key was read; the newest first.
\<close>

datatype frame = FArr "jv list" | FObj "(string \<times> jv) list" | FKey "(string \<times> jv) list" string

datatype jmode =
    MValue | MArr0 | MObj0 | MKey | MColon | MAfter
  | MStr bool smode string  \<comment> \<open>is it a key; text so far, reversed\<close>
  | MLit string             \<comment> \<open>text so far, reversed\<close>
  | MDone jv

type_synonym jstate = "jmode \<times> frame list"

definition json_space :: "char \<Rightarrow> bool" where
  "json_space c \<longleftrightarrow> c \<in> set [CHR '' '', CHR 0x09, CHR 0x0A, CHR 0x0D]"

definition lit_char :: "char \<Rightarrow> bool" where
  "lit_char c \<longleftrightarrow>
     is_digit c \<or> (65 \<le> byte c \<and> byte c \<le> 90) \<or> (97 \<le> byte c \<and> byte c \<le> 122) \<or> c \<in> set ''+-.''"

fun complete :: "jv \<Rightarrow> frame list \<Rightarrow> jstate option" where
  "complete v [] = Some (MDone v, [])"
| "complete v (FArr vs # fs) = Some (MAfter, FArr (v # vs) # fs)"
| "complete v (FKey ms k # fs) = Some (MAfter, FObj ((k, v) # ms) # fs)"
| "complete v (FObj ms # fs) = None"

text \<open>The nesting is limited to 10000.\<close>

definition push :: "jmode \<Rightarrow> frame \<Rightarrow> frame list \<Rightarrow> jstate option" where
  "push m f fs = (if int (length fs) < 10000 then Some (m, f # fs) else None)"

definition beginValue :: "char \<Rightarrow> frame list \<Rightarrow> jstate option" where
  "beginValue c fs =
     (if c = CHR ''{'' then push MObj0 (FObj []) fs
      else if c = CHR ''['' then push MArr0 (FArr []) fs
      else if c = dquote then Some (MStr False SPlain [], fs)
      else if lit_char c then Some (MLit [c], fs)
      else None)"

fun afterValue :: "jstate \<Rightarrow> char \<Rightarrow> jstate option" where
  "afterValue (MDone v, fs) c = (if json_space c then Some (MDone v, fs) else None)"
| "afterValue (m, FArr vs # fs) c =
     (if json_space c then Some (m, FArr vs # fs)
      else if c = CHR '','' then Some (MValue, FArr vs # fs)
      else if c = CHR '']'' then complete (JArr (rev vs)) fs
      else None)"
| "afterValue (m, FObj ms # fs) c =
     (if json_space c then Some (m, FObj ms # fs)
      else if c = CHR '','' then Some (MKey, FObj ms # fs)
      else if c = CHR ''}'' then complete (JObj (rev ms)) fs
      else None)"
| "afterValue (m, fs) c = None"

fun endString :: "bool \<Rightarrow> string \<Rightarrow> frame list \<Rightarrow> jstate option" where
  "endString False t fs = complete (JStr t) fs"
| "endString True t (FObj ms # fs) = Some (MColon, FKey ms t # fs)"
| "endString True t fs = None"

fun jstep :: "jstate \<Rightarrow> char \<Rightarrow> jstate option" where
  "jstep (MValue, fs) c = (if json_space c then Some (MValue, fs) else beginValue c fs)"
| "jstep (MArr0, fs) c =
     (if json_space c then Some (MArr0, fs)
      else if c = CHR '']'' then afterValue (MAfter, fs) c
      else beginValue c fs)"
| "jstep (MObj0, fs) c =
     (if json_space c then Some (MObj0, fs)
      else if c = CHR ''}'' then afterValue (MAfter, fs) c
      else if c = dquote then Some (MStr True SPlain [], fs)
      else None)"
| "jstep (MKey, fs) c =
     (if json_space c then Some (MKey, fs)
      else if c = dquote then Some (MStr True SPlain [], fs)
      else None)"
| "jstep (MColon, fs) c =
     (if json_space c then Some (MColon, fs) else if c = CHR '':'' then Some (MValue, fs) else None)"
| "jstep (MStr key m acc, fs) c =
     (if m = SPlain \<and> c = dquote then endString key (rev acc) fs
      else (case sstep m c of None \<Rightarrow> None | Some m' \<Rightarrow> Some (MStr key m' (c # acc), fs)))"
| "jstep (MLit acc, fs) c =
     (if lit_char c then Some (MLit (c # acc), fs)
      else if isLiteral (rev acc) then
        (case complete (JLit (rev acc)) fs of None \<Rightarrow> None | Some st \<Rightarrow> afterValue st c)
      else None)"
| "jstep st c = afterValue st c"

fun jrun :: "jstate \<Rightarrow> string \<Rightarrow> jstate option" where
  "jrun st [] = Some st"
| "jrun st (c # s) = (case jstep st c of None \<Rightarrow> None | Some st' \<Rightarrow> jrun st' s)"

definition parseJSON :: "string \<Rightarrow> jv option" where
  "parseJSON s =
     (case jrun (MValue, []) s of
        Some (MDone v, []) \<Rightarrow> Some v
      | Some (MLit acc, []) \<Rightarrow> if isLiteral (rev acc) then Some (JLit (rev acc)) else None
      | _ \<Rightarrow> None)"

section \<open>The compact printer\<close>

definition inQuotes :: "string \<Rightarrow> string" where
  "inQuotes s = [dquote] @ s @ [dquote]"

fun jprint :: "jv \<Rightarrow> string" where
  "jprint (JLit t) = t"
| "jprint (JStr r) = inQuotes (htmlEscape r)"
| "jprint (JArr vs) = ''['' @ Join (map jprint vs) '','' @ '']''"
| "jprint (JObj ms) = ''{'' @ Join (map (\<lambda>m. inQuotes (htmlEscape (fst m)) @ '':'' @ jprint (snd m)) ms) '','' @ ''}''"

text \<open>The value with the text of its strings as printed.\<close>

fun jesc :: "jv \<Rightarrow> jv" where
  "jesc (JLit t) = JLit t"
| "jesc (JStr r) = JStr (htmlEscape r)"
| "jesc (JArr vs) = JArr (map jesc vs)"
| "jesc (JObj ms) = JObj (map (\<lambda>m. (htmlEscape (fst m), jesc (snd m))) ms)"

text \<open>Well-formed values nested at most \<open>n\<close> deep: what the scanner can return.\<close>

fun wfv :: "nat \<Rightarrow> jv \<Rightarrow> bool" where
  "wfv n (JLit t) \<longleftrightarrow> isLiteral t \<and> list_all lit_char t"
| "wfv n (JStr r) \<longleftrightarrow> sscan SPlain r = Some SPlain"
| "wfv n (JArr vs) \<longleftrightarrow> 0 < n \<and> (\<forall>v \<in> set vs. wfv (n - 1) v)"
| "wfv n (JObj ms) \<longleftrightarrow> 0 < n \<and> (\<forall>m \<in> set ms. sscan SPlain (fst m) = Some SPlain \<and> wfv (n - 1) (snd m))"

section \<open>Scanning what was printed\<close>

lemma jrun_append: "jrun st (a @ b) = (case jrun st a of None \<Rightarrow> None | Some st' \<Rightarrow> jrun st' b)"
  by (induction st a rule: jrun.induct) (auto split: option.splits)

lemma sscan_append: "sscan m (a @ b) = (case sscan m a of None \<Rightarrow> None | Some m' \<Rightarrow> sscan m' b)"
  by (induction m a rule: sscan.induct) (auto split: option.splits)

lemma jrun_string:
  "sscan m b = Some m' \<Longrightarrow> jrun (MStr key m acc, fs) (b @ r) = jrun (MStr key m' (rev b @ acc), fs) r"
proof (induction b arbitrary: m acc)
  case (Cons c b)
  then obtain m1 where m1: "sstep m c = Some m1" "sscan m1 b = Some m'" by (auto split: option.splits)
  then have "\<not> (m = SPlain \<and> c = dquote)" by auto
  with m1 Cons.IH [OF m1(2)] show ?case by auto
qed simp

lemma jrun_quoted:
  assumes "sscan SPlain b = Some SPlain"
  shows "jrun (MStr key SPlain [], fs) (b @ [dquote] @ r) =
           (case endString key b fs of None \<Rightarrow> None | Some st \<Rightarrow> jrun st r)"
  using jrun_string [OF assms, of key "[]" fs "[dquote] @ r"] by simp

lemma hexEscape_scan: "sscan SPlain (hexEscape c) = Some SPlain"
proof -
  have "hexval (CHR ''0'') = Some 0" by code_simp
  then show ?thesis using byte_div16 [of c] by (simp add: hexEscape_def hexval_hex_digit)
qed

lemma lineSepEscape_scan: "sscan SPlain (lineSepEscape s) = Some SPlain"
proof -
  have "hexval (CHR ''2'') = Some 2" "hexval (CHR ''0'') = Some 0" by code_simp+
  then show ?thesis using byte_div16 [of "s ! 2"] by (simp add: lineSepEscape_def hexval_hex_digit)
qed

lemma markup_plain:
  assumes "c \<in> set ''<>&'' \<or> c = CHR 0xE2" and "sstep m c = Some m'"
  shows "m = SPlain" "m' = SPlain"
proof -
  have "list_all (\<lambda>c. simpleEscape c = None \<and> hexval c = None \<and> c \<noteq> CHR ''u'' \<and> c \<noteq> backslash) (''<>&'' @ [CHR 0xE2])"
    by code_simp
  with assms(1) have "simpleEscape c = None" "hexval c = None" "c \<noteq> CHR ''u''" "c \<noteq> backslash" by auto
  with assms(2) show "m = SPlain" "m' = SPlain" by (cases m; auto split: if_splits)+
qed

lemma escape1_scan:
  assumes "sstep m c = Some m'"
  shows "sscan m (if c \<in> set ''<>&'' then hexEscape c else [c]) = Some m'"
proof (cases "c \<in> set ''<>&''")
  case True
  then have "m = SPlain" "m' = SPlain" using markup_plain [OF _ assms] by auto
  with True hexEscape_scan [of c] show ?thesis by simp
next
  case False
  with assms show ?thesis by simp
qed

lemma htmlEscape_scan: "sscan m r = Some m' \<Longrightarrow> sscan m (htmlEscape r) = Some m'"
proof (induction r arbitrary: m rule: htmlEscape.induct)
  case (1 c d e s)
  obtain m1 where m1: "sstep m c = Some m1" "sscan m1 (d # e # s) = Some m'"
    using "1.prems" by (auto split: option.splits)
  consider (markup) "c \<in> set ''<>&''" | (sep) "c \<notin> set ''<>&''" "lineSep [c, d, e]"
    | (plain) "c \<notin> set ''<>&''" "\<not> lineSep [c, d, e]" by blast
  then show ?case
  proof cases
    case markup
    then have "m = SPlain" "m1 = SPlain" using markup_plain [OF _ m1(1)] by auto
    with markup m1 "1.IH"(1) [OF markup, of m1] hexEscape_scan [of c] show ?thesis
      by (simp add: sscan_append)
  next
    case sep
    then have c: "c = CHR 0xE2" "d = CHR 0x80" "e = CHR 0xA8 \<or> e = CHR 0xA9"
      by (auto simp: lineSep_def)
    then have "m = SPlain" "m1 = SPlain" using markup_plain [of c m m1] m1 by auto
    with m1 c have "sscan SPlain s = Some m'" by auto
    with sep "1.IH"(2) [of SPlain] lineSepEscape_scan [of "[c, d, e]"] \<open>m = SPlain\<close> show ?thesis
      by (simp add: sscan_append)
  next
    case plain
    with m1 "1.IH"(3) [of m1] show ?thesis by simp
  qed
next
  case (2 c d)
  obtain m1 where m1: "sstep m c = Some m1" "sscan m1 [d] = Some m'"
    using "2.prems" by (auto split: option.splits)
  with escape1_scan [OF m1(1)] have "sscan m ((if c \<in> set ''<>&'' then hexEscape c else [c]) @
      (if d \<in> set ''<>&'' then hexEscape d else [d])) = sscan m1 (if d \<in> set ''<>&'' then hexEscape d else [d])"
    by (simp only: sscan_append option.case)
  moreover have "sstep m1 d = Some m'" using m1(2) by (auto split: option.splits)
  ultimately show ?case using escape1_scan [of m1 d m'] by simp
next
  case (3 c)
  then have "sstep m c = Some m'" by (auto split: option.splits)
  then show ?case using escape1_scan [of m c m'] by simp
qed simp

lemma jrun_lit:
  "list_all lit_char t \<Longrightarrow> jrun (MLit acc, fs) (t @ r) = jrun (MLit (rev t @ acc), fs) r"
  by (induction t arbitrary: acc) auto

lemma lit_char_first:
  assumes "lit_char c"
  shows "\<not> json_space c" "c \<notin> set ''{}[],:''" "c \<noteq> dquote"
proof -
  have "list_all (\<lambda>c. \<not> lit_char c) ([CHR '' '', CHR 0x09, CHR 0x0A, CHR 0x0D, dquote] @ ''{}[],:'')" by code_simp
  with assms show "\<not> json_space c" "c \<notin> set ''{}[],:''" "c \<noteq> dquote"
    by (auto simp: json_space_def)
qed

lemma isLiteral_Nil: "\<not> isLiteral []"
  by (simp add: isLiteral_def validNumber_def)

text \<open>Every printed value starts with a byte that opens a value.\<close>

lemma jprint_first: "wfv n v \<Longrightarrow> \<exists>c s. jprint v = c # s \<and> \<not> json_space c \<and> c \<noteq> CHR '']''"
proof (cases v)
  case (JLit t)
  assume "wfv n v"
  with JLit obtain c s where "t = c # s" "lit_char c" by (cases t) (auto simp: isLiteral_Nil)
  with JLit lit_char_first [of c] show ?thesis by simp
qed (auto simp: inQuotes_def json_space_def)

lemma jrun_MArr0: "wfv n v \<Longrightarrow> jrun (MArr0, fs) (jprint v @ r) = jrun (MValue, fs) (jprint v @ r)"
  using jprint_first [of n v] by auto

text \<open>The elements of an array, given that each element scans back.\<close>

abbreviation thenRun :: "jstate option \<Rightarrow> string \<Rightarrow> jstate option" where
  "thenRun x r \<equiv> (case x of None \<Rightarrow> None | Some st \<Rightarrow> jrun st r)"

definition scansBack :: "frame list \<Rightarrow> jv \<Rightarrow> bool" where
  "scansBack fs v \<longleftrightarrow>
     (\<forall>c r. \<not> lit_char c \<longrightarrow> jrun (MValue, fs) (jprint v @ c # r) = thenRun (complete (jesc v) fs) (c # r))"

lemma not_lit_char: "\<not> lit_char (CHR '','')" "\<not> lit_char (CHR '']'')" "\<not> lit_char (CHR ''}'')"
  by code_simp+

lemma json_space_punct: "\<not> json_space (CHR '','')" "\<not> json_space (CHR '']'')" "\<not> json_space (CHR ''}'')"
  "\<not> json_space (CHR '':'')" "\<not> json_space dquote" "\<not> json_space (CHR ''{'')" "\<not> json_space (CHR ''['')"
  by code_simp+

lemma jrun_elements:
  assumes "\<And>v acc. v \<in> set (v0 # vs) \<Longrightarrow> scansBack (FArr acc # fs) v"
  shows "jrun (MValue, FArr acc # fs) (Join (map jprint (v0 # vs)) '','' @ '']'' @ r) =
           thenRun (complete (JArr (rev acc @ map jesc (v0 # vs))) fs) r"
  using assms
proof (induction vs arbitrary: v0 acc)
  case Nil
  then have "scansBack (FArr acc # fs) v0" by simp
  then show ?case
    by (simp add: scansBack_def not_lit_char json_space_punct)
next
  case (Cons v vs)
  then have "scansBack (FArr acc # fs) v0" by simp
  then have "jrun (MValue, FArr acc # fs) (jprint v0 @ [CHR '',''] @ x) =
      jrun (MValue, FArr (jesc v0 # acc) # fs) x" for x
    by (simp add: scansBack_def not_lit_char json_space_punct)
  with Cons.IH [of v "jesc v0 # acc"] Cons.prems show ?case by simp
qed

definition jmember :: "string \<times> jv \<Rightarrow> string" where
  "jmember m = inQuotes (htmlEscape (fst m)) @ '':'' @ jprint (snd m)"

lemma jrun_member:
  assumes "sscan SPlain (fst m) = Some SPlain" and "scansBack (FKey acc (htmlEscape (fst m)) # fs) (snd m)"
    and "\<not> lit_char c" and "mode = MKey \<or> mode = MObj0"
  shows "jrun (mode, FObj acc # fs) (jmember m @ [c] @ r) =
           jrun (MAfter, FObj ((htmlEscape (fst m), jesc (snd m)) # acc) # fs) ([c] @ r)"
proof -
  have "sscan SPlain (htmlEscape (fst m)) = Some SPlain" using htmlEscape_scan assms(1) by blast
  then have "jrun (mode, FObj acc # fs) (inQuotes (htmlEscape (fst m)) @ x) =
      jrun (MColon, FKey acc (htmlEscape (fst m)) # fs) x" for x
    using assms(4) jrun_quoted [of "htmlEscape (fst m)" True "FObj acc # fs" x]
    by (auto simp: inQuotes_def json_space_punct)
  then have "jrun (mode, FObj acc # fs) (jmember m @ [c] @ r) =
      jrun (MValue, FKey acc (htmlEscape (fst m)) # fs) (jprint (snd m) @ [c] @ r)"
    by (simp add: jmember_def json_space_punct)
  with assms(2,3) show ?thesis by (simp add: scansBack_def)
qed

lemma jrun_members:
  assumes "\<And>m acc. m \<in> set (m0 # ms) \<Longrightarrow>
      sscan SPlain (fst m) = Some SPlain \<and> scansBack (FKey acc (htmlEscape (fst m)) # fs) (snd m)"
    and "mode = MKey \<or> mode = MObj0"
  shows "jrun (mode, FObj acc # fs) (Join (map jmember (m0 # ms)) '','' @ ''}'' @ r) =
           thenRun (complete (JObj (rev acc @ map (\<lambda>m. (htmlEscape (fst m), jesc (snd m))) (m0 # ms))) fs) r"
  using assms
proof (induction ms arbitrary: m0 acc mode)
  case Nil
  then show ?case
    using jrun_member [of m0 acc fs "CHR ''}''" mode r] by (simp add: not_lit_char json_space_punct)
next
  case (Cons m ms)
  have "jrun (mode, FObj acc # fs) (jmember m0 @ [CHR '',''] @ x) =
      jrun (MKey, FObj ((htmlEscape (fst m0), jesc (snd m0)) # acc) # fs) x" for x
    using jrun_member [of m0 acc fs "CHR '',''" mode x] Cons.prems by (simp add: not_lit_char json_space_punct)
  with Cons.IH [of m MKey "(htmlEscape (fst m0), jesc (snd m0)) # acc"] Cons.prems show ?case by simp
qed

lemma jprint_JObj: "jprint (JObj ms) = ''{'' @ Join (map jmember ms) '','' @ ''}''"
  by (simp add: jmember_def cong: map_cong)

lemma jrun_value: "wfv n v \<Longrightarrow> length fs + n \<le> 10000 \<Longrightarrow> scansBack fs v"
proof (induction v arbitrary: n fs)
  case (JLit t)
  then obtain c s where t: "t = c # s" "lit_char c" "list_all lit_char s" "isLiteral t"
    by (cases t) (auto simp: isLiteral_Nil)
  have "jrun (MValue, fs) (t @ d # r) = thenRun (complete (JLit t) fs) (d # r)" if "\<not> lit_char d" for d r
  proof -
    have "jrun (MValue, fs) (t @ d # r) = jrun (MLit [c], fs) (s @ d # r)"
      using t(1) lit_char_first [OF t(2)] t(2) by (simp add: beginValue_def)
    also have "\<dots> = jrun (MLit (rev t), fs) (d # r)"
      using jrun_lit [OF t(3), of "[c]"] t(1) by simp
    also have "\<dots> = thenRun (complete (JLit t) fs) (d # r)"
      using that t(4) by (cases fs rule: complete.cases [of "(JLit t, fs)" for fs]) auto
    finally show ?thesis .
  qed
  then show ?case by (simp add: scansBack_def)
next
  case (JStr b)
  then have "sscan SPlain (htmlEscape b) = Some SPlain" using htmlEscape_scan by auto
  from jrun_quoted [OF this, of False fs] show ?case
    by (simp add: scansBack_def inQuotes_def json_space_punct beginValue_def)
next
  case (JArr vs)
  have n: "0 < n" "int (length fs) < 10000" using JArr.prems by auto
  have each: "scansBack (FArr acc # fs) v" if "v \<in> set vs" for v acc
    using JArr.IH [OF that, of "n - 1" "FArr acc # fs"] JArr.prems that by auto
  have "jrun (MArr0, FArr [] # fs) (Join (map jprint vs) '','' @ '']'' @ r) =
      thenRun (complete (JArr (map jesc vs)) fs) r" for r
  proof (cases vs)
    case (Cons v0 us)
    have "wfv (n - 1) v0" using JArr.prems Cons by simp
    moreover obtain x where "Join (map jprint vs) '','' @ '']'' @ r = jprint v0 @ x"
      using Cons by (cases us) auto
    ultimately have "jrun (MArr0, FArr [] # fs) (Join (map jprint vs) '','' @ '']'' @ r) =
        jrun (MValue, FArr [] # fs) (Join (map jprint vs) '','' @ '']'' @ r)"
      using jrun_MArr0 by metis
    with jrun_elements [of v0 us fs "[]" r] each Cons show ?thesis by simp
  qed (simp add: json_space_punct)
  with n show ?case
    by (simp add: scansBack_def json_space_punct beginValue_def push_def)
next
  case (JObj ms)
  have n: "0 < n" "int (length fs) < 10000" using JObj.prems by auto
  have each: "sscan SPlain (fst m) = Some SPlain \<and> scansBack (FKey acc (htmlEscape (fst m)) # fs) (snd m)"
    if "m \<in> set ms" for m acc
    using JObj.IH [of m "snd m" "n - 1" "FKey acc (htmlEscape (fst m)) # fs"] JObj.prems that
    by (cases m) auto
  have "jrun (MObj0, FObj [] # fs) (Join (map jmember ms) '','' @ ''}'' @ r) =
      thenRun (complete (JObj (map (\<lambda>m. (htmlEscape (fst m), jesc (snd m))) ms)) fs) r" for r
  proof (cases ms)
    case (Cons m0 us)
    with jrun_members [of m0 us fs MObj0 "[]" r] each show ?thesis by simp
  qed (simp add: json_space_punct)
  with n show ?case
    by (simp add: scansBack_def json_space_punct beginValue_def push_def jprint_JObj del: jprint.simps)
qed

text \<open>A printed value scans back as a whole document.\<close>

lemma complete_Some_cases:
  assumes "complete v fs = Some st"
  shows "fs = [] \<and> st = (MDone v, []) \<or> (\<exists>f gs. st = (MAfter, f # gs))"
  using assms by (cases "(v, fs)" rule: complete.cases) auto

lemma space_MDone:
  assumes "jstep st (CHR '' '') = Some (MDone v, [])"
  shows "st = (MDone v, []) \<or> (\<exists>acc. st = (MLit acc, []) \<and> isLiteral (rev acc) \<and> v = JLit (rev acc))"
proof -
  have sp: "json_space (CHR '' '')" "\<not> lit_char (CHR '' '')" by code_simp+
  have after: "(m, fs) = (MDone v, [])" if "afterValue (m, fs) (CHR '' '') = Some (MDone v, [])" for m fs
    using that sp by (cases "((m, fs), CHR '' '')" rule: afterValue.cases) auto
  show ?thesis
  proof (cases "(st, CHR '' '')" rule: jstep.cases)
    case (6 key m acc fs c)
    with assms show ?thesis by (auto split: option.splits if_splits)
  next
    case (7 acc fs c)
    with assms sp obtain st1 where "isLiteral (rev acc)" "complete (JLit (rev acc)) fs = Some st1"
      "afterValue st1 (CHR '' '') = Some (MDone v, [])"
      by (auto split: option.splits if_splits)
    with after [of "fst st1" "snd st1"] complete_Some_cases 7 show ?thesis by fastforce
  qed (use assms sp after in auto)
qed

lemma parseJSON_jprint:
  assumes "wfv 10000 v"
  shows "parseJSON (jprint v) = Some (jesc v)"
proof -
  have "\<not> lit_char (CHR '' '')" "json_space (CHR '' '')" by code_simp+
  with jrun_value [OF assms, of "[]"] have "jrun (MValue, []) (jprint v @ '' '') = Some (MDone (jesc v), [])"
    by (simp add: scansBack_def)
  then obtain st where "jrun (MValue, []) (jprint v) = Some st" "jstep st (CHR '' '') = Some (MDone (jesc v), [])"
    by (auto simp: jrun_append split: option.splits)
  with space_MDone show ?thesis by (fastforce simp: parseJSON_def)
qed

section \<open>Every scanned value is well-formed\<close>

definition wfm :: "nat \<Rightarrow> string \<times> jv \<Rightarrow> bool" where
  "wfm n m \<longleftrightarrow> sscan SPlain (fst m) = Some SPlain \<and> wfv n (snd m)"

fun wf_frame :: "nat \<Rightarrow> frame \<Rightarrow> bool" where
  "wf_frame n (FArr vs) \<longleftrightarrow> (\<forall>v \<in> set vs. wfv n v)"
| "wf_frame n (FObj ms) \<longleftrightarrow> (\<forall>m \<in> set ms. wfm n m)"
| "wf_frame n (FKey ms k) \<longleftrightarrow> (\<forall>m \<in> set ms. wfm n m) \<and> sscan SPlain k = Some SPlain"

fun wf_frames :: "frame list \<Rightarrow> bool" where
  "wf_frames [] \<longleftrightarrow> True"
| "wf_frames (f # fs) \<longleftrightarrow> length fs < 10000 \<and> wf_frame (9999 - length fs) f \<and> wf_frames fs"

fun wf_mode :: "jmode \<Rightarrow> bool" where
  "wf_mode (MStr key m acc) \<longleftrightarrow> sscan SPlain (rev acc) = Some m"
| "wf_mode (MLit acc) \<longleftrightarrow> list_all lit_char acc"
| "wf_mode (MDone v) \<longleftrightarrow> wfv 10000 v"
| "wf_mode _ \<longleftrightarrow> True"

definition wf_jstate :: "jstate \<Rightarrow> bool" where
  "wf_jstate st \<longleftrightarrow> wf_mode (fst st) \<and> wf_frames (snd st)"

lemma wf_complete:
  assumes "complete v fs = Some st" and "wf_frames fs" and "wfv (10000 - length fs) v"
  shows "wf_jstate st"
  using assms by (cases "(v, fs)" rule: complete.cases) (auto simp: wf_jstate_def wfm_def)

lemma afterValue_Some:
  assumes "afterValue (m, fs) c = Some st'"
  shows "st' = (m, fs) \<or>
    (\<exists>vs gs. fs = FArr vs # gs \<and> (st' = (MValue, fs) \<or> complete (JArr (rev vs)) gs = Some st')) \<or>
    (\<exists>ms gs. fs = FObj ms # gs \<and> (st' = (MKey, fs) \<or> complete (JObj (rev ms)) gs = Some st'))"
  using assms by (cases "((m, fs), c)" rule: afterValue.cases) (auto split: if_splits)

lemma wf_afterValue:
  assumes "afterValue st c = Some st'" and "wf_jstate st"
  shows "wf_jstate st'"
proof -
  obtain m fs where st: "st = (m, fs)" by (cases st)
  have wf: "wf_frames fs" using assms(2) st by (simp add: wf_jstate_def)
  from afterValue_Some [OF assms(1) [unfolded st]] show ?thesis
  proof (elim disjE exE conjE)
    fix vs gs
    assume fs: "fs = FArr vs # gs" and c: "complete (JArr (rev vs)) gs = Some st'"
    show ?thesis by (rule wf_complete [OF c]) (use wf fs in auto)
  next
    fix ms gs
    assume fs: "fs = FObj ms # gs" and c: "complete (JObj (rev ms)) gs = Some st'"
    show ?thesis by (rule wf_complete [OF c]) (use wf fs in \<open>auto simp: wfm_def\<close>)
  qed (use assms(2) st wf in \<open>simp_all add: wf_jstate_def\<close>)
qed

lemma wf_beginValue:
  assumes "beginValue c fs = Some st" and "wf_frames fs"
  shows "wf_jstate st"
  using assms by (auto simp: beginValue_def push_def wf_jstate_def split: if_splits)

lemma wf_jstep:
  assumes "jstep st c = Some st'" and "wf_jstate st"
  shows "wf_jstate st'"
proof (cases "(st, c)" rule: jstep.cases)
  case (6 key m acc fs c)
  have acc: "sscan SPlain (rev acc) = Some m" "wf_frames fs" using assms(2) 6 by (auto simp: wf_jstate_def)
  show ?thesis
  proof (cases "m = SPlain \<and> c = dquote")
    case True
    with 6 assms have e: "endString key (rev acc) fs = Some st'" by auto
    show ?thesis
    proof (cases key)
      case False
      with e have "complete (JStr (rev acc)) fs = Some st'" by simp
      with acc True show ?thesis by (intro wf_complete) auto
    next
      case True': True
      with e acc True show ?thesis
        by (cases "(key, rev acc, fs)" rule: endString.cases) (auto simp: wf_jstate_def)
    qed
  next
    case False
    with 6 assms acc show ?thesis by (auto simp: wf_jstate_def sscan_append split: option.splits)
  qed
next
  case (7 acc fs c)
  show ?thesis
  proof (cases "lit_char c")
    case False
    with 7 assms obtain st1 where "isLiteral (rev acc)" "complete (JLit (rev acc)) fs = Some st1" "afterValue st1 c = Some st'"
      by (auto split: option.splits if_splits)
    moreover have "wf_frames fs" "list_all lit_char (rev acc)" using 7 assms(2) by (auto simp: wf_jstate_def)
    ultimately show ?thesis using wf_complete wf_afterValue by fastforce
  qed (use 7 assms in \<open>auto simp: wf_jstate_def\<close>)
qed (use assms wf_beginValue wf_afterValue in \<open>auto simp: wf_jstate_def split: if_splits\<close>)

lemma wf_jrun: "jrun st s = Some st' \<Longrightarrow> wf_jstate st \<Longrightarrow> wf_jstate st'"
  by (induction st s rule: jrun.induct) (auto split: option.splits intro: wf_jstep)

lemma wf_parseJSON:
  assumes "parseJSON s = Some v"
  shows "wfv 10000 v"
proof -
  obtain st where st: "jrun (MValue, []) s = Some st"
    "st = (MDone v, []) \<or> (\<exists>acc. st = (MLit acc, []) \<and> isLiteral (rev acc) \<and> v = JLit (rev acc))"
    using assms by (auto simp: parseJSON_def split: option.splits prod.splits jmode.splits list.splits if_splits)
  have "wf_jstate st" by (rule wf_jrun [OF st(1)]) (simp add: wf_jstate_def)
  with st(2) show ?thesis by (auto simp: wf_jstate_def)
qed

section \<open>Quoted strings\<close>

lemma ascii_marks: "byte backslash < 0x80" "byte dquote < 0x80" "\<not> byte (CHR 0xE2) < 0x80"
  by code_simp+

lemma sscan_high: "list_all (\<lambda>c. \<not> byte c < 0x80) w \<Longrightarrow> sscan SPlain (w @ r) = sscan SPlain r"
proof (induction w)
  case (Cons c w)
  then show ?case using ascii_marks by auto
qed simp

lemma isRune_high:
  assumes "isRune w" "\<not> byte (hd w) < 0x80"
  shows "list_all (\<lambda>c. \<not> byte c < 0x80) w"
proof -
  have n: "rune_size w \<noteq> 0" "rune_size w = length w" using assms(1) by (auto simp: isRune_def)
  from n(1) show ?thesis
    by (cases w rule: rune_size_cases) (use assms(2) n(2) in \<open>auto simp: inRange_def\<close>)
qed

lemma hd_take_rune: "rune_size s \<noteq> 0 \<Longrightarrow> hd (take (rune_size s) s) = hd s"
  by (cases s) (auto simp: rune_size_def take_Cons')

lemma quote1_ascii:
  assumes "quote1 (c # t) = (n, out)" and "byte c < 0x80"
  shows "out \<in> {[backslash, dquote], [backslash, backslash], [backslash, CHR ''b''], [backslash, CHR ''f''],
        [backslash, CHR ''n''], [backslash, CHR ''r''], [backslash, CHR ''t''], hexEscape c} \<or>
      out = [c] \<and> c \<noteq> dquote \<and> c \<noteq> backslash \<and> \<not> byte c < 0x20 \<and> c \<notin> set ''<>&''"
proof (cases "c = dquote \<or> c = backslash")
  case True
  with assms have "out = [backslash, c]" by (simp add: quote1_def)
  with True show ?thesis by blast
next
  case False
  with assms show ?thesis by (simp add: quote1_def split: if_splits)
qed

lemma quote1_scan:
  assumes "s \<noteq> []" and "quote1 s = (n, out)"
  shows "sscan SPlain (out @ x) = sscan SPlain x"
proof -
  obtain c t where s: "s = c # t" using assms(1) by (cases s) auto
  have esc: "sscan SPlain ([backslash, c] @ x) = sscan SPlain x"
    if "c \<in> set (''bfnrt'' @ [dquote, backslash])" for c x
  proof -
    have "list_all (\<lambda>c. simpleEscape c \<noteq> None \<and> c \<noteq> CHR ''u'') (''bfnrt'' @ [dquote, backslash])" by code_simp
    with that show ?thesis by (auto simp: list_all_iff)
  qed
  show ?thesis
  proof (cases "byte c < 0x80")
    case True
    note quote1_ascii [OF assms(2) [unfolded s] True]
    then show ?thesis
      using esc [of dquote x] esc [of backslash x] esc [of "CHR ''b''" x] esc [of "CHR ''f''" x] esc [of "CHR ''n''" x]
        esc [of "CHR ''r''" x] esc [of "CHR ''t''" x] hexEscape_scan [of c]
      by (elim disjE insertE emptyE) (simp_all add: sscan_append)
  next
    case False
    have u: "sscan SPlain ([backslash] @ ''ufffd'') = Some SPlain" by code_simp
    consider "rune_size s = 0" | "rune_size s \<noteq> 0" "lineSep s" | "rune_size s \<noteq> 0" "\<not> lineSep s" by blast
    then show ?thesis
    proof cases
      case 1
      with assms(2) False have "out = [backslash] @ ''ufffd''" by (simp add: quote1_def s)
      with u show ?thesis by (simp only: sscan_append option.case)
    next
      case 2
      with assms(2) False have "out = lineSepEscape s" by (simp add: quote1_def s)
      with lineSepEscape_scan [of s] show ?thesis by (simp add: sscan_append)
    next
      case 3
      with assms(2) False have "out = take (rune_size s) s" by (auto simp: quote1_def s)
      moreover have "list_all (\<lambda>c. \<not> byte c < 0x80) (take (rune_size s) s)"
        using isRune_high [OF isRune_take] 3 hd_take_rune False s by auto
      ultimately show ?thesis using sscan_high by simp
    qed
  qed
qed

lemma appendString_scan: "sscan SPlain (appendString s) = Some SPlain"
proof (induction s rule: appendString.induct)
  case (1 s)
  show ?case
  proof (cases "s = []")
    case False
    obtain n out where q: "quote1 s = (n, out)" by (cases "quote1 s")
    have "appendString s = out @ appendString (drop (max 1 n) s)"
      using False q by (subst appendString.simps) simp
    with quote1_scan [OF False q] "1.IH" [OF False q [symmetric]] show ?thesis by simp
  qed simp
qed

text \<open>A quoted string has no bytes left to escape.\<close>

lemma htmlEscape_Cons:
  "c \<notin> set ''<>&'' \<Longrightarrow> c \<noteq> CHR 0xE2 \<or> \<not> lineSep (c # t) \<Longrightarrow> htmlEscape (c # t) = c # htmlEscape t"
  by (cases t; cases "tl t") (auto simp: lineSep_def)

lemma htmlEscape_clean:
  "list_all (\<lambda>c. c \<notin> set ''<>&'' \<and> c \<noteq> CHR 0xE2) w \<Longrightarrow> htmlEscape (w @ x) = w @ htmlEscape x"
  by (induction w) (auto simp: htmlEscape_Cons)

lemma hex_clean: "0 \<le> n \<Longrightarrow> n < 16 \<Longrightarrow> hex_digit n \<notin> set ''<>&'' \<and> hex_digit n \<noteq> CHR 0xE2"
proof -
  assume "0 \<le> n" "n < 16"
  moreover have "list_all (\<lambda>n. hex_digit n \<notin> set ''<>&'' \<and> hex_digit n \<noteq> CHR 0xE2) [0..15]" by code_simp
  ultimately show ?thesis by (simp add: list_all_iff)
qed

lemma quote1_clean:
  assumes "s \<noteq> []" and "quote1 s = (n, out)"
  shows "htmlEscape (out @ x) = out @ htmlEscape x"
proof -
  obtain c t where s: "s = c # t" using assms(1) by (cases s) auto
  have hx: "list_all (\<lambda>c. c \<notin> set ''<>&'' \<and> c \<noteq> CHR 0xE2) (hexEscape c)"
    using hex_clean [of "byte c div 16"] hex_clean [of "byte c mod 16"] byte_div16 [of c]
    by (simp add: hexEscape_def)
  have ls: "list_all (\<lambda>c. c \<notin> set ''<>&'' \<and> c \<noteq> CHR 0xE2) (lineSepEscape s)"
    using hex_clean [of "byte (s ! 2) mod 16"] byte_div16 [of "s ! 2"] by (simp add: lineSepEscape_def)
  show ?thesis
  proof (cases "byte c < 0x80")
    case True
    then have "c \<noteq> CHR 0xE2" using ascii_marks by blast
    with quote1_ascii [OF assms(2) [unfolded s] True]
    have "list_all (\<lambda>c. c \<notin> set ''<>&'' \<and> c \<noteq> CHR 0xE2) out"
      by (elim disjE insertE emptyE conjE) (use hx in simp_all)
    then show ?thesis by (rule htmlEscape_clean)
  next
    case False
    consider "rune_size s = 0" | "rune_size s \<noteq> 0" "lineSep s" | "rune_size s \<noteq> 0" "\<not> lineSep s" by blast
    then show ?thesis
    proof cases
      case 1
      with assms(2) False have "out = [backslash] @ ''ufffd''" by (simp add: quote1_def s)
      then show ?thesis by (intro htmlEscape_clean) simp
    next
      case 2
      with assms(2) False have "out = lineSepEscape s" by (simp add: quote1_def s)
      with ls show ?thesis by (intro htmlEscape_clean) simp
    next
      case 3
      with assms(2) False have out: "out = take (rune_size s) s" by (auto simp: quote1_def s)
      have ascii: "byte (CHR ''<'') < 0x80" "byte (CHR ''>'') < 0x80" "byte (CHR ''&'') < 0x80" by code_simp+
      have cont: "c \<notin> set ''<>&'' \<and> c \<noteq> CHR 0xE2" if "cont c" for c
        using that ascii by (auto simp: inRange_def)
      from 3(1) show ?thesis
      proof (cases s rule: rune_size_cases)
        case (3 c' d e t')
        then have o3: "out = [c', d, e]" using out by simp
        have "\<not> lineSep (c' # d # e # x)" using \<open>\<not> lineSep s\<close> 3 by (simp add: lineSep_def)
        moreover have "c' \<notin> set ''<>&''" using 3(3) ascii by (auto simp: inRange_def)
        ultimately have "htmlEscape (c' # d # e # x) = c' # htmlEscape ([d, e] @ x)"
          using htmlEscape_Cons [of c' "d # e # x"] by simp
        moreover have "htmlEscape ([d, e] @ x) = [d, e] @ htmlEscape x"
          by (rule htmlEscape_clean) (use 3 cont in simp)
        ultimately show ?thesis by (simp add: o3)
      next
        case (1 c t)
        with False s show ?thesis by simp
      next
        case (2 c d t)
        with out cont [of d] ascii show ?thesis
          by (intro htmlEscape_clean) (auto simp: inRange_def)
      next
        case (4 c d e f t)
        with out cont [of d] cont [of e] cont [of f] ascii show ?thesis
          by (intro htmlEscape_clean) (auto simp: inRange_def)
      qed
    qed
  qed
qed

lemma htmlEscape_appendString: "htmlEscape (appendString s) = appendString s"
proof (induction s rule: appendString.induct)
  case (1 s)
  show ?case
  proof (cases "s = []")
    case False
    obtain n out where q: "quote1 s = (n, out)" by (cases "quote1 s")
    have "appendString s = out @ appendString (drop (max 1 n) s)"
      using False q by (subst appendString.simps) simp
    with quote1_clean [OF False q] "1.IH" [OF False q [symmetric]] show ?thesis by simp
  qed simp
qed

section \<open>Unquoting scanned strings\<close>

lemma isRune_replacement: "isRune replacement"
  by code_simp

lemma isRune_ascii: "byte c < 0x80 \<Longrightarrow> isRune [c]"
  by (simp add: isRune_def rune_size_single)

lemma simpleEscape_ascii: "simpleEscape u = Some e \<Longrightarrow> byte e < 0x80"
  by (auto simp: simpleEscape_def split: if_splits)

lemma hexval_range: "hexval c = Some n \<Longrightarrow> 0 \<le> n \<and> n < 16"
  by (auto simp: hexval_def Let_def split: if_splits)

lemma getu4_Some:
  assumes "0 \<le> getu4 s"
  obtains h1 h2 h3 h4 t where "s = backslash # CHR ''u'' # h1 # h2 # h3 # h4 # t"
    "hexval h1 \<noteq> None" "hexval h2 \<noteq> None" "hexval h3 \<noteq> None" "hexval h4 \<noteq> None" "getu4 s < 0x10000"
proof -
  obtain b u h1 h2 h3 h4 t where s: "s = b # u # h1 # h2 # h3 # h4 # t"
    using assms by (auto simp: getu4_def split: list.splits)
  then have bu: "b = backslash" "u = CHR ''u''" using assms by (auto simp: getu4_def split: if_splits)
  then obtain w x y z where h: "hexval h1 = Some w" "hexval h2 = Some x" "hexval h3 = Some y" "hexval h4 = Some z"
    using assms s by (auto simp: getu4_def split: option.splits)
  then have "getu4 s < 0x10000"
    using hexval_range [OF h(1)] hexval_range [OF h(2)] hexval_range [OF h(3)] hexval_range [OF h(4)] s bu
    by (simp add: getu4_def)
  with that s bu h show ?thesis by simp
qed

lemma sscan_SHex:
  assumes "sscan (SHex n) s = Some SPlain"
  obtains h t where "s = h # t" "hexval h \<noteq> None" "sscan (if n = 1 then SPlain else SHex (n - 1)) t = Some SPlain"
  using assms that by (cases s) (auto split: if_splits)

lemma sscan_u4:
  assumes "sscan SPlain (backslash # CHR ''u'' # s) = Some SPlain"
  obtains h1 h2 h3 h4 t where "s = h1 # h2 # h3 # h4 # t" "hexval h1 \<noteq> None" "hexval h2 \<noteq> None"
    "hexval h3 \<noteq> None" "hexval h4 \<noteq> None" "sscan SPlain t = Some SPlain"
proof -
  have "sscan (SHex 4) s = Some SPlain" using assms by simp
  then obtain h1 s1 where 1: "s = h1 # s1" "hexval h1 \<noteq> None" "sscan (SHex 3) s1 = Some SPlain"
    by (rule sscan_SHex) (simp add: numeral_eq_Suc)
  obtain h2 s2 where 2: "s1 = h2 # s2" "hexval h2 \<noteq> None" "sscan (SHex 2) s2 = Some SPlain"
    by (rule sscan_SHex [OF 1(3)]) (simp add: numeral_eq_Suc)
  obtain h3 s3 where 3: "s2 = h3 # s3" "hexval h3 \<noteq> None" "sscan (SHex 1) s3 = Some SPlain"
    by (rule sscan_SHex [OF 2(3)]) (simp add: numeral_eq_Suc)
  obtain h4 s4 where 4: "s3 = h4 # s4" "hexval h4 \<noteq> None" "sscan SPlain s4 = Some SPlain"
    by (rule sscan_SHex [OF 3(3)]) simp
  from that [OF _ 1(2) 2(2) 3(2) 4(2,3)] show ?thesis by (simp add: 1(1) 2(1) 3(1) 4(1))
qed

text \<open>
  One step on a scanned string succeeds, consumes at least one byte, leaves a scanned string
  and yields one well-formed encoding.
\<close>

lemma unquote1_scanned:
  assumes "sscan SPlain s = Some SPlain" and "s \<noteq> []"
  shows "\<exists>n w. unquote1 s = Some (n, w) \<and> 0 < n \<and> isRune w \<and> sscan SPlain (drop n s) = Some SPlain"
proof -
  obtain c t where s: "s = c # t" using assms(2) by (cases s) auto
  show ?thesis
  proof (cases "c = backslash")
    case False
    have c: "c \<noteq> dquote" "\<not> byte c < 0x20" "sscan SPlain t = Some SPlain"
      using assms(1) False by (auto simp: s split: if_splits)
    show ?thesis
    proof (cases "rune_size s = 0")
      case True
      with c False show ?thesis by (simp add: unquote1_def s isRune_replacement)
    next
      case r: False
      have "sscan SPlain (drop (rune_size s) s) = Some SPlain"
      proof (cases "byte c < 0x80")
        case True
        with c s show ?thesis by (simp add: rune_size_single)
      next
        case high: False
        have "list_all (\<lambda>c. \<not> byte c < 0x80) (take (rune_size s) s)"
          using isRune_high [OF isRune_take [OF r]] hd_take_rune [OF r] high s by simp
        from sscan_high [OF this, of "drop (rune_size s) s"] assms(1) show ?thesis by simp
      qed
      with r c False isRune_take [OF r] show ?thesis by (simp add: unquote1_def s)
    qed
  next
    case True
    then obtain u t' where t: "t = u # t'" using assms(1) s by (cases t) auto
    show ?thesis
    proof (cases "u = CHR ''u''")
      case False
      with assms(1) s t True obtain e where e: "simpleEscape u = Some e" "sscan SPlain t' = Some SPlain"
        by (auto split: if_splits)
      with False True s t show ?thesis
        using isRune_ascii [OF simpleEscape_ascii [OF e(1)]] by (simp add: unquote1_def)
    next
      case u: True
      have sc: "sscan SPlain (backslash # CHR ''u'' # t') = Some SPlain" using assms(1) s t True u by simp
      obtain h1 h2 h3 h4 r where h: "t' = h1 # h2 # h3 # h4 # r" "hexval h1 \<noteq> None" "hexval h2 \<noteq> None"
        "hexval h3 \<noteq> None" "hexval h4 \<noteq> None" "sscan SPlain r = Some SPlain"
        by (rule sscan_u4 [OF sc])
      have g: "0 \<le> getu4 s"
        using h hexval_range by (fastforce simp: getu4_def s t True u split: option.splits)
      then have g': "getu4 s < 0x10000" by (rule getu4_Some)
      show ?thesis
      proof (cases "isSurrogate (getu4 s)")
        case False
        with g g' h True u show ?thesis
          using isRune_EncodeRune [of "getu4 s"] by (simp add: unquote1_def s t)
      next
        case sur: True
        show ?thesis
        proof (cases "isPair (getu4 s) (getu4 r)")
          case False
          with sur g h True u show ?thesis by (simp add: unquote1_def s t isRune_replacement)
        next
          case pair: True
          then have "0 \<le> getu4 r" by (simp add: isPair_def)
          then obtain k1 k2 k3 k4 r' where "r = backslash # CHR ''u'' # k1 # k2 # k3 # k4 # r'" by (rule getu4_Some)
          moreover have "sscan SPlain r' = Some SPlain"
            using sscan_u4 [of "k1 # k2 # k3 # k4 # r'"] h(6) calculation by (metis list.inject)
          moreover have "isRune (EncodeRune ((getu4 s - 0xD800) * 1024 + (getu4 r - 0xDC00) + 0x10000))"
            using pair by (intro isRune_EncodeRune) (auto simp: isPair_def isSurrogate_def)
          ultimately show ?thesis
            using sur pair g h(1) True u by (simp add: unquote1_def s t Let_def)
        qed
      qed
    qed
  qed
qed

lemma unquote_scanned:
  "sscan SPlain s = Some SPlain \<Longrightarrow> \<exists>t. unquote s = Some t \<and> valid_utf8 t"
proof (induction s rule: unquote.induct)
  case (1 s)
  show ?case
  proof (cases "s = []")
    case False
    obtain n w where w: "unquote1 s = Some (n, w)" "0 < n" "isRune w" "sscan SPlain (drop n s) = Some SPlain"
      using unquote1_scanned [OF "1.prems" False] by blast
    have m: "max 1 n = n" using w(2) by simp
    obtain t where "unquote (drop n s) = Some t" "valid_utf8 t"
      using "1.IH" [OF False w(1) refl] w(4) m by auto
    with False w m valid_utf8_isRune show ?thesis by (subst unquote.simps) simp
  qed simp
qed

end
