(* ===== verification/FluxUtils.thy ===== *)
theory FluxUtils
  imports JsonScan FluxMerge "HOL-Library.AList"
begin

text \<open>
  \<open>internal/flux/utils.go\<close>: the JSON body of a query with its builder, the signature and the
  preview for the log, and the cutoff between cached and live segment.
\<close>

section \<open>Operations\<close>

type_synonym payload = "(string \<times> jv) list"

text \<open>\<open>unquoteBytes\<close> on a key; the scanner lets only strings through that unquote.\<close>

definition unquoteKey :: "string \<Rightarrow> string" where
  "unquoteKey r = (case unquote r of None \<Rightarrow> [] | Some k \<Rightarrow> k)"

text \<open>
  Decoding an object into \<open>map[string]json.RawMessage\<close>: a later member replaces an earlier one
  with the same key.
\<close>

definition objectPayload :: "(string \<times> jv) list \<Rightarrow> payload" where
  "objectPayload ms = foldl (\<lambda>p m. AList.update (unquoteKey (fst m)) (snd m) p) [] ms"

definition ParseFluxJSONBody :: "string \<Rightarrow> (string \<times> payload) option" where
  "ParseFluxJSONBody body =
     (case parseJSON body of
        Some (JObj ms) \<Rightarrow>
          (let payload = objectPayload ms
           in case map_of payload ''query'' of
                Some (JStr r) \<Rightarrow>
                  (case unquote r of
                     None \<Rightarrow> None
                   | Some flux \<Rightarrow> if TrimSpace flux = [] then None else Some (flux, payload))
              | _ \<Rightarrow> None)
      | _ \<Rightarrow> None)"

text \<open>\<open>json.Marshal\<close> of a map: the keys in the order of their bytes.\<close>

definition marshalMap :: "payload \<Rightarrow> string" where
  "marshalMap p =
     ''{'' @ Join (map (\<lambda>m. inQuotes (appendString (fst m)) @ '':'' @ jprint (snd m)) (sort_key fst p)) '','' @ ''}''"

text \<open>The closure \<open>builder\<close> over a payload.\<close>

definition builder :: "payload \<Rightarrow> string \<Rightarrow> string" where
  "builder payload nextFlux =
     marshalMap (AList.update ''query'' (JStr (appendString nextFlux)) payload)"

definition QuerySignature :: "string \<Rightarrow> string" where
  "QuerySignature query = EncodeToString (take 8 (Sum256 query))"

definition QueryPreview :: "string \<Rightarrow> int \<Rightarrow> string" where
  "QueryPreview query mx =
     (let query = TrimSpace (Join (Fields query) '' '')
      in if mx \<le> 0 \<or> int (length query) \<le> mx then query
         else take (nat mx) query @ ''...'')"

definition SplitCutoff :: "instant \<Rightarrow> duration \<Rightarrow> instant" where
  "SplitCutoff now freshnessWindow =
     (if freshnessWindow \<le> 0 then now else time_Truncate now freshnessWindow)"

section \<open>The builder\<close>

lemma map_of_objectPayload:
  "map_of (foldl (\<lambda>p m. AList.update (unquoteKey (fst m)) (snd m) p) acc ms) =
     map_of acc ++ map_of (rev (map (\<lambda>m. (unquoteKey (fst m), snd m)) ms))"
  by (induction ms arbitrary: acc) (auto simp: AList.update_conv' fun_eq_iff map_add_def split: option.splits)

lemma distinct_objectPayload: "distinct (map fst (objectPayload ms))"
proof -
  have "distinct (map fst acc) \<Longrightarrow>
      distinct (map fst (foldl (\<lambda>p m. AList.update (unquoteKey (fst m)) (snd m) p) acc ms))" for acc
    by (induction ms arbitrary: acc) (auto intro: AList.distinct_update)
  then show ?thesis by (simp add: objectPayload_def)
qed

lemma objectPayload_members: "(k, v) \<in> set (objectPayload ms) \<Longrightarrow> \<exists>m \<in> set ms. k = unquoteKey (fst m) \<and> v = snd m"
proof -
  assume "(k, v) \<in> set (objectPayload ms)"
  then have "map_of (objectPayload ms) k = Some v"
    using distinct_objectPayload by simp
  then show ?thesis
    by (auto simp: objectPayload_def map_of_objectPayload dest!: map_of_SomeD)
qed

text \<open>The payloads that decoding returns: keys are well-formed UTF-8, values are well-formed.\<close>

definition wf_payload :: "payload \<Rightarrow> bool" where
  "wf_payload p \<longleftrightarrow> distinct (map fst p) \<and> (\<forall>(k, v) \<in> set p. valid_utf8 k \<and> wfv 9999 v)"

lemma wf_objectPayload:
  assumes "wfv 10000 (JObj ms)"
  shows "wf_payload (objectPayload ms)"
  unfolding wf_payload_def
proof (intro conjI ballI distinct_objectPayload)
  fix m
  assume "m \<in> set (objectPayload ms)"
  then obtain x where x: "x \<in> set ms" "m = (unquoteKey (fst x), snd x)"
    using objectPayload_members [of "fst m" "snd m" ms] by (metis prod.collapse)
  with assms have "sscan SPlain (fst x) = Some SPlain" "wfv 9999 (snd x)" by auto
  with unquote_scanned [of "fst x"] x show "case m of (k, v) \<Rightarrow> valid_utf8 k \<and> wfv 9999 v"
    by (auto simp: unquoteKey_def)
qed

lemma wf_payload_update:
  assumes "wf_payload p" and "valid_utf8 k" and "wfv 9999 v"
  shows "wf_payload (AList.update k v p)"
proof -
  have "(k', v') \<in> set (AList.update k v p) \<Longrightarrow> (k', v') = (k, v) \<or> (k', v') \<in> set p" for k' v'
    by (induction p) (auto split: if_splits)
  with assms show ?thesis
    by (fastforce simp: wf_payload_def AList.distinct_update)
qed

lemma marshalMap_jprint: "marshalMap p = jprint (JObj (map (\<lambda>m. (appendString (fst m), snd m)) (sort_key fst p)))"
  by (simp add: marshalMap_def htmlEscape_appendString comp_def)

lemma parse_marshalMap:
  assumes "wf_payload p"
  shows "\<exists>ms. parseJSON (marshalMap p) = Some (JObj ms) \<and>
           map_of (objectPayload ms) = (\<lambda>k. map_option jesc (map_of p k))"
proof -
  define q where "q = sort_key fst p"
  have q: "set q = set p" "distinct (map fst q)"
    using assms by (simp_all add: q_def wf_payload_def distinct_map)
  define ms where "ms = map (\<lambda>m. (appendString (fst m), jesc (snd m))) q"
  have "wfv 10000 (JObj (map (\<lambda>m. (appendString (fst m), snd m)) q))"
    using assms q(1) by (auto simp: appendString_scan wf_payload_def)
  from parseJSON_jprint [OF this] have parse: "parseJSON (marshalMap p) = Some (JObj ms)"
    by (simp add: marshalMap_jprint q_def ms_def htmlEscape_appendString comp_def)
  have keys: "unquoteKey (appendString (fst m)) = fst m" if "m \<in> set q" for m
    using assms that q(1) by (auto simp: unquoteKey_def wf_payload_def unquote_appendString)
  have "map (\<lambda>m. (unquoteKey (fst m), snd m)) ms = map (\<lambda>m. (fst m, jesc (snd m))) q"
    using keys by (simp add: ms_def)
  then have "map_of (objectPayload ms) = map_of (rev (map (\<lambda>m. (fst m, jesc (snd m))) q))"
    by (simp add: objectPayload_def map_of_objectPayload)
  also have "\<dots> = map_of (map (\<lambda>m. (fst m, jesc (snd m))) q)"
    using q(2) by (subst map_of_inject_set) (simp_all add: rev_map comp_def flip: rev_map)
  also have "\<dots> = (\<lambda>k. map_option jesc (map_of q k))"
    by (rule ext) (induction q, auto)
  also have "map_of q = map_of p"
    using q assms by (subst map_of_inject_set) (auto simp: wf_payload_def)
  finally show ?thesis using parse by blast
qed

lemma ParseFluxJSONBody_Some:
  assumes "ParseFluxJSONBody body = Some (flux, payload)"
  shows "TrimSpace flux \<noteq> []" "wf_payload payload"
    and "\<exists>r. map_of payload ''query'' = Some (JStr r) \<and> unquote r = Some flux"
proof -
  obtain ms r where "parseJSON body = Some (JObj ms)" "payload = objectPayload ms"
    "map_of payload ''query'' = Some (JStr r)" "unquote r = Some flux" "TrimSpace flux \<noteq> []"
    using assms by (auto simp: ParseFluxJSONBody_def Let_def split: option.splits jv.splits if_splits)
  then show "TrimSpace flux \<noteq> []" "wf_payload payload"
    "\<exists>r. map_of payload ''query'' = Some (JStr r) \<and> unquote r = Some flux"
    using wf_objectPayload [OF wf_parseJSON] by blast+
qed

section \<open>The preview\<close>

lemma enc_len_single_byte: "[c] \<in> set space_encs \<Longrightarrow> enc_len space_encs (c # s) \<noteq> 0"
proof
  assume "[c] \<in> set space_encs" "enc_len space_encs (c # s) = 0"
  with enc_len_zero_iff [OF space_encs_nonempty(1), of "c # s"] have "\<not> HasPrefix (c # s) [c]" by blast
  then show False by (simp add: HasPrefix_iff)
qed

lemma fields_loop_no_space:
  assumes "[c] \<in> set space_encs"
  shows "c \<notin> set acc \<Longrightarrow> f \<in> set (fields_loop acc s) \<Longrightarrow> c \<notin> set f"
proof (induction acc s rule: fields_loop.induct)
  case (2 acc d s)
  show ?case
  proof (cases "enc_len space_encs (d # s) = 0")
    case True
    with enc_len_single_byte [OF assms] have "c \<noteq> d" by blast
    with True 2 show ?thesis by auto
  next
    case False
    with 2 show ?thesis by (auto split: if_splits)
  qed
qed (auto split: if_splits)

lemma set_Join: "set (Join xs sep) \<subseteq> \<Union> (set ` set xs) \<union> set sep"
  by (induction xs sep rule: Join.induct) auto

lemma newline_space: "[newline] \<in> set space_encs"
  by code_simp

section \<open>Claims\<close>

text \<open>
  C12: rewriting the query inside a JSON request body. The body that the builder makes for a
  new query (well-formed UTF-8, not blank) is again a JSON request body; decoding it returns
  exactly that query, and every other member of the request is unchanged (its strings are
  printed with HTML-sensitive characters escaped).
\<close>

theorem builder_roundtrip:
  assumes "ParseFluxJSONBody body = Some (flux, payload)"
    and "valid_utf8 nextFlux" and "TrimSpace nextFlux \<noteq> []"
  shows "\<exists>payload'. ParseFluxJSONBody (builder payload nextFlux) = Some (nextFlux, payload') \<and>
    (\<forall>k. k \<noteq> ''query'' \<longrightarrow> map_of payload' k = map_option jesc (map_of payload k))"
proof -
  define p where "p = AList.update ''query'' (JStr (appendString nextFlux)) payload"
  have "valid_utf8 ''query''" by code_simp
  then have "wf_payload p"
    using ParseFluxJSONBody_Some(2) [OF assms(1)] by (simp add: p_def wf_payload_update appendString_scan)
  from parse_marshalMap [OF this] obtain ms where ms: "parseJSON (builder payload nextFlux) = Some (JObj ms)"
    "map_of (objectPayload ms) = (\<lambda>k. map_option jesc (map_of p k))"
    by (auto simp: builder_def p_def)
  have "map_of (objectPayload ms) ''query'' = Some (JStr (appendString nextFlux))"
    by (simp add: ms(2) p_def AList.update_conv' htmlEscape_appendString)
  then have "ParseFluxJSONBody (builder payload nextFlux) = Some (nextFlux, objectPayload ms)"
    using assms(2,3) by (simp add: ParseFluxJSONBody_def ms(1) unquote_appendString)
  moreover have "map_of (objectPayload ms) k = map_option jesc (map_of payload k)" if "k \<noteq> ''query''" for k
    using that by (simp add: ms(2) p_def AList.update_conv')
  ultimately show ?thesis by blast
qed

definition exampleBody :: string where
  "exampleBody = [CHR ''{'', dquote] @ ''type'' @ [dquote, CHR '':'', CHR '' '', dquote] @ ''flux'' @ [dquote, CHR '','', dquote] @
     ''query'' @ [dquote, CHR '':'', dquote] @ ''from(b) |> range()'' @ [dquote, CHR ''}'']"

theorem builder_roundtrip_witness:
  "ParseFluxJSONBody exampleBody \<noteq> None \<and>
   fst (the (ParseFluxJSONBody (builder (snd (the (ParseFluxJSONBody exampleBody))) ''from(c) |> last()''))) = ''from(c) |> last()''"
proof -
  have *: "ParseFluxJSONBody exampleBody = Some (''from(b) |> range()'', [(''type'', JStr ''flux''), (''query'', JStr ''from(b) |> range()'')])"
    by code_simp
  moreover have "valid_utf8 ''from(c) |> last()''" "TrimSpace ''from(c) |> last()'' \<noteq> []" by code_simp+
  ultimately show ?thesis
    using builder_roundtrip [OF *, of "''from(c) |> last()''"] by auto
qed

text \<open>
  The preview of a query that goes to the log. It is on one line whatever the query, and at
  most the configured number of bytes plus the three dots; with no limit configured or a short
  query it is the query with every run of white space turned into one blank.
\<close>

lemma QueryPreview_one_line:
  "newline \<notin> set (QueryPreview query mx) \<and>
   (0 < mx \<longrightarrow> int (length (QueryPreview query mx)) \<le> mx + 3) \<and>
   (mx \<le> 0 \<longrightarrow> QueryPreview query mx = TrimSpace (Join (Fields query) '' ''))"
proof -
  have "newline \<notin> set f" if "f \<in> set (Fields query)" for f
    using fields_loop_no_space [OF newline_space, of "[]" f query] that by (simp add: Fields_def)
  then have "newline \<notin> set (Join (Fields query) '' '')"
    using set_Join [of "Fields query" "'' ''"] by auto
  then have "newline \<notin> set (TrimSpace (Join (Fields query) '' ''))"
    using TrimSpace_set by blast
  then show ?thesis
    by (auto simp: QueryPreview_def Let_def dest: in_set_takeD)
qed

text \<open>
  C16: the cutoff between the cached and the live segment. With a positive freshness window it
  is the last multiple of the window not after now, so all queries of one window get the same
  cutoff and can share the cached segment; it lags behind now by less than the window. Without
  a window it is now.
\<close>

theorem SplitCutoff_window:
  "(w \<le> 0 \<longrightarrow> SplitCutoff now w = now) \<and>
   (0 < w \<longrightarrow> w dvd SplitCutoff now w \<and> SplitCutoff now w \<le> now \<and> now < SplitCutoff now w + w \<and>
      (\<forall>t. SplitCutoff now w \<le> t \<and> t < SplitCutoff now w + w \<longrightarrow> SplitCutoff t w = SplitCutoff now w))"
proof (cases "0 < w")
  case True
  have c: "SplitCutoff t w = w * (t div w)" for t
    using True by (simp add: SplitCutoff_def time_Truncate_def minus_mod_eq_mult_div)
  have "t div w = now div w" if "w * (now div w) \<le> t" "t < w * (now div w) + w" for t
    using that True by (intro int_div_pos_eq [of t w "now div w" "t - w * (now div w)"]) auto
  moreover have "w * (now div w) \<le> now" "now < w * (now div w) + w"
    using True pos_mod_bound [of w now] pos_mod_sign [of w now] mult_div_mod_eq [of w now] by linarith+
  ultimately show ?thesis using True unfolding c by (metis dvd_triv_left not_le)
qed (simp add: SplitCutoff_def)

theorem SplitCutoff_window_witness: "SplitCutoff 47 15 = 45 \<and> SplitCutoff 59 15 = SplitCutoff 47 15"
proof -
  have "SplitCutoff 47 15 = 45" by code_simp
  moreover have "SplitCutoff 59 15 = SplitCutoff 47 15"
    using SplitCutoff_window [of 15 47] calculation by auto
  ultimately show ?thesis by blast
qed

end
