(* ===== verification/Config.thy ===== *)
theory Config
  imports World FluxUtils
begin

text \<open>
  \<open>internal/config/config.go\<close>: the records of the configuration, with the field names of the
  source, and \<open>LoadConfig\<close>. The environment of the process is the argument \<open>os_Getenv\<close>.
\<close>

record Target =
  Name :: string
  URL :: string
  Token :: string
  Weight :: int

record Config =
  HTTPAddr :: string
  GatewayToken :: string
  RedisAddr :: string
  UpstreamTimeout :: duration
  FreshnessWindow :: duration
  CacheTTL :: duration
  CacheTTLJitter :: duration
  CacheLockTTL :: duration
  CacheLockWait :: duration
  SlowQueryThreshold :: duration
  QueryPreviewChars :: int
  ForwardRetries :: int
  ProbeInterval :: duration
  BreakerFailures :: int
  BreakerCooldown :: duration
  Targets :: "Target list"

section \<open>Loading\<close>

datatype config_error = ErrTargetsRequired | ErrParseTargets | ErrNoTargets | ErrTokenRequired

definition getEnv :: "(string \<Rightarrow> string) \<Rightarrow> string \<Rightarrow> string \<Rightarrow> string" where
  "getEnv os_Getenv key def = (let v = os_Getenv key in if v \<noteq> [] then v else def)"

definition getEnvInt :: "(string \<Rightarrow> string) \<Rightarrow> string \<Rightarrow> int \<Rightarrow> int" where
  "getEnvInt os_Getenv key def =
     (let raw = os_Getenv key
      in if raw = [] then def
         else (case Atoi raw of None \<Rightarrow> def | Some v \<Rightarrow> v))"

text \<open>
  \<open>foldName\<close> of \<open>encoding/json\<close>, by which a key matches a field: ASCII letters in upper case, and
  the two runes outside ASCII (U+017F and U+212A) that fold to an ASCII letter.
\<close>

fun foldName :: "string \<Rightarrow> string" where
  "foldName (c # d # e # s) =
     (if [c, d] = [CHR 0xC5, CHR 0xBF] then CHR ''S'' # foldName (e # s)
      else if [c, d, e] = [CHR 0xE2, CHR 0x84, CHR 0xAA] then CHR ''K'' # foldName s
      else upper_byte c # foldName (d # e # s))"
| "foldName [c, d] =
     (if [c, d] = [CHR 0xC5, CHR 0xBF] then ''S'' else [upper_byte c, upper_byte d])"
| "foldName [c] = [upper_byte c]"
| "foldName [] = []"

text \<open>Decoding into a field: \<open>null\<close> leaves it alone, \<open>None\<close> is a type error.\<close>

fun decodeString :: "jv \<Rightarrow> string \<Rightarrow> string option" where
  "decodeString (JStr r) old = unquote r"
| "decodeString (JLit t) old = (if t = ''null'' then Some old else None)"
| "decodeString v old = None"

fun decodeInt :: "jv \<Rightarrow> int \<Rightarrow> int option" where
  "decodeInt (JLit t) old = (if t = ''null'' then Some old else Atoi t)"
| "decodeInt v old = None"

definition decodeField :: "Target \<Rightarrow> string \<times> jv \<Rightarrow> Target option" where
  "decodeField t m =
     (let key = foldName (unquoteKey (fst m))
      in if key = ''NAME'' then map_option (\<lambda>s. t\<lparr>Name := s\<rparr>) (decodeString (snd m) (Name t))
         else if key = ''URL'' then map_option (\<lambda>s. t\<lparr>URL := s\<rparr>) (decodeString (snd m) (URL t))
         else if key = ''TOKEN'' then map_option (\<lambda>s. t\<lparr>Token := s\<rparr>) (decodeString (snd m) (Token t))
         else if key = ''WEIGHT'' then map_option (\<lambda>n. t\<lparr>Weight := n\<rparr>) (decodeInt (snd m) (Weight t))
         else Some t)"

fun decodeFields :: "Target \<Rightarrow> (string \<times> jv) list \<Rightarrow> Target option" where
  "decodeFields t [] = Some t"
| "decodeFields t (m # ms) = (case decodeField t m of None \<Rightarrow> None | Some t' \<Rightarrow> decodeFields t' ms)"

definition zeroTarget :: Target where
  "zeroTarget = \<lparr>Name = [], URL = [], Token = [], Weight = 0\<rparr>"

fun decodeTarget :: "jv \<Rightarrow> Target option" where
  "decodeTarget (JObj ms) = decodeFields zeroTarget ms"
| "decodeTarget (JLit t) = (if t = ''null'' then Some zeroTarget else None)"
| "decodeTarget v = None"

fun decodeAll :: "jv list \<Rightarrow> Target list option" where
  "decodeAll [] = Some []"
| "decodeAll (v # vs) =
     (case (decodeTarget v, decodeAll vs) of (Some t, Some ts) \<Rightarrow> Some (t # ts) | _ \<Rightarrow> None)"

text \<open>\<open>json.Unmarshal([]byte(targetsJSON), &cfg.Targets)\<close>; \<open>None\<close>: the error.\<close>

definition unmarshalTargets :: "string \<Rightarrow> Target list option" where
  "unmarshalTargets s =
     (case parseJSON s of
        None \<Rightarrow> None
      | Some (JArr vs) \<Rightarrow> decodeAll vs
      | Some (JLit t) \<Rightarrow> if t = ''null'' then Some [] else None
      | Some v \<Rightarrow> None)"

definition envDuration :: "(string \<Rightarrow> string) \<Rightarrow> string \<Rightarrow> int \<Rightarrow> duration \<Rightarrow> duration" where
  "envDuration os_Getenv key def unit = wrap64 (getEnvInt os_Getenv key def * unit)"

text \<open>The composite literal at the head of \<open>LoadConfig\<close>.\<close>

definition envConfig :: "(string \<Rightarrow> string) \<Rightarrow> Config" where
  "envConfig os_Getenv =
     \<lparr>HTTPAddr = getEnv os_Getenv ''HTTP_ADDR'' '':8080'',
      GatewayToken = os_Getenv ''GATEWAY_TOKEN'',
      RedisAddr = getEnv os_Getenv ''REDIS_ADDR'' ''redis:6379'',
      UpstreamTimeout = envDuration os_Getenv ''UPSTREAM_TIMEOUT_SECONDS'' 60 second,
      FreshnessWindow = envDuration os_Getenv ''FRESHNESS_WINDOW_SECONDS'' 15 second,
      CacheTTL = envDuration os_Getenv ''CACHE_TTL_SECONDS'' 60 second,
      CacheTTLJitter = envDuration os_Getenv ''CACHE_TTL_JITTER_SECONDS'' 5 second,
      CacheLockTTL = envDuration os_Getenv ''CACHE_LOCK_TTL_SECONDS'' 5 second,
      CacheLockWait = envDuration os_Getenv ''CACHE_LOCK_WAIT_MILLISECONDS'' 800 millisecond,
      SlowQueryThreshold = envDuration os_Getenv ''SLOW_QUERY_THRESHOLD_MILLISECONDS'' 2000 millisecond,
      QueryPreviewChars = getEnvInt os_Getenv ''QUERY_PREVIEW_CHARS'' 240,
      ForwardRetries = getEnvInt os_Getenv ''FORWARD_RETRIES'' 1,
      ProbeInterval = envDuration os_Getenv ''PROBE_INTERVAL_SECONDS'' 10 second,
      BreakerFailures = getEnvInt os_Getenv ''BREAKER_FAILURES'' 3,
      BreakerCooldown = envDuration os_Getenv ''BREAKER_COOLDOWN_SECONDS'' 20 second,
      Targets = []\<rparr>"

definition LoadConfig :: "(string \<Rightarrow> string) \<Rightarrow> config_error + Config" where
  "LoadConfig os_Getenv =
     (let cfg = envConfig os_Getenv;
          targetsJSON = os_Getenv ''TARGETS_JSON''
      in if targetsJSON = [] then Inl ErrTargetsRequired
         else case unmarshalTargets targetsJSON of
           None \<Rightarrow> Inl ErrParseTargets
         | Some ts \<Rightarrow>
             if length ts = 0 then Inl ErrNoTargets
             else
               (let cfg = cfg\<lparr>Targets := map (\<lambda>t. if Weight t \<le> 0 then t\<lparr>Weight := 1\<rparr> else t) ts\<rparr>
                in if GatewayToken cfg = [] then Inl ErrTokenRequired
                   else
                     (let cfg = (if CacheTTLJitter cfg < 0 then cfg\<lparr>CacheTTLJitter := 0\<rparr> else cfg);
                          cfg = (if QueryPreviewChars cfg < 0 then cfg\<lparr>QueryPreviewChars := 0\<rparr> else cfg)
                      in Inr cfg)))"

section \<open>What is loaded\<close>

text \<open>Every number of a configuration is a 64-bit integer.\<close>

definition numbersOk :: "Config \<Rightarrow> bool" where
  "numbersOk cfg \<longleftrightarrow>
     list_all in_int64 [UpstreamTimeout cfg, FreshnessWindow cfg, CacheTTL cfg, CacheTTLJitter cfg, CacheLockTTL cfg,
       CacheLockWait cfg, SlowQueryThreshold cfg, QueryPreviewChars cfg, ForwardRetries cfg, ProbeInterval cfg,
       BreakerFailures cfg, BreakerCooldown cfg]"

text \<open>The configurations the gateway runs with.\<close>

definition configOk :: "Config \<Rightarrow> bool" where
  "configOk cfg \<longleftrightarrow>
     GatewayToken cfg \<noteq> [] \<and> Targets cfg \<noteq> [] \<and> list_all (\<lambda>t. 1 \<le> Weight t \<and> in_int64 (Weight t)) (Targets cfg) \<and>
     0 \<le> CacheTTLJitter cfg \<and> 0 \<le> QueryPreviewChars cfg \<and> numbersOk cfg"

lemma Atoi_range: "Atoi s = Some n \<Longrightarrow> in_int64 n"
  by (auto simp: Atoi_def Let_def in_int64_def split: if_splits list.splits)

lemma getEnvInt_range: "in_int64 def \<Longrightarrow> in_int64 (getEnvInt os_Getenv key def)"
  by (auto simp: getEnvInt_def Let_def Atoi_range split: option.splits)

lemma GatewayToken_envConfig [simp]: "GatewayToken (envConfig os_Getenv) = os_Getenv ''GATEWAY_TOKEN''"
  by (simp add: envConfig_def)

lemma envConfig_numbers: "numbersOk (envConfig os_Getenv)"
proof -
  have "in_int64 240" "in_int64 1" "in_int64 3" by (simp_all add: in_int64_def)
  then show ?thesis
    by (simp add: numbersOk_def envConfig_def envDuration_def getEnvInt_range)
qed

lemma decodeField_weight: "decodeField t m = Some t' \<Longrightarrow> in_int64 (Weight t) \<Longrightarrow> in_int64 (Weight t')"
  by (cases "snd m") (auto simp: decodeField_def Let_def Atoi_range split: if_splits)

lemma decodeFields_weight: "decodeFields t ms = Some t' \<Longrightarrow> in_int64 (Weight t) \<Longrightarrow> in_int64 (Weight t')"
  by (induction t ms rule: decodeFields.induct) (auto split: option.splits dest: decodeField_weight)

lemma decodeTarget_weight: "decodeTarget v = Some t \<Longrightarrow> in_int64 (Weight t)"
  by (cases v) (auto simp: zeroTarget_def in_int64_def split: if_splits dest!: decodeFields_weight)

lemma decodeAll_weight: "decodeAll vs = Some ts \<Longrightarrow> t \<in> set ts \<Longrightarrow> in_int64 (Weight t)"
  by (induction vs arbitrary: ts) (auto split: option.splits dest: decodeTarget_weight)

lemma unmarshalTargets_weight: "unmarshalTargets s = Some ts \<Longrightarrow> t \<in> set ts \<Longrightarrow> in_int64 (Weight t)"
  by (auto simp: unmarshalTargets_def decodeAll_weight split: option.splits jv.splits if_splits)

lemma LoadConfig_ok:
  assumes "LoadConfig os_Getenv = Inr cfg"
  shows "configOk cfg \<and> GatewayToken cfg = os_Getenv ''GATEWAY_TOKEN'' \<and>
    (\<exists>ts. unmarshalTargets (os_Getenv ''TARGETS_JSON'') = Some ts \<and>
       Targets cfg = map (\<lambda>t. t\<lparr>Weight := max 1 (Weight t)\<rparr>) ts)"
proof -
  from assms obtain ts where ts: "unmarshalTargets (os_Getenv ''TARGETS_JSON'') = Some ts" "ts \<noteq> []"
    "GatewayToken (envConfig os_Getenv) \<noteq> []" "os_Getenv ''TARGETS_JSON'' \<noteq> []"
    by (auto simp: LoadConfig_def Let_def split: if_splits option.splits)
  have w: "(if Weight t \<le> 0 then t\<lparr>Weight := 1\<rparr> else t) = t\<lparr>Weight := max 1 (Weight t)\<rparr>" for t :: Target
    by auto
  define c0 where "c0 = envConfig os_Getenv"
  have c0: "numbersOk c0" "GatewayToken c0 = os_Getenv ''GATEWAY_TOKEN''"
    by (simp_all add: c0_def envConfig_numbers)
  have "in_int64 (max 1 (Weight t))" if "t \<in> set ts" for t
    using unmarshalTargets_weight [OF ts(1) that] by (auto simp: in_int64_def)
  moreover have "in_int64 0" by (simp add: in_int64_def)
  moreover have "cfg = c0\<lparr>Targets := map (\<lambda>t. t\<lparr>Weight := max 1 (Weight t)\<rparr>) ts,
      CacheTTLJitter := max 0 (CacheTTLJitter c0), QueryPreviewChars := max 0 (QueryPreviewChars c0)\<rparr>"
    using assms ts by (auto simp: LoadConfig_def Let_def w simp flip: c0_def)
  ultimately show ?thesis
    using assms ts c0 by (auto simp: configOk_def numbersOk_def list_all_iff max_def simp flip: c0_def)
qed

section \<open>Claims\<close>

text \<open>
  C40: a configuration that loads is fit to run with: there is a gateway token and at least one
  target, every target has a weight of at least one, the jitter and the preview length are not
  negative, and every number is a 64-bit integer (multiplying by the unit wraps). Loading fails
  in exactly four cases, checked in this order: no \<open>TARGETS_JSON\<close>, one that does not decode, an
  empty list of targets, no gateway token.
\<close>

theorem LoadConfig_total:
  "case LoadConfig os_Getenv of
     Inr cfg \<Rightarrow> configOk cfg \<and> GatewayToken cfg = os_Getenv ''GATEWAY_TOKEN'' \<and>
       (\<exists>ts. unmarshalTargets (os_Getenv ''TARGETS_JSON'') = Some ts \<and>
          Targets cfg = map (\<lambda>t. t\<lparr>Weight := max 1 (Weight t)\<rparr>) ts)
   | Inl ErrTargetsRequired \<Rightarrow> os_Getenv ''TARGETS_JSON'' = []
   | Inl ErrParseTargets \<Rightarrow> os_Getenv ''TARGETS_JSON'' \<noteq> [] \<and> unmarshalTargets (os_Getenv ''TARGETS_JSON'') = None
   | Inl ErrNoTargets \<Rightarrow> unmarshalTargets (os_Getenv ''TARGETS_JSON'') = Some []
   | Inl ErrTokenRequired \<Rightarrow> os_Getenv ''GATEWAY_TOKEN'' = []"
proof (cases "LoadConfig os_Getenv")
  case (Inl e)
  then show ?thesis
    by (auto simp: LoadConfig_def Let_def split: if_splits option.splits)
next
  case (Inr cfg)
  then show ?thesis using LoadConfig_ok [OF Inr] by simp
qed

text \<open>An example: two targets of different weights, the rest as by default.\<close>

definition exampleTargets :: "Target list" where
  "exampleTargets =
     [\<lparr>Name = ''a'', URL = ''http://a:8086'', Token = ''ta'', Weight = 2\<rparr>,
      \<lparr>Name = ''b'', URL = ''http://b:8086'', Token = ''tb'', Weight = 1\<rparr>]"

definition exampleConfig :: Config where
  "exampleConfig =
     \<lparr>HTTPAddr = '':8080'', GatewayToken = ''secret'', RedisAddr = ''redis:6379'',
      UpstreamTimeout = 60 * second, FreshnessWindow = 15 * second, CacheTTL = 60 * second,
      CacheTTLJitter = 5 * second, CacheLockTTL = 5 * second, CacheLockWait = 800 * millisecond,
      SlowQueryThreshold = 2000 * millisecond, QueryPreviewChars = 240, ForwardRetries = 1,
      ProbeInterval = 10 * second, BreakerFailures = 3, BreakerCooldown = 20 * second,
      Targets = exampleTargets\<rparr>"

end
