(* ===== verification/Upstream.thy ===== *)
theory Upstream
  imports Config
begin

text \<open>
  \<open>internal/upstream/manager.go\<close>: weighted round robin over the targets, a circuit breaker per
  target and the probing of the targets. The manager's fields that change (\<open>rr\<close> and
  \<open>targetStates\<close>) are the record \<open>manager\<close>; the effectful operations run on \<open>gw\<close>, the host
  extended by the manager. The sections after the model relate the operations to pure functions
  on \<open>manager\<close> and to a history of outcomes, and prove the round robin fair.
\<close>

section \<open>State\<close>

record targetState =
  consecutiveFailures :: int
  circuitOpenUntil :: instant

record manager =
  rr :: "64 word"
  targetStates :: "string \<rightharpoonup> targetState"

text \<open>\<open>&targetState{}\<close>: no failures, and the zero time.\<close>

definition newState :: targetState where
  "newState = \<lparr>consecutiveFailures = 0, circuitOpenUntil = 0\<rparr>"

record 'e gw = "'e host" +
  mgr :: manager

type_synonym ('e, 'x, 'a) gwio = "(('e, 'x) gw_scheme, 'a) state"

definition get_mgr :: "('e, 'x, manager) gwio" where
  "get_mgr = State (\<lambda>s. (mgr s, s))"

definition modify_mgr :: "(manager \<Rightarrow> manager) \<Rightarrow> ('e, 'x, unit) gwio" where
  "modify_mgr f = State_Monad.update (\<lambda>s. s\<lparr>mgr := f (mgr s)\<rparr>)"

section \<open>Operations\<close>

text \<open>The manager that \<open>NewManager\<close> builds, and whether it starts the health loop.\<close>

definition NewManager :: "Config \<Rightarrow> manager \<times> bool" where
  "NewManager cfg =
     (\<lparr>rr = 0, targetStates = foldl (\<lambda>out t. out(Name t \<mapsto> newState)) Map.empty (Targets cfg)\<rparr>,
      ProbeInterval cfg > 0)"

definition isOpen :: "manager \<Rightarrow> instant \<Rightarrow> string \<Rightarrow> bool" where
  "isOpen m now name = (case targetStates m name of None \<Rightarrow> False | Some st \<Rightarrow> now < circuitOpenUntil st)"

text \<open>
  The loop of \<open>PickTarget\<close> over the targets: the lists \<open>weighted\<close> and \<open>fallback\<close>, each target
  as often as its weight says.
\<close>

fun collect :: "manager \<Rightarrow> instant \<Rightarrow> string set \<Rightarrow> Target list \<Rightarrow> Target list \<Rightarrow> Target list \<Rightarrow>
    Target list \<times> Target list" where
  "collect m now exclude weighted fallback [] = (weighted, fallback)"
| "collect m now exclude weighted fallback (t # ts) =
     (if Name t \<in> exclude then collect m now exclude weighted fallback ts
      else collect m now exclude
             (if isOpen m now (Name t) then weighted else weighted @ replicate (nat (Weight t)) t)
             (fallback @ replicate (nat (Weight t)) t) ts)"

definition candidatesFor :: "Config \<Rightarrow> manager \<Rightarrow> instant \<Rightarrow> string set \<Rightarrow> Target list" where
  "candidatesFor cfg m now exclude =
     (case collect m now exclude [] [] (Targets cfg) of (weighted, fallback) \<Rightarrow>
        if length weighted = 0 then fallback else weighted)"

text \<open>\<open>candidates[idx%uint64(len(candidates))]\<close>.\<close>

definition atIndex :: "Target list \<Rightarrow> 64 word \<Rightarrow> Target" where
  "atIndex candidates idx = candidates ! unat (idx mod of_nat (length candidates))"

definition PickTarget :: "'e env \<Rightarrow> Config \<Rightarrow> string set \<Rightarrow> ('e, 'x, Target option) gwio" where
  "PickTarget env cfg exclude = do {
     now \<leftarrow> time_Now env;
     m \<leftarrow> get_mgr;
     let candidates = candidatesFor cfg m now exclude;
     if length candidates = 0 then State_Monad.return None
     else do {
       modify_mgr (\<lambda>m. m\<lparr>rr := rr m + 1\<rparr>);
       m \<leftarrow> get_mgr;
       State_Monad.return (Some (atIndex candidates (rr m)))
     }
   }"

text \<open>The state of a target, inserted into the map when it is missing.\<close>

definition ensureStateLocked :: "string \<Rightarrow> manager \<Rightarrow> targetState \<times> manager" where
  "ensureStateLocked name m =
     (case targetStates m name of
        Some st \<Rightarrow> (st, m)
      | None \<Rightarrow> (newState, m\<lparr>targetStates := (targetStates m)(name \<mapsto> newState)\<rparr>))"

text \<open>Assignment through the pointer that \<open>ensureStateLocked\<close> returns.\<close>

definition putState :: "string \<Rightarrow> targetState \<Rightarrow> manager \<Rightarrow> manager" where
  "putState name st m = m\<lparr>targetStates := (targetStates m)(name \<mapsto> st)\<rparr>"

definition RecordSuccess :: "string \<Rightarrow> ('e, 'x, unit) gwio" where
  "RecordSuccess name =
     modify_mgr (\<lambda>m. case ensureStateLocked name m of (st, m) \<Rightarrow>
       putState name (st\<lparr>consecutiveFailures := 0, circuitOpenUntil := 0\<rparr>) m)"

definition RecordFailure :: "'e env \<Rightarrow> Config \<Rightarrow> string \<Rightarrow> ('e, 'x, unit) gwio" where
  "RecordFailure env cfg name = do {
     m \<leftarrow> get_mgr;
     let (st, m1) = ensureStateLocked name m;
     let st = st\<lparr>consecutiveFailures := wrap64 (consecutiveFailures st + 1)\<rparr>;
     modify_mgr (\<lambda>_. putState name st m1);
     if consecutiveFailures st \<ge> BreakerFailures cfg then do {
       now \<leftarrow> time_Now env;
       modify_mgr (putState name (st\<lparr>circuitOpenUntil := now + BreakerCooldown cfg, consecutiveFailures := 0\<rparr>));
       emit (Slog LevelInfo ''target circuit opened''
               [(''target'', AStr name), (''duration'', AInt (BreakerCooldown cfg))])
     }
     else State_Monad.return ()
   }"

text \<open>The body of \<open>healthLoop\<close> for one target, and the loop over the targets at one tick.\<close>

definition probeTarget :: "'e env \<Rightarrow> Config \<Rightarrow> Target \<Rightarrow> ('e, 'x, unit) gwio" where
  "probeTarget env cfg target =
     (case url_JoinPath env (URL target) ''/health'' of
        Inl err \<Rightarrow> RecordFailure env cfg (Name target)
      | Inr healthURL \<Rightarrow>
          (case http_NewRequest env ''GET'' healthURL of
             Some err \<Rightarrow> RecordFailure env cfg (Name target)
           | None \<Rightarrow> do {
               let req = \<lparr>rq_method = ''GET'', rq_url = healthURL, rq_header = [], rq_body = []\<rparr>;
               resp \<leftarrow> client_Do env req;
               (case resp of
                  Inl err \<Rightarrow> RecordFailure env cfg (Name target)
                | Inr resp \<Rightarrow>
                    if go_div (rs_status resp) 100 = 2 then RecordSuccess (Name target)
                    else RecordFailure env cfg (Name target))
             }))"

primrec probeTargets :: "'e env \<Rightarrow> Config \<Rightarrow> Target list \<Rightarrow> ('e, 'x, unit) gwio" where
  "probeTargets env cfg [] = State_Monad.return ()"
| "probeTargets env cfg (t # ts) = do { probeTarget env cfg t; probeTargets env cfg ts }"

definition healthTick :: "'e env \<Rightarrow> Config \<Rightarrow> ('e, 'x, unit) gwio" where
  "healthTick env cfg = probeTargets env cfg (Targets cfg)"

section \<open>The operations as functions on the manager\<close>

definition stateOf :: "manager \<Rightarrow> string \<Rightarrow> targetState" where
  "stateOf m name = (case targetStates m name of None \<Rightarrow> newState | Some st \<Rightarrow> st)"

definition noteFailure :: "Config \<Rightarrow> instant \<Rightarrow> targetState \<Rightarrow> targetState" where
  "noteFailure cfg now st =
     (let n = wrap64 (consecutiveFailures st + 1)
      in if n \<ge> BreakerFailures cfg
         then st\<lparr>circuitOpenUntil := now + BreakerCooldown cfg, consecutiveFailures := 0\<rparr>
         else st\<lparr>consecutiveFailures := n\<rparr>)"

lemma run_get_mgr [simp]: "run_state get_mgr s = (mgr s, s)"
  by (simp add: get_mgr_def)

lemma run_modify_mgr [simp]: "run_state (modify_mgr f) s = ((), s\<lparr>mgr := f (mgr s)\<rparr>)"
  by (simp add: modify_mgr_def)

lemma putState_putState [simp]: "putState name st (putState name st' m) = putState name st m"
  by (simp add: putState_def)

lemma stateOf_putState: "stateOf (putState name st m) name' = (if name' = name then st else stateOf m name')"
  by (simp add: stateOf_def putState_def)

lemma rr_putState [simp]: "rr (putState name st m) = rr m"
  by (simp add: putState_def)

lemma ensureStateLocked_eq:
  "fst (ensureStateLocked name m) = stateOf m name"
  "putState name st (snd (ensureStateLocked name m)) = putState name st m"
  by (auto simp: ensureStateLocked_def stateOf_def putState_def split: option.splits)

lemma reset_state [simp]: "(st :: targetState)\<lparr>consecutiveFailures := 0, circuitOpenUntil := 0\<rparr> = newState"
  by (cases st) (simp add: newState_def)

lemma run_RecordSuccess:
  "run_state (RecordSuccess name) s = ((), s\<lparr>mgr := putState name newState (mgr s)\<rparr>)"
  using ensureStateLocked_eq(2) [where m = "mgr s" and name = name]
  by (cases "ensureStateLocked name (mgr s)") (simp add: RecordSuccess_def)

lemma run_RecordFailure:
  "\<exists>s1. run_state (RecordFailure env cfg name) s = ((), s1) \<and> clk s \<le> clk s1 \<and>
     mgr s1 = putState name (noteFailure cfg (clk s1) (stateOf (mgr s) name)) (mgr s)"
  using ensureStateLocked_eq [where m = "mgr s" and name = name]
  by (cases "ensureStateLocked name (mgr s)") (simp add: RecordFailure_def noteFailure_def Let_def run_time_Now)

section \<open>Steps of the manager\<close>

text \<open>
  The critical sections of the operations, in any order and interleaved with the passing of
  time: what any number of requests and the health loop can do to the manager together.
\<close>

inductive mgr_step :: "Config \<Rightarrow> instant \<times> manager \<Rightarrow> instant \<times> manager \<Rightarrow> bool" for cfg where
  tick: "t \<le> t' \<Longrightarrow> mgr_step cfg (t, m) (t', m)"
| pick: "mgr_step cfg (t, m) (t, m\<lparr>rr := rr m + 1\<rparr>)"
| success: "mgr_step cfg (t, m) (t, putState name newState m)"
| failure: "mgr_step cfg (t, m) (t, putState name (noteFailure cfg t (stateOf m name)) m)"

inductive_cases mgr_stepE: "mgr_step cfg c c'"

named_theorems steps_rules \<open>rules for \<open>steps\<close>, one per program construct\<close>

text \<open>A program moves clock and manager only by such steps.\<close>

definition steps :: "Config \<Rightarrow> ('e, 'x, 'a) gwio \<Rightarrow> bool" where
  "steps cfg p \<longleftrightarrow>
     (\<forall>s. (mgr_step cfg)\<^sup>*\<^sup>* (clk s, mgr s) (clk (snd (run_state p s)), mgr (snd (run_state p s))))"

lemma stepsD: "steps cfg p \<Longrightarrow> run_state p s = (a, s') \<Longrightarrow> (mgr_step cfg)\<^sup>*\<^sup>* (clk s, mgr s) (clk s', mgr s')"
  by (metis snd_conv steps_def)

lemma steps_return [steps_rules]: "steps cfg (State_Monad.return a)"
  by (simp add: steps_def)

lemma steps_emit [steps_rules]: "steps cfg (emit ev)"
  by (simp add: steps_def)

lemma steps_external [steps_rules]: "steps cfg (external f)"
  by (simp add: steps_def run_external)

lemma steps_client_Do [steps_rules]: "steps cfg (client_Do env req)"
  by (simp add: steps_def run_client_Do)

lemma steps_get_mgr [steps_rules]: "steps cfg get_mgr"
  by (simp add: steps_def)

lemma steps_time_Now [steps_rules]: "steps cfg (time_Now env)"
  by (simp add: steps_def run_time_Now mgr_step.tick r_into_rtranclp)

lemma steps_time_Sleep [steps_rules]: "steps cfg (time_Sleep d)"
  by (simp add: steps_def mgr_step.tick r_into_rtranclp)

lemma steps_bind [steps_rules]:
  assumes "steps cfg m" and "\<And>a. steps cfg (f a)"
  shows "steps cfg (State_Monad.bind m f)"
  unfolding steps_def
proof
  fix s
  obtain a s1 where m: "run_state m s = (a, s1)" by (cases "run_state m s")
  obtain b s2 where f: "run_state (f a) s1 = (b, s2)" by (cases "run_state (f a) s1")
  from stepsD [OF assms(1) m] stepsD [OF assms(2) f]
  have "(mgr_step cfg)\<^sup>*\<^sup>* (clk s, mgr s) (clk s2, mgr s2)" by (rule rtranclp_trans)
  with m f show "(mgr_step cfg)\<^sup>*\<^sup>* (clk s, mgr s)
      (clk (snd (run_state (State_Monad.bind m f) s)), mgr (snd (run_state (State_Monad.bind m f) s)))"
    by simp
qed

lemma steps_if [steps_rules]: "(b \<Longrightarrow> steps cfg m) \<Longrightarrow> (\<not> b \<Longrightarrow> steps cfg m') \<Longrightarrow> steps cfg (if b then m else m')"
  by simp

lemma steps_sum [steps_rules]:
  "(\<And>a. x = Inl a \<Longrightarrow> steps cfg (f a)) \<Longrightarrow> (\<And>b. x = Inr b \<Longrightarrow> steps cfg (g b)) \<Longrightarrow> steps cfg (case x of Inl a \<Rightarrow> f a | Inr b \<Rightarrow> g b)"
  by (cases x) auto

lemma steps_option [steps_rules]:
  "(x = None \<Longrightarrow> steps cfg f) \<Longrightarrow> (\<And>b. x = Some b \<Longrightarrow> steps cfg (g b)) \<Longrightarrow> steps cfg (case x of None \<Rightarrow> f | Some b \<Rightarrow> g b)"
  by (cases x) auto

lemma steps_prod [steps_rules]:
  "(\<And>a b. x = (a, b) \<Longrightarrow> steps cfg (f a b)) \<Longrightarrow> steps cfg (case x of (a, b) \<Rightarrow> f a b)"
  by (cases x) auto

lemma steps_bool [steps_rules]:
  "(x \<Longrightarrow> steps cfg f) \<Longrightarrow> (\<not> x \<Longrightarrow> steps cfg g) \<Longrightarrow> steps cfg (case x of True \<Rightarrow> f | False \<Rightarrow> g)"
  by (cases x) auto

lemma steps_time_Since [steps_rules]: "steps cfg (time_Since env t)"
  unfolding time_Since_def by (intro steps_rules)

lemma steps_RecordSuccess [steps_rules]: "steps cfg (RecordSuccess name)"
  by (simp add: steps_def run_RecordSuccess mgr_step.success r_into_rtranclp)

lemma steps_RecordFailure [steps_rules]: "steps cfg (RecordFailure env cfg name)"
  unfolding steps_def
proof
  fix s
  obtain s1 where "run_state (RecordFailure env cfg name) s = ((), s1)" "clk s \<le> clk s1"
    "mgr s1 = putState name (noteFailure cfg (clk s1) (stateOf (mgr s) name)) (mgr s)"
    using run_RecordFailure by blast
  moreover have "mgr_step cfg (clk s, mgr s) (clk s1, mgr s)" if "clk s \<le> clk s1"
    using that by (rule mgr_step.tick)
  moreover have "mgr_step cfg (clk s1, mgr s) (clk s1, putState name (noteFailure cfg (clk s1) (stateOf (mgr s) name)) (mgr s))"
    by (rule mgr_step.failure)
  ultimately show "(mgr_step cfg)\<^sup>*\<^sup>* (clk s, mgr s)
      (clk (snd (run_state (RecordFailure env cfg name) s)), mgr (snd (run_state (RecordFailure env cfg name) s)))"
    by (simp add: converse_rtranclp_into_rtranclp r_into_rtranclp)
qed

lemma steps_PickTarget [steps_rules]: "steps cfg (PickTarget env cfg exclude)"
proof -
  have "steps cfg (modify_mgr (\<lambda>m. m\<lparr>rr := rr m + 1\<rparr>))"
    by (simp add: steps_def mgr_step.pick r_into_rtranclp)
  then show ?thesis
    unfolding PickTarget_def Let_def by (intro steps_rules)
qed

lemma steps_probeTarget [steps_rules]: "steps cfg (probeTarget env cfg t)"
  unfolding probeTarget_def Let_def by (intro steps_rules)

lemma steps_healthTick [steps_rules]: "steps cfg (healthTick env cfg)"
proof -
  have "steps cfg (probeTargets env cfg ts)" for ts
    by (induction ts) (auto intro!: steps_rules)
  then show ?thesis by (simp add: healthTick_def)
qed

section \<open>The breaker\<close>

text \<open>
  The invariant of every reachable manager: a failure count stays below the threshold (so it
  never wraps) and no circuit is open for longer than the cooldown from now.
\<close>

definition mgr_inv :: "Config \<Rightarrow> instant \<times> manager \<Rightarrow> bool" where
  "mgr_inv cfg c \<longleftrightarrow>
     (\<forall>name. 0 \<le> consecutiveFailures (stateOf (snd c) name) \<and>
             consecutiveFailures (stateOf (snd c) name) < max 1 (BreakerFailures cfg) \<and>
             circuitOpenUntil (stateOf (snd c) name) \<le> max 0 (fst c + BreakerCooldown cfg))"

lemma noteFailure_bounds:
  assumes "in_int64 (BreakerFailures cfg)"
    and "0 \<le> consecutiveFailures st" "consecutiveFailures st < max 1 (BreakerFailures cfg)"
  shows "0 \<le> consecutiveFailures (noteFailure cfg t st)"
    and "consecutiveFailures (noteFailure cfg t st) < max 1 (BreakerFailures cfg)"
    and "consecutiveFailures st + 1 < BreakerFailures cfg \<Longrightarrow>
           noteFailure cfg t st = st\<lparr>consecutiveFailures := consecutiveFailures st + 1\<rparr>"
    and "BreakerFailures cfg \<le> consecutiveFailures st + 1 \<Longrightarrow>
           noteFailure cfg t st = \<lparr>consecutiveFailures = 0, circuitOpenUntil = t + BreakerCooldown cfg\<rparr>"
proof -
  have "wrap64 (consecutiveFailures st + 1) = consecutiveFailures st + 1"
    using assms by (intro wrap64_id) (auto simp: in_int64_def)
  with assms show "0 \<le> consecutiveFailures (noteFailure cfg t st)"
    "consecutiveFailures (noteFailure cfg t st) < max 1 (BreakerFailures cfg)"
    "consecutiveFailures st + 1 < BreakerFailures cfg \<Longrightarrow>
       noteFailure cfg t st = st\<lparr>consecutiveFailures := consecutiveFailures st + 1\<rparr>"
    "BreakerFailures cfg \<le> consecutiveFailures st + 1 \<Longrightarrow>
       noteFailure cfg t st = \<lparr>consecutiveFailures = 0, circuitOpenUntil = t + BreakerCooldown cfg\<rparr>"
    by (auto simp: noteFailure_def Let_def)
qed

lemma mgr_inv_step:
  assumes "in_int64 (BreakerFailures cfg)" and "mgr_step cfg c c'" and "mgr_inv cfg c"
  shows "mgr_inv cfg c'"
  using assms(2)
proof cases
  case (failure t m name)
  have *: "circuitOpenUntil (noteFailure cfg t st) \<le> max 0 (t + BreakerCooldown cfg)"
    if "circuitOpenUntil st \<le> max 0 (t + BreakerCooldown cfg)" for st
    using that by (auto simp: noteFailure_def Let_def)
  with failure assms(1,3) show ?thesis
    by (auto simp: mgr_inv_def stateOf_putState noteFailure_bounds)
next
  case (tick t t' m)
  with assms(3) show ?thesis
    by (auto simp: mgr_inv_def) (smt (verit))
qed (use assms(3) in \<open>auto simp: mgr_inv_def stateOf_def putState_def newState_def\<close>)

lemma mgr_inv_steps:
  assumes "in_int64 (BreakerFailures cfg)" and "(mgr_step cfg)\<^sup>*\<^sup>* c c'" and "mgr_inv cfg c"
  shows "mgr_inv cfg c'"
  using assms(2,3) by induction (auto intro: mgr_inv_step [OF assms(1)])

lemma stateOf_NewManager [simp]: "stateOf (fst (NewManager cfg)) name = newState"
proof -
  have "m name = None \<or> m name = Some newState \<Longrightarrow>
      foldl (\<lambda>out t. out(Name t \<mapsto> newState)) m ts name = None \<or>
      foldl (\<lambda>out t. out(Name t \<mapsto> newState)) m ts name = Some newState" for ts m
    by (induction ts arbitrary: m) auto
  from this [of Map.empty "Targets cfg"] show ?thesis
    by (auto simp: NewManager_def stateOf_def)
qed

lemma mgr_inv_NewManager: "mgr_inv cfg (t, fst (NewManager cfg))"
  by (simp add: mgr_inv_def newState_def)

text \<open>
  The contract of the breaker in terms of what was reported: the failures of a target since its
  last success decide its state. With threshold \<open>k\<close> every \<open>k\<close>-th of them opens the circuit
  until that failure's time plus the cooldown.
\<close>

datatype outcome = Success string | Failure string instant

fun applyOutcome :: "Config \<Rightarrow> manager \<Rightarrow> outcome \<Rightarrow> manager" where
  "applyOutcome cfg m (Success name) = putState name newState m"
| "applyOutcome cfg m (Failure name t) = putState name (noteFailure cfg t (stateOf m name)) m"

fun noteTimes :: "string \<Rightarrow> instant list \<Rightarrow> outcome \<Rightarrow> instant list" where
  "noteTimes name ts (Success n) = (if n = name then [] else ts)"
| "noteTimes name ts (Failure n t) = (if n = name then ts @ [t] else ts)"

definition failuresSince :: "string \<Rightarrow> outcome list \<Rightarrow> instant list" where
  "failuresSince name hist = foldl (noteTimes name) [] hist"

definition breakerSpec :: "Config \<Rightarrow> instant list \<Rightarrow> targetState" where
  "breakerSpec cfg ts =
     (let k = max 1 (nat (BreakerFailures cfg)); q = length ts div k
      in \<lparr>consecutiveFailures = int (length ts mod k),
          circuitOpenUntil = (if q = 0 then 0 else ts ! (q * k - 1) + BreakerCooldown cfg)\<rparr>)"

lemma breakerSpec_snoc:
  assumes "in_int64 (BreakerFailures cfg)"
  shows "noteFailure cfg t (breakerSpec cfg ts) = breakerSpec cfg (ts @ [t])"
proof -
  define k where "k = max 1 (nat (BreakerFailures cfg))"
  have k: "0 < k" "int k = max 1 (BreakerFailures cfg)" by (auto simp: k_def)
  define n where "n = length ts"
  have spec: "breakerSpec cfg us = \<lparr>consecutiveFailures = int (length us mod k), circuitOpenUntil =
      (if length us div k = 0 then 0 else us ! (length us div k * k - 1) + BreakerCooldown cfg)\<rparr>" for us
    by (simp only: breakerSpec_def Let_def k_def)
  have cf: "consecutiveFailures (breakerSpec cfg ts) = int (n mod k)"
    by (simp add: spec n_def)
  have b: "0 \<le> int (n mod k)" "int (n mod k) < max 1 (BreakerFailures cfg)"
    using k by (simp_all flip: k(2))
  note nf = noteFailure_bounds(3,4) [OF assms, of "breakerSpec cfg ts" t, unfolded cf, OF b]
  show ?thesis
  proof (cases "Suc (n mod k) < k")
    case True
    then have "Suc n mod k = Suc (n mod k)" "Suc n div k = n div k"
      by (auto simp: mod_Suc div_Suc)
    moreover have "n div k * k - 1 < n" if "n div k \<noteq> 0"
      using that k div_times_less_eq_dividend [of n k]
      by (metis Suc_pred' diff_less less_le_trans mult_pos_pos neq0_conv zero_less_one)
    moreover have "int (n mod k) + 1 < BreakerFailures cfg" using True k by linarith
    ultimately show ?thesis
      using nf(1) by (simp add: spec nth_append flip: n_def)
  next
    case False
    then have e: "Suc (n mod k) = k" using k by (metis Suc_lessI mod_less_divisor)
    then have "Suc n mod k = 0" "Suc n div k = Suc (n div k)"
      by (auto simp: mod_Suc div_Suc)
    moreover have "k + n div k * k - Suc 0 = n"
      using e div_mult_mod_eq [of n k] by linarith
    moreover have "BreakerFailures cfg \<le> int (n mod k) + 1" using e k by linarith
    ultimately show ?thesis
      using nf(2) by (simp add: spec nth_append flip: n_def)
  qed
qed

lemma breakerSpec_Nil [simp]: "breakerSpec cfg [] = newState"
  by (simp add: breakerSpec_def newState_def Let_def)

lemma applyOutcome_spec:
  assumes "in_int64 (BreakerFailures cfg)"
    and "\<And>name. stateOf m name = breakerSpec cfg (hist name)"
  shows "stateOf (foldl (applyOutcome cfg) m os) name = breakerSpec cfg (foldl (noteTimes name) (hist name) os)"
  using assms(2)
proof (induction os arbitrary: m hist)
  case (Cons o1 os)
  have "stateOf (applyOutcome cfg m o1) name = breakerSpec cfg (noteTimes name (hist name) o1)" for name
    by (cases o1) (auto simp: stateOf_putState Cons.prems breakerSpec_snoc [OF assms(1)])
  from Cons.IH [of "applyOutcome cfg m o1" "\<lambda>name. noteTimes name (hist name) o1", OF this]
  show ?case by simp
qed simp

text \<open>Outcomes reported one after the other: the pure history they amount to.\<close>

primrec report :: "'e env \<Rightarrow> Config \<Rightarrow> (string \<times> bool) list \<Rightarrow> ('e, 'x, unit) gwio" where
  "report env cfg [] = State_Monad.return ()"
| "report env cfg (r # rs) = do {
     (if snd r then RecordSuccess (fst r) else RecordFailure env cfg (fst r));
     report env cfg rs
   }"

fun reported :: "outcome \<Rightarrow> string \<times> bool" where
  "reported (Success name) = (name, True)"
| "reported (Failure name t) = (name, False)"

fun within :: "instant \<Rightarrow> instant \<Rightarrow> outcome \<Rightarrow> bool" where
  "within t t' (Success name) = True"
| "within t t' (Failure name u) = (t \<le> u \<and> u \<le> t')"

lemma within_mono: "within t t' x \<Longrightarrow> u \<le> t \<Longrightarrow> t' \<le> u' \<Longrightarrow> within u u' x"
  by (cases x) auto

lemma report_history:
  "run_state (report env cfg rs) s = ((), s') \<Longrightarrow>
     clk s \<le> clk s' \<and>
     (\<exists>hist. map reported hist = rs \<and> list_all (within (clk s) (clk s')) hist \<and>
        mgr s' = foldl (applyOutcome cfg) (mgr s) hist)"
proof (induction rs arbitrary: s)
  case (Cons r rs)
  obtain name ok where r: "r = (name, ok)" by (cases r)
  define m where "m = (if ok then RecordSuccess name else RecordFailure env cfg name :: ('a, 'b, unit) gwio)"
  obtain s1 o1 where s1: "run_state m s = ((), s1)" "clk s \<le> clk s1" "reported o1 = r"
    "within (clk s) (clk s1) o1" "mgr s1 = applyOutcome cfg (mgr s) o1"
  proof (cases ok)
    case True
    then show ?thesis
      using that [of _ "Success name"] by (simp add: m_def run_RecordSuccess r)
  next
    case False
    then show ?thesis
      using that [of _ "Failure name _"] run_RecordFailure [of env cfg name s]
      by (auto simp: m_def r)
  qed
  have "run_state (report env cfg rs) s1 = ((), s')"
    using Cons.prems s1(1) by (simp add: r m_def cong: if_cong)
  from Cons.IH [OF this] obtain hist where h: "clk s1 \<le> clk s'" "map reported hist = rs"
    "list_all (within (clk s1) (clk s')) hist" "mgr s' = foldl (applyOutcome cfg) (mgr s1) hist"
    by blast
  have "list_all (within (clk s) (clk s')) (o1 # hist)"
    using h(1,3) s1(2,4) within_mono by (fastforce simp: list_all_iff)
  with h s1 show ?case
    by (intro conjI exI [of _ "o1 # hist"]) auto
qed simp

section \<open>Picking\<close>

definition expand :: "Target list \<Rightarrow> Target list" where
  "expand ts = concat (map (\<lambda>t. replicate (nat (Weight t)) t) ts)"

lemma collect_eq:
  "collect m now ex weighted fallback ts =
     (weighted @ expand (filter (\<lambda>t. Name t \<notin> ex \<and> \<not> isOpen m now (Name t)) ts),
      fallback @ expand (filter (\<lambda>t. Name t \<notin> ex) ts))"
  by (induction ts arbitrary: weighted fallback) (auto simp: expand_def)

definition closedTargets :: "Config \<Rightarrow> manager \<Rightarrow> instant \<Rightarrow> string set \<Rightarrow> Target list" where
  "closedTargets cfg m now ex = filter (\<lambda>t. Name t \<notin> ex \<and> \<not> isOpen m now (Name t)) (Targets cfg)"

lemma candidatesFor_eq:
  "candidatesFor cfg m now ex =
     (if expand (closedTargets cfg m now ex) = [] then expand (filter (\<lambda>t. Name t \<notin> ex) (Targets cfg))
      else expand (closedTargets cfg m now ex))"
  by (simp add: candidatesFor_def collect_eq closedTargets_def)

lemma set_expand: "set (expand ts) = {t \<in> set ts. 0 < Weight t}"
  by (auto simp: expand_def)

lemma expand_empty_iff: "expand ts = [] \<longleftrightarrow> (\<forall>t \<in> set ts. Weight t \<le> 0)"
  by (force simp: expand_def)

lemma set_candidatesFor:
  "t \<in> set (candidatesFor cfg m now ex) \<longleftrightarrow>
     t \<in> set (Targets cfg) \<and> Name t \<notin> ex \<and> 0 < Weight t \<and>
     (\<not> isOpen m now (Name t) \<or>
      (\<forall>u \<in> set (Targets cfg). Name u \<notin> ex \<longrightarrow> 0 < Weight u \<longrightarrow> isOpen m now (Name u)))"
  unfolding candidatesFor_eq expand_empty_iff
  by (auto simp: set_expand closedTargets_def not_le dest: leD)

text \<open>The index is always in range, also for the wrapped counter.\<close>

lemma atIndex_in: "cs \<noteq> [] \<Longrightarrow> atIndex cs idx \<in> set cs"
proof -
  assume "cs \<noteq> []"
  have "unat (idx mod of_nat (length cs)) < length cs"
  proof (cases "(of_nat (length cs) :: 64 word) = 0")
    case True
    then have "2 ^ 64 dvd length cs"
      by (simp add: word_of_nat_eq_0_iff)
    with \<open>cs \<noteq> []\<close> have "2 ^ 64 \<le> length cs" by (simp add: dvd_imp_le)
    moreover have "unat idx < 2 ^ 64" using unsigned_less [of idx] by simp
    ultimately show ?thesis using True by simp
  next
    case False
    then have "unat (idx mod of_nat (length cs)) < unat (of_nat (length cs) :: 64 word)"
      by (metis mod_less_divisor unat_eq_zero unat_mod_distrib neq0_conv unat_mod)
    also have "\<dots> \<le> length cs"
      by (simp add: unat_of_nat)
    finally show ?thesis .
  qed
  then show ?thesis by (simp add: atIndex_def)
qed

lemma run_PickTarget:
  assumes "run_state (PickTarget env cfg ex) s = (r, s')"
  shows "clk s' = clk s + max 0 (fst (elapse env (ext s)))"
    and "trace s' = trace s"
    and "r = (let cs = candidatesFor cfg (mgr s) (clk s') ex
              in if cs = [] then None else Some (atIndex cs (rr (mgr s) + 1)))"
    and "mgr s' = (if r = None then mgr s else (mgr s)\<lparr>rr := rr (mgr s) + 1\<rparr>)"
  using assms by (auto simp: PickTarget_def run_time_Now Let_def split: if_splits)

lemma PickTarget_Some:
  assumes "run_state (PickTarget env cfg ex) s = (Some t, s')"
  shows "t \<in> set (Targets cfg)" "Name t \<notin> ex" "0 < Weight t"
proof -
  have "t \<in> set (candidatesFor cfg (mgr s) (clk s') ex)"
    using run_PickTarget(3) [OF assms] atIndex_in by (auto simp: Let_def split: if_splits)
  then show "t \<in> set (Targets cfg)" "Name t \<notin> ex" "0 < Weight t" by (simp_all add: set_candidatesFor)
qed

lemma PickTarget_None:
  assumes "run_state (PickTarget env cfg ex) s = (None, s')"
  shows "\<forall>t \<in> set (Targets cfg). Name t \<in> ex \<or> Weight t \<le> 0"
proof -
  have "candidatesFor cfg (mgr s) (clk s') ex = []"
    using run_PickTarget(3) [OF assms] by (auto simp: Let_def split: if_splits)
  then have "expand (filter (\<lambda>t. Name t \<notin> ex) (Targets cfg)) = []"
    by (simp add: candidatesFor_eq split: if_splits)
  then show ?thesis by (auto simp: expand_empty_iff)
qed

lemma isOpen_mono: "isOpen m now name \<Longrightarrow> t \<le> now \<Longrightarrow> isOpen m t name"
  by (auto simp: isOpen_def split: option.splits)

section \<open>Fairness\<close>

primrec pickTimes :: "'e env \<Rightarrow> Config \<Rightarrow> nat \<Rightarrow> ('e, 'x, Target option list) gwio" where
  "pickTimes env cfg 0 = State_Monad.return []"
| "pickTimes env cfg (Suc n) = do {
     t \<leftarrow> PickTarget env cfg {};
     ts \<leftarrow> pickTimes env cfg n;
     State_Monad.return (t # ts)
   }"

definition allClosed :: "Config \<Rightarrow> manager \<Rightarrow> instant \<Rightarrow> bool" where
  "allClosed cfg m now \<longleftrightarrow> list_all (\<lambda>t. \<not> isOpen m now (Name t)) (Targets cfg)"

lemma candidatesFor_allClosed:
  "allClosed cfg m t \<Longrightarrow> t \<le> now \<Longrightarrow> candidatesFor cfg m now {} = expand (Targets cfg)"
proof -
  assume "allClosed cfg m t" "t \<le> now"
  then have "closedTargets cfg m now {} = Targets cfg"
    by (auto simp: closedTargets_def allClosed_def list_all_iff filter_id_conv dest: isOpen_mono)
  then show ?thesis by (simp add: candidatesFor_eq)
qed

lemma isOpen_rr [simp]: "isOpen (m\<lparr>rr := r\<rparr>) = isOpen m"
  by (simp add: isOpen_def fun_eq_iff)

lemma pickTimes_eq:
  assumes "cs = expand (Targets cfg)" and "cs \<noteq> []"
  shows "allClosed cfg (mgr s) (clk s) \<Longrightarrow>
    fst (run_state (pickTimes env cfg n) s) = map (\<lambda>i. Some (atIndex cs (rr (mgr s) + of_nat i))) [1..<Suc n]"
proof (induction n arbitrary: s)
  case (Suc n)
  obtain r s1 where p: "run_state (PickTarget env cfg {}) s = (r, s1)"
    by (cases "run_state (PickTarget env cfg {}) s")
  note e = run_PickTarget [OF p]
  have r: "r = Some (atIndex cs (rr (mgr s) + 1))"
    using e(1,3) candidatesFor_allClosed [OF Suc.prems, of "clk s1"] assms by simp
  with e(4) have "mgr s1 = (mgr s)\<lparr>rr := rr (mgr s) + 1\<rparr>" by simp
  moreover have "allClosed cfg (mgr s1) (clk s1)"
    using Suc.prems e(1) calculation
    by (auto simp: allClosed_def list_all_iff dest: isOpen_mono [of _ _ _ "clk s"])
  ultimately have "fst (run_state (pickTimes env cfg n) s1) =
      map (\<lambda>i. Some (atIndex cs (rr (mgr s) + 1 + of_nat i))) [1..<Suc n]"
    using Suc.IH by simp
  moreover have "[1..<Suc (Suc n)] = 1 # map Suc [1..<Suc n]"
    by (simp only: map_Suc_upt upt_conv_Cons)
  ultimately show ?case
    using p r by (simp add: case_prod_unfold add_ac comp_def)
qed simp

lemma rotate_eq_map: "rotate r xs = map (\<lambda>i. xs ! ((r + i) mod length xs)) [0..<length xs]"
  by (rule nth_equalityI) (auto simp: nth_rotate)

lemma mset_rotate: "mset (rotate r xs) = mset xs"
  by (metis add.commute append_take_drop_id mset_append rotate_drop_take)

lemma atIndex_nat:
  assumes "unat w + i < 2 ^ 64" and "0 < length cs" and "length cs < 2 ^ 64"
  shows "atIndex cs (w + of_nat i) = cs ! ((unat w + i) mod length cs)"
proof -
  have "unat (w + of_nat i) = unat w + i"
    using assms(1) by (simp add: unat_word_ariths unat_of_nat)
  then show ?thesis
    using assms(2,3) by (simp add: atIndex_def unat_mod unat_of_nat)
qed

lemma full_turn:
  assumes "unat w + length cs < 2 ^ 64" and "cs \<noteq> []"
  shows "mset (map (\<lambda>i. atIndex cs (w + of_nat i)) [1..<Suc (length cs)]) = mset cs"
proof -
  have "map (\<lambda>i. atIndex cs (w + of_nat i)) [1..<Suc (length cs)] =
      map (\<lambda>i. cs ! ((unat w + i) mod length cs)) (map Suc [0..<length cs])"
    unfolding map_Suc_upt One_nat_def by (intro map_cong refl atIndex_nat) (use assms in auto)
  also have "\<dots> = rotate (Suc (unat w)) cs"
    by (simp add: rotate_eq_map comp_def)
  finally show ?thesis by (simp only: mset_rotate)
qed

section \<open>Probing\<close>

text \<open>Whether the probe of a target succeeds in an environment state.\<close>

definition probeOk :: "'e env \<Rightarrow> Target \<Rightarrow> 'e \<Rightarrow> bool" where
  "probeOk env t e =
     (case url_JoinPath env (URL t) ''/health'' of
        Inl err \<Rightarrow> False
      | Inr u \<Rightarrow> http_NewRequest env ''GET'' u = None \<and>
          (case fst (http_Do env \<lparr>rq_method = ''GET'', rq_url = u, rq_header = [], rq_body = []\<rparr> e) of
             Inl err \<Rightarrow> False | Inr resp \<Rightarrow> 200 \<le> rs_status resp \<and> rs_status resp < 300))"

lemma run_probeTarget:
  assumes "run_state (probeTarget env cfg t) s = (u, s')"
  shows "mgr s' = putState (Name t)
           (if probeOk env t (ext s) then newState else noteFailure cfg (clk s') (stateOf (mgr s) (Name t))) (mgr s)"
proof -
  have fail: "mgr s' = putState (Name t) (noteFailure cfg (clk s') (stateOf (mgr s0) (Name t))) (mgr s0)"
    if "run_state (RecordFailure env cfg (Name t)) s0 = (u, s')" for s0
    using run_RecordFailure [of env cfg "Name t" s0] that by auto
  show ?thesis
  proof (cases "url_JoinPath env (URL t) ''/health''")
    case (Inl err)
    with assms fail [of s] show ?thesis by (simp add: probeTarget_def probeOk_def)
  next
    case (Inr h)
    define req where "req = \<lparr>rq_method = ''GET'', rq_url = h, rq_header = [], rq_body = []\<rparr>"
    define s1 where "s1 = s\<lparr>ext := snd (http_Do env req (ext s)), trace := trace s @ [HttpDo req (fst (http_Do env req (ext s)))]\<rparr>"
    have s1: "mgr s1 = mgr s" by (simp add: s1_def)
    show ?thesis
    proof (cases "http_NewRequest env ''GET'' h")
      case (Some err)
      with Inr assms fail [of s] show ?thesis by (simp add: probeTarget_def probeOk_def)
    next
      case None
      have "run_state (case fst (http_Do env req (ext s)) of
          Inl err \<Rightarrow> RecordFailure env cfg (Name t)
        | Inr resp \<Rightarrow> if go_div (rs_status resp) 100 = 2 then RecordSuccess (Name t)
                      else RecordFailure env cfg (Name t)) s1 = (u, s')"
        using assms Inr None
        by (simp add: probeTarget_def run_client_Do s1_def flip: req_def)
      with fail [of s1] Inr None s1 show ?thesis
        by (auto simp: probeOk_def go_div_100_eq_2 run_RecordSuccess simp flip: req_def
            split: sum.splits if_splits)
    qed
  qed
qed

section \<open>Claims\<close>

text \<open>The example configuration in the concrete environment.\<close>

definition exampleGw :: "world \<Rightarrow> world gw" where
  "exampleGw w = \<lparr>clk = 63000000000 * second, ext = w, trace = [], mgr = fst (NewManager exampleConfig)\<rparr>"

lemma exampleGw_simps [simp]: "trace (exampleGw w) = []" "mgr (exampleGw w) = fst (NewManager exampleConfig)" "ext (exampleGw w) = w"
  by (simp_all add: exampleGw_def)

text \<open>
  C9: a picked target is one of the configured ones, was not excluded and has positive weight;
  a target whose circuit is open is picked only when every candidate's circuit is open. Picking
  advances the round-robin counter by one and changes nothing else of the manager.
\<close>

theorem PickTarget_selects:
  assumes "run_state (PickTarget env cfg exclude) s = (Some t, s')"
  shows "t \<in> set (Targets cfg) \<and> Name t \<notin> exclude \<and> 0 < Weight t \<and>
    (isOpen (mgr s) (clk s') (Name t) \<longrightarrow>
       (\<forall>u \<in> set (Targets cfg). Name u \<notin> exclude \<longrightarrow> 0 < Weight u \<longrightarrow> isOpen (mgr s) (clk s') (Name u))) \<and>
    mgr s' = (mgr s)\<lparr>rr := rr (mgr s) + 1\<rparr>"
proof -
  note r = run_PickTarget [OF assms]
  have "t \<in> set (candidatesFor cfg (mgr s) (clk s') exclude)"
    using r(3) atIndex_in by (auto simp: Let_def split: if_splits)
  moreover have "mgr s' = (mgr s)\<lparr>rr := rr (mgr s) + 1\<rparr>" using r(4) by simp
  ultimately show ?thesis by (auto simp: set_candidatesFor)
qed

theorem PickTarget_selects_witness:
  "fst (run_state (PickTarget worldEnv exampleConfig {''a''}) (exampleGw world0)) = Some (exampleTargets ! 1) \<and>
   Name (exampleTargets ! 1) \<notin> {''a''}"
proof (rule conjI)
  show *: "fst (run_state (PickTarget worldEnv exampleConfig {''a''}) (exampleGw world0)) = Some (exampleTargets ! 1)"
    by code_simp
  obtain s' where "run_state (PickTarget worldEnv exampleConfig {''a''}) (exampleGw world0) = (Some (exampleTargets ! 1), s')"
    using * by (metis prod.collapse)
  from PickTarget_selects [OF this] show "Name (exampleTargets ! 1) \<notin> {''a''}" by blast
qed

text \<open>
  No target is picked exactly when every configured target is excluded or has no weight;
  an open circuit alone never leaves a request without a target.
\<close>

lemma PickTarget_none:
  "fst (run_state (PickTarget env cfg exclude) s) = None \<longleftrightarrow>
     (\<forall>t \<in> set (Targets cfg). Name t \<in> exclude \<or> Weight t \<le> 0)"
proof -
  obtain r s' where p: "run_state (PickTarget env cfg exclude) s = (r, s')"
    by (cases "run_state (PickTarget env cfg exclude) s")
  have "candidatesFor cfg m now exclude = [] \<longleftrightarrow> (\<forall>t \<in> set (Targets cfg). Name t \<in> exclude \<or> Weight t \<le> 0)" for m now
    unfolding candidatesFor_eq closedTargets_def expand_empty_iff
    by (auto simp: expand_empty_iff)
  with run_PickTarget(3) [OF p] show ?thesis by (simp add: p Let_def)
qed

text \<open>
  C8: the round robin is fair. While no circuit is open and the 64-bit counter does not wrap,
  as many consecutive picks as the sum of the weights return every target exactly as often as
  its weight says.
\<close>

theorem PickTarget_fair:
  assumes "allClosed cfg (mgr s) (clk s)"
    and "n = length (expand (Targets cfg))" and "0 < n"
    and "unat (rr (mgr s)) + n < 2 ^ 64"
  shows "mset (fst (run_state (pickTimes env cfg n) s)) = image_mset Some (mset (expand (Targets cfg)))"
proof -
  have "fst (run_state (pickTimes env cfg n) s) =
      map Some (map (\<lambda>i. atIndex (expand (Targets cfg)) (rr (mgr s) + of_nat i)) [1..<Suc n])"
    using pickTimes_eq [OF refl _ assms(1)] assms(2,3) by (simp add: comp_def)
  moreover have "mset (map (\<lambda>i. atIndex (expand (Targets cfg)) (rr (mgr s) + of_nat i)) [1..<Suc n]) =
      mset (expand (Targets cfg))"
    using full_turn [of "rr (mgr s)" "expand (Targets cfg)"] assms(2-4) by (simp only: length_greater_0_conv simp_thms)
  ultimately show ?thesis by (simp only: mset_map)
qed

theorem PickTarget_fair_witness:
  "mset (fst (run_state (pickTimes worldEnv exampleConfig 3) (exampleGw world0))) =
     image_mset Some (mset (expand exampleTargets))"
proof -
  have "allClosed exampleConfig (mgr (exampleGw world0)) (clk (exampleGw world0))" by code_simp
  moreover have "3 = length (expand (Targets exampleConfig))" by code_simp
  moreover have "unat (rr (mgr (exampleGw world0))) + 3 < 2 ^ 64"
    by (simp add: exampleGw_def NewManager_def)
  ultimately have "mset (fst (run_state (pickTimes worldEnv exampleConfig 3) (exampleGw world0))) =
     image_mset Some (mset (expand (Targets exampleConfig)))"
    by (intro PickTarget_fair) simp_all
  then show ?thesis by (simp add: exampleConfig_def)
qed

text \<open>
  C7: the circuit breaker does what its parameters say. After any sequence of reported
  successes and failures, a target's state is a function of its failures since its last
  success: their number modulo the threshold is the failure count, and every threshold-th one
  opened the circuit until its time plus the cooldown.
\<close>

theorem breaker_history:
  assumes "in_int64 (BreakerFailures cfg)" and "mgr s = fst (NewManager cfg)"
    and "run_state (report env cfg rs) s = ((), s')"
  shows "\<exists>hist. map reported hist = rs \<and> list_all (within (clk s) (clk s')) hist \<and>
           (\<forall>name. stateOf (mgr s') name = breakerSpec cfg (failuresSince name hist))"
proof -
  from report_history [OF assms(3)] obtain hist where h: "map reported hist = rs"
    "list_all (within (clk s) (clk s')) hist" "mgr s' = foldl (applyOutcome cfg) (mgr s) hist" by blast
  have "stateOf (mgr s') name = breakerSpec cfg (failuresSince name hist)" for name
    using applyOutcome_spec [OF assms(1), of "mgr s" "\<lambda>_. []"] assms(2) h(3)
    by (simp add: failuresSince_def)
  with h show ?thesis by blast
qed

text \<open>
  The reports of the example: a success, then three failures, which is the threshold.
\<close>

theorem breaker_history_witness:
  "\<exists>hist. map reported hist = [(''a'', True), (''a'', False), (''b'', False), (''a'', False), (''a'', False)] \<and>
     circuitOpenUntil (breakerSpec exampleConfig (failuresSince ''a'' hist)) =
       63000000020001000000"
proof -
  define rs where "rs = [(''a'', True), (''a'', False), (''b'', False), (''a'', False), (''a'', False)]"
  have "in_int64 (BreakerFailures exampleConfig)" by code_simp
  moreover have "mgr (exampleGw world0) = fst (NewManager exampleConfig)" by (simp add: exampleGw_def)
  moreover obtain s' where s': "run_state (report worldEnv exampleConfig rs) (exampleGw world0) = ((), s')"
    by (cases "run_state (report worldEnv exampleConfig rs) (exampleGw world0)") auto
  ultimately obtain hist where h: "map reported hist = rs"
    "\<forall>name. stateOf (mgr s') name = breakerSpec exampleConfig (failuresSince name hist)"
    using breaker_history by blast
  have "circuitOpenUntil (stateOf (mgr (snd (run_state (report worldEnv exampleConfig
      [(''a'', True), (''a'', False), (''b'', False), (''a'', False), (''a'', False)]) (exampleGw world0)))) ''a'') =
      63000000020001000000"
    by code_simp
  with h s' show ?thesis
    by (intro exI [of _ hist]) (simp add: rs_def)
qed



text \<open>
  C11: one probe of a target records exactly one outcome for it, a success if and only if the
  health endpoint answers with a 2xx status, and nothing for any other target; it sends at most
  one request, a GET without headers, so the token of the target does not leave the gateway.
\<close>

theorem probe_records_one_outcome:
  assumes "run_state (probeTarget env cfg t) s = (u, s')"
  shows "stateOf (mgr s') (Name t) =
           (if probeOk env t (ext s) then newState
            else noteFailure cfg (clk s') (stateOf (mgr s) (Name t))) \<and>
         (\<forall>name. name \<noteq> Name t \<longrightarrow> stateOf (mgr s') name = stateOf (mgr s) name) \<and>
         (\<exists>evs. trace s' = trace s @ evs \<and>
            list_all (\<lambda>ev. case ev of HttpDo r resp \<Rightarrow> rq_method r = ''GET'' \<and> rq_header r = [] | _ \<Rightarrow> True) evs)"
proof -
  let ?P = "\<lambda>ev. case ev of HttpDo r resp \<Rightarrow> rq_method r = ''GET'' \<and> rq_header r = [] | _ \<Rightarrow> True"
  have "emits ?P get_mgr" "emits ?P (modify_mgr f)" for f
    by (simp_all add: emits_def)
  note rules = emits_rules this
  have "emits ?P (RecordFailure env cfg name)" "emits ?P (RecordSuccess name)" for name
    unfolding RecordFailure_def RecordSuccess_def Let_def by (intro rules; simp)+
  note rules = rules this
  have "emits ?P (probeTarget env cfg t)"
    unfolding probeTarget_def Let_def by (intro rules; simp)
  from emitsD [OF this assms] run_probeTarget [OF assms] show ?thesis
    by (simp add: stateOf_putState)
qed

theorem probe_records_one_outcome_witness:
  "stateOf (mgr (snd (run_state (probeTarget worldEnv exampleConfig (exampleTargets ! 0)) (exampleGw world0)))) ''b'' =
     newState"
proof -
  obtain u s' where r: "run_state (probeTarget worldEnv exampleConfig (exampleTargets ! 0)) (exampleGw world0) = (u, s')"
    by (cases "run_state (probeTarget worldEnv exampleConfig (exampleTargets ! 0)) (exampleGw world0)")
  have "Name (exampleTargets ! 0) = ''a''" by code_simp
  with probe_records_one_outcome [OF r] have "stateOf (mgr s') ''b'' = stateOf (mgr (exampleGw world0)) ''b''" by simp
  also have "\<dots> = newState" by (simp add: exampleGw_def)
  finally show ?thesis by (simp add: r)
qed

end
