(* ===== verification/Metrics.thy ===== *)
theory Metrics
  imports Config
begin

text \<open>
  \<open>internal/metrics/metrics.go\<close>: the three observations. Each is an event of the trace; the
  value of a labelled counter is the number of its events.
\<close>

definition IncCacheResult :: "string \<Rightarrow> ('e, 'x, unit) io" where
  "IncCacheResult result = emit (CacheResult result)"

definition ObserveRedis :: "string \<Rightarrow> bool \<Rightarrow> duration \<Rightarrow> ('e, 'x, unit) io" where
  "ObserveRedis op ok dur = emit (RedisLatency op ok dur)"

definition ObserveUpstream :: "string \<Rightarrow> string \<Rightarrow> duration \<Rightarrow> ('e, 'x, unit) io" where
  "ObserveUpstream target status dur = emit (UpLatency target status dur)"

lemmas metrics_defs = IncCacheResult_def ObserveRedis_def ObserveUpstream_def

text \<open>The value of \<open>influx_gateway_cache_results_total{result=...}\<close> after a trace.\<close>

definition cacheResults :: "string \<Rightarrow> event list \<Rightarrow> nat" where
  "cacheResults result tr = length (filter (\<lambda>ev. ev = CacheResult result) tr)"

end
