(* ===== verification/Cache.thy ===== *)
theory Cache
  imports Metrics GoHash
begin

text \<open>
  \<open>internal/cache/service.go\<close>: cache keys, the jittered expiry, and the operations on Redis
  (value cache and lock). What is relied on of the Redis server is the locale \<open>redis_rely\<close>.
\<close>

section \<open>Operations\<close>

text \<open>A run-time panic, with its message.\<close>

datatype go_panic = Panic string

definition Key :: "string \<Rightarrow> string \<Rightarrow> string" where
  "Key org query = ''igw:v1:'' @ org @ '':'' @ EncodeToString (Sum256 (org @ [newline] @ query))"

text \<open>
  \<open>rand.Int63n\<close> panics when its argument is not positive, which a jitter of \<open>2^62\<close> ns or more
  causes by overflow.
\<close>

definition jitteredTTL :: "'e env \<Rightarrow> Config \<Rightarrow> ('e, 'x, go_panic + duration) io" where
  "jitteredTTL env cfg =
     (let ttl = CacheTTL cfg; jitter = CacheTTLJitter cfg
      in if jitter \<le> 0 then State_Monad.return (Inr ttl)
         else (let n = wrap64 (wrap64 (jitter * 2) + 1)
               in if n \<le> 0 then State_Monad.return (Inl (Panic ''invalid argument to Int63n''))
                  else do {
                    r \<leftarrow> external (rand_Int63n env n);
                    let delta = wrap64 (r - jitter);
                    let ttl = wrap64 (ttl + delta);
                    State_Monad.return (Inr (if ttl < second then second else ttl))
                  }))"

definition Ping :: "'e env \<Rightarrow> ('e, 'x, redis_error option) io" where
  "Ping env = do { err \<leftarrow> external (redis_Ping env); emit (RedisPing err); State_Monad.return err }"

text \<open>\<open>err == nil || errors.Is(err, redis.Nil)\<close>.\<close>

definition getOk :: "redis_error + string \<Rightarrow> bool" where
  "getOk r = (case r of Inr v \<Rightarrow> True | Inl e \<Rightarrow> e = RedisNil)"

definition GetAs :: "string \<Rightarrow> 'e env \<Rightarrow> string \<Rightarrow> ('e, 'x, redis_error + string) io" where
  "GetAs op env key = do {
     start \<leftarrow> time_Now env;
     r \<leftarrow> external (redis_Get env key);
     emit (RedisGet key r);
     dur \<leftarrow> time_Since env start;
     ObserveRedis op (getOk r) dur;
     State_Monad.return r
   }"

definition Get :: "'e env \<Rightarrow> string \<Rightarrow> ('e, 'x, redis_error + string) io" where
  "Get env key = GetAs ''get'' env key"

definition Set :: "'e env \<Rightarrow> Config \<Rightarrow> string \<Rightarrow> string \<Rightarrow> ('e, 'x, go_panic + redis_error option) io" where
  "Set env cfg key val = do {
     start \<leftarrow> time_Now env;
     ttl \<leftarrow> jitteredTTL env cfg;
     (case ttl of
        Inl p \<Rightarrow> State_Monad.return (Inl p)
      | Inr ttl \<Rightarrow> do {
          err \<leftarrow> external (redis_Set env key val ttl);
          emit (RedisSet key val ttl err);
          dur \<leftarrow> time_Since env start;
          ObserveRedis ''set'' (err = None) dur;
          State_Monad.return (Inr err)
        })
   }"

definition lockKeyOf :: "string \<Rightarrow> string" where
  "lockKeyOf key = key @ '':lock''"

definition AcquireLock :: "'e env \<Rightarrow> Config \<Rightarrow> string \<Rightarrow> ('e, 'x, (redis_error + bool) \<times> string) io" where
  "AcquireLock env cfg key = do {
     let lockKey = lockKeyOf key;
     now \<leftarrow> time_Now env;
     let token = Itoa (wrap64 (now - unix_epoch));
     start \<leftarrow> time_Now env;
     locked \<leftarrow> external (redis_SetNX env lockKey token (CacheLockTTL cfg));
     emit (RedisSetNX lockKey token (CacheLockTTL cfg) locked);
     dur \<leftarrow> time_Since env start;
     ObserveRedis ''setnx'' (\<not> isl locked) dur;
     State_Monad.return (locked, lockKey)
   }"

definition ReleaseLock :: "'e env \<Rightarrow> string \<Rightarrow> ('e, 'x, redis_error option) io" where
  "ReleaseLock env lockKey = do {
     err \<leftarrow> external (redis_Del env lockKey);
     emit (RedisDel lockKey err);
     State_Monad.return err
   }"

section \<open>Waiting for the lock holder\<close>

text \<open>
  Clocks of the programs above only move forward; the loop of \<open>WaitForLock\<close> is defined on the
  state, because its termination rests on that.
\<close>

definition forward_clock :: "('e, 'x, 'a) io \<Rightarrow> bool" where
  "forward_clock m \<longleftrightarrow> (\<forall>s. clk s \<le> clk (snd (run_state m s)))"

lemma forward_clockD: "forward_clock m \<Longrightarrow> run_state m s = (a, s') \<Longrightarrow> clk s \<le> clk s'"
  by (metis forward_clock_def snd_conv)

lemma forward_clock_bind:
  "forward_clock m \<Longrightarrow> (\<And>a. forward_clock (f a)) \<Longrightarrow> forward_clock (State_Monad.bind m f)"
  unfolding forward_clock_def by (simp add: case_prod_unfold) (meson order_trans)

lemma forward_clock_basic:
  "forward_clock (State_Monad.return a)" "forward_clock (emit ev)" "forward_clock (external f)"
  "forward_clock (time_Now env)" "forward_clock (time_Sleep d)"
  by (simp_all add: forward_clock_def run_external run_time_Now)

lemma forward_clock_GetAs: "forward_clock (GetAs op env key)"
  unfolding GetAs_def time_Since_def metrics_defs by (intro forward_clock_bind forward_clock_basic)

function waitLoop :: "'e env \<Rightarrow> string \<Rightarrow> instant \<Rightarrow> ('e, 'x) host_scheme \<Rightarrow>
    (redis_error + string) \<times> ('e, 'x) host_scheme" where
  "waitLoop env key deadline s =
     (case run_state (time_Now env) s of (now, s1) \<Rightarrow>
        if now < deadline then
          (case run_state (GetAs ''get_wait'' env key) s1 of
             (Inr cached, s2) \<Rightarrow> (Inr cached, s2)
           | (Inl err, s2) \<Rightarrow>
               if err \<noteq> RedisNil then (Inl err, s2)
               else waitLoop env key deadline (snd (run_state (time_Sleep (30 * millisecond)) s2)))
        else (Inl RedisNil, s1))"
  by pat_completeness auto
termination
proof (relation "measure (\<lambda>(env, key, deadline, s). nat (deadline - clk s))")
  fix env :: "'e env" and key deadline now s1 r s2 err and s :: "('e, 'x) host_scheme"
  assume 1: "(now, s1) = run_state (time_Now env) s" "now < deadline"
    and 2: "(r, s2) = run_state (GetAs ''get_wait'' env key) s1"
  have "clk s1 = now" "clk s \<le> now"
    using 1(1) by (auto simp: run_time_Now)
  moreover have "clk s1 \<le> clk s2"
    using forward_clockD [OF forward_clock_GetAs] 2 by metis
  ultimately show "((env, key, deadline, snd (run_state (time_Sleep (30 * millisecond)) s2)), env, key, deadline, s)
      \<in> measure (\<lambda>(env, key, deadline, s). nat (deadline - clk s))"
    using 1(2) by simp
qed simp

definition WaitForLock :: "'e env \<Rightarrow> Config \<Rightarrow> string \<Rightarrow> ('e, 'x, redis_error + string) io" where
  "WaitForLock env cfg key = do {
     now \<leftarrow> time_Now env;
     State (waitLoop env key (now + CacheLockWait cfg))
   }"

section \<open>Keys\<close>

lemma hex_digit_inj:
  assumes "hex_digit m = hex_digit n" "0 \<le> m" "m < 16" "0 \<le> n" "n < 16"
  shows "m = n"
proof -
  have "list_all (\<lambda>m. list_all (\<lambda>n. hex_digit m = hex_digit n \<longrightarrow> m = n) [0..15]) [0..15]" by code_simp
  with assms show ?thesis by (simp add: list_all_iff)
qed

lemma byte_bounds: "0 \<le> (of_char c :: int)" "(of_char c :: int) < 256"
  using pos_mod_bound [of 256 "of_char c :: int"] pos_mod_sign [of 256 "of_char c :: int"] by simp_all

lemma EncodeToString_inj: "EncodeToString s = EncodeToString t \<Longrightarrow> s = t"
proof (induction s arbitrary: t)
  case Nil
  then show ?case by (cases t) (auto simp: EncodeToString_def)
next
  case (Cons c s)
  then obtain d t' where t: "t = d # t'" by (cases t) (auto simp: EncodeToString_def)
  have "(of_char c :: int) div 16 = of_char d div 16" "(of_char c :: int) mod 16 = of_char d mod 16"
    using Cons.prems byte_bounds [of c] byte_bounds [of d]
    by (auto simp: t EncodeToString_def intro!: hex_digit_inj)
  then have "(of_char c :: int) = of_char d" by (metis div_mod_decomp_int)
  then have "c = d" by (metis char_of_char)
  with Cons t show ?case by (simp add: EncodeToString_def)
qed

lemma Key_eqD:
  assumes "Key org q = Key org' q'"
  shows "org = org'" and "Sum256 (org @ [newline] @ q) = Sum256 (org' @ [newline] @ q')"
proof -
  let ?h = "EncodeToString (Sum256 (org @ [newline] @ q))" and ?h' = "EncodeToString (Sum256 (org' @ [newline] @ q'))"
  have "org = org' \<and> ?h = ?h'" using assms by (auto simp: Key_def)
  then show "org = org'" "Sum256 (org @ [newline] @ q) = Sum256 (org' @ [newline] @ q')"
    using EncodeToString_inj by auto
qed

definition isLockKey :: "string \<Rightarrow> bool" where
  "isLockKey k \<longleftrightarrow> (\<exists>key. k = lockKeyOf key)"

lemma Key_not_lock: "\<not> isLockKey (Key org q)"
proof
  assume "isLockKey (Key org q)"
  then obtain key where k: "Key org q = lockKeyOf key" by (auto simp: isLockKey_def)
  let ?h = "EncodeToString (Sum256 (org @ [newline] @ q))"
  have h: "?h \<noteq> []" by (metis length_EncodeToString length_Sum256 list.size(3) mult_eq_0_iff zero_neq_numeral)
  then have "last (Key org q) = last ?h" by (simp add: Key_def)
  moreover have "is_hex (last ?h)" using EncodeToString_hex h by (metis last_in_set list_all_iff)
  moreover have "last (lockKeyOf key) = CHR ''k''" by (simp add: lockKeyOf_def)
  ultimately have "is_hex (CHR ''k'')" using k by metis
  then show False by (simp add: is_hex_def)
qed

section \<open>What the operations emit\<close>

text \<open>Reads of one key, and their timing.\<close>

fun readsOnly :: "string \<Rightarrow> event \<Rightarrow> bool" where
  "readsOnly key (RedisGet k r) = (k = key)"
| "readsOnly key (RedisLatency op ok d) = True"
| "readsOnly key ev = False"

section \<open>Waiting\<close>

text \<open>The number of reads in a trace.\<close>

definition gets :: "event list \<Rightarrow> nat" where
  "gets tr = length (filter (\<lambda>ev. case ev of RedisGet k r \<Rightarrow> True | _ \<Rightarrow> False) tr)"

lemma gets_append [simp]: "gets (a @ b) = gets a + gets b"
  by (simp add: gets_def)

lemma run_GetAs:
  assumes "run_state (GetAs op env key) s = (r, s')"
  shows "clk s \<le> clk s'"
    and "\<exists>d. trace s' = trace s @ [RedisGet key r, RedisLatency op (getOk r) d]"
    and "\<exists>e. r = fst (redis_Get env key e)"
proof -
  show "clk s \<le> clk s'" using forward_clockD [OF forward_clock_GetAs assms] .
  show "\<exists>d. trace s' = trace s @ [RedisGet key r, RedisLatency op (getOk r) d]"
    "\<exists>e. r = fst (redis_Get env key e)"
    using assms
    by (auto simp: GetAs_def time_Since_def metrics_defs run_time_Now run_external)
qed

declare waitLoop.simps [simp del]

text \<open>One round of the loop, and induction along its rounds.\<close>

lemma waitLoop_cases:
  assumes "run_state (time_Now env) s = (now, s1)"
    and "run_state (GetAs ''get_wait'' env key) s1 = (r, s2)"
  shows "waitLoop env key deadline s =
    (if \<not> now < deadline then (Inl RedisNil, s1)
     else if r = Inl RedisNil then waitLoop env key deadline (snd (run_state (time_Sleep (30 * millisecond)) s2))
     else (r, s2))"
  using assms by (subst waitLoop.simps) (auto split: sum.splits)

lemma waitLoop_induct:
  assumes "\<And>s. (\<And>now s1 s2. run_state (time_Now env) s = (now, s1) \<Longrightarrow> now < deadline \<Longrightarrow>
      run_state (GetAs ''get_wait'' env key) s1 = (Inl RedisNil, s2) \<Longrightarrow>
      P (snd (run_state (time_Sleep (30 * millisecond)) s2))) \<Longrightarrow> P s"
  shows "P s"
proof -
  have "env' = env \<longrightarrow> key' = key \<longrightarrow> deadline' = deadline \<longrightarrow> P s" for env' key' deadline'
  proof (induction env' key' deadline' s rule: waitLoop.induct)
    case (1 env' key' deadline' s)
    show ?case
    proof (intro impI, rule assms)
      fix now s1 s2
      assume "env' = env" "key' = key" "deadline' = deadline" "run_state (time_Now env) s = (now, s1)"
        "now < deadline" "run_state (GetAs ''get_wait'' env key) s1 = (Inl RedisNil, s2)"
      with "1.IH" [of now s1 "Inl RedisNil" s2 RedisNil] show "P (snd (run_state (time_Sleep (30 * millisecond)) s2))"
        by simp
    qed
  qed
  then show ?thesis by simp
qed

text \<open>
  How a wait ends: a value that Redis returned for the key; an error that Redis returned; or a
  time-out after the deadline. The reads are at least 30 ms apart.
\<close>

lemma waitLoop_result:
  assumes "waitLoop env key deadline s = (r, s')"
  shows "(\<exists>e. r = fst (redis_Get env key e) \<and> r \<noteq> Inl RedisNil) \<or> r = Inl RedisNil \<and> deadline \<le> clk s'"
  using assms
proof (induction env key deadline s rule: waitLoop.induct)
  case (1 env key deadline s)
  obtain now s1 where t: "run_state (time_Now env) s = (now, s1)" by (cases "run_state (time_Now env) s")
  have now: "clk s1 = now" using t by (auto simp: run_time_Now)
  obtain r2 s2 where g: "run_state (GetAs ''get_wait'' env key) s1 = (r2, s2)"
    by (cases "run_state (GetAs ''get_wait'' env key) s1")
  have "\<exists>e. r2 = fst (redis_Get env key e)" by (rule run_GetAs(3) [OF g])
  then show ?case
    using "1.prems" "1.IH" [OF t [symmetric]] g t now
    by (auto simp: waitLoop.simps [of env key deadline s] split: sum.splits if_splits)
qed

lemma waitLoop_gets:
  assumes "waitLoop env key deadline s = (r, s')"
  shows "\<exists>evs. trace s' = trace s @ evs \<and> list_all (readsOnly key) evs \<and>
           int (gets evs) * (30 * millisecond) < max 1 (deadline - clk s + 30 * millisecond)"
  using assms
proof (induction env key deadline s rule: waitLoop.induct)
  case (1 env key deadline s)
  obtain now s1 where t: "run_state (time_Now env) s = (now, s1)" by (cases "run_state (time_Now env) s")
  have now: "clk s1 = now" "clk s \<le> now" "trace s1 = trace s" using t by (auto simp: run_time_Now)
  obtain r2 s2 where g: "run_state (GetAs ''get_wait'' env key) s1 = (r2, s2)"
    by (cases "run_state (GetAs ''get_wait'' env key) s1")
  obtain d where d: "trace s2 = trace s @ [RedisGet key r2, RedisLatency ''get_wait'' (getOk r2) d]" "now \<le> clk s2"
    using run_GetAs(1,2) [OF g] now by auto
  define s3 where "s3 = snd (run_state (time_Sleep (30 * millisecond)) s2)"
  have s3: "trace s3 = trace s2" "clk s3 = clk s2 + 30 * millisecond" by (simp_all add: s3_def)
  show ?case
  proof (cases "now < deadline")
    case False
    with "1.prems" t now show ?thesis by (auto simp: waitLoop.simps [of env key deadline s] gets_def)
  next
    case True
    have one: ?thesis if "s' = s2"
      using that d True now by (intro exI [of _ "[RedisGet key r2, RedisLatency ''get_wait'' (getOk r2) d]"]) (auto simp: gets_def)
    show ?thesis
    proof (cases "r2 = Inl RedisNil")
      case False
      with "1.prems" t g True one show ?thesis
        by (auto simp: waitLoop.simps [of env key deadline s] split: sum.splits if_splits)
    next
      case nil: True
      then have "waitLoop env key deadline s3 = (r, s')"
        using "1.prems" t g True by (simp add: waitLoop.simps [of env key deadline s] s3_def)
      from "1.IH" [OF t [symmetric] True g [symmetric] nil _ this [unfolded s3_def]]
      obtain evs where e: "trace s' = trace s3 @ evs" "list_all (readsOnly key) evs"
        "int (gets evs) * (30 * millisecond) < max 1 (deadline - clk s3 + 30 * millisecond)"
        by (auto simp: s3_def)
      show ?thesis
        using e d s3 True now
        by (intro exI [of _ "[RedisGet key r2, RedisLatency ''get_wait'' (getOk r2) d] @ evs"]) (auto simp: gets_def)
    qed
  qed
qed

section \<open>What is relied on of Redis\<close>

text \<open>
  Redis is shared with other requests and other gateways. \<open>entries\<close> are the keys it holds with
  their values, \<open>Good\<close> the pairs that other clients may store. Redis returns what it holds,
  stores what it is told to, and otherwise only loses keys (they expire) or gains what the
  other clients store.
\<close>

locale redis_rely =
  fixes env :: "'e env"
    and entries :: "'e \<Rightarrow> (string \<times> string) set"
    and Good :: "(string \<times> string) set"
  assumes get_returns: "fst (redis_Get env k e) = Inr v \<Longrightarrow> (k, v) \<in> entries e \<union> Good"
    and get_entries: "entries (snd (redis_Get env k e)) \<subseteq> entries e \<union> Good"
    and set_entries: "entries (snd (redis_Set env k v ttl e)) \<subseteq> insert (k, v) (entries e \<union> Good)"
    and setnx_entries: "entries (snd (redis_SetNX env k v ttl e)) \<subseteq> insert (k, v) (entries e \<union> Good)"
    and del_entries: "entries (snd (redis_Del env k e)) \<subseteq> entries e \<union> Good"
    and elapse_entries: "entries (snd (elapse env e)) \<subseteq> entries e \<union> Good"
    and http_entries: "entries (snd (http_Do env req e)) \<subseteq> entries e \<union> Good"
    and rand_entries: "entries (snd (rand_Int63n env n e)) \<subseteq> entries e \<union> Good"

text \<open>
  The invariant on the shared cache: what is stored under a key that is not a lock is a good
  value for it.
\<close>

definition cacheSound :: "('e \<Rightarrow> (string \<times> string) set) \<Rightarrow> (string \<times> string) set \<Rightarrow> ('e, 'x) host_scheme \<Rightarrow> bool" where
  "cacheSound entries Good s \<longleftrightarrow> (\<forall>k v. (k, v) \<in> entries (ext s) \<longrightarrow> isLockKey k \<or> (k, v) \<in> Good)"

lemma cacheSound_mono:
  "cacheSound entries Good s \<Longrightarrow> entries (ext s') \<subseteq> entries (ext s) \<union> Good \<Longrightarrow> cacheSound entries Good s'"
  by (auto simp: cacheSound_def)

lemma cacheSound_ext: "cacheSound entries Good s \<Longrightarrow> ext s' = ext s \<Longrightarrow> cacheSound entries Good s'"
  by (simp add: cacheSound_def)

context redis_rely
begin

lemma sound_emit [hoare_rules]:
  "triple (cacheSound entries Good) (emit ev) (\<lambda>_. cacheSound entries Good)"
  by (simp add: triple_def cacheSound_def)

lemma sound_external:
  assumes "\<And>e. entries (snd (f e)) \<subseteq> entries e \<union> Good"
  shows "triple (cacheSound entries Good) (external f) (\<lambda>_. cacheSound entries Good)"
proof (rule tripleI)
  fix s :: "('e, 'x) host_scheme"
  assume "cacheSound entries Good s"
  with assms [of "ext s"] show "cacheSound entries Good (snd (run_state (external f) s))"
    by (auto simp: run_external cacheSound_def)
qed

lemma sound_time_Now [hoare_rules]:
  "triple (cacheSound entries Good) (time_Now env) (\<lambda>_. cacheSound entries Good)"
proof (rule tripleI)
  fix s :: "('e, 'x) host_scheme"
  assume "cacheSound entries Good s"
  with elapse_entries [of "ext s"] show "cacheSound entries Good (snd (run_state (time_Now env) s))"
    by (auto simp: run_time_Now cacheSound_def)
qed

lemma sound_time_Since [hoare_rules]:
  "triple (cacheSound entries Good) (time_Since env t) (\<lambda>_. cacheSound entries Good)"
  unfolding time_Since_def by (rule triple_bind, rule sound_time_Now, rule triple_return)

lemma sound_Get:
  assumes "\<not> isLockKey key"
  shows "triple (cacheSound entries Good) (GetAs op env key)
           (\<lambda>r s. cacheSound entries Good s \<and> (\<forall>v. r = Inr v \<longrightarrow> (key, v) \<in> Good))"
proof (rule tripleI)
  fix s :: "('e, 'x) host_scheme"
  assume sound: "cacheSound entries Good s"
  obtain now s1 where t: "run_state (time_Now env) s = (now, s1)" by (cases "run_state (time_Now env) s")
  have s1: "cacheSound entries Good s1" using tripleD [OF sound_time_Now sound t] .
  define e where "e = ext s1"
  define s2 where "s2 = s1\<lparr>ext := snd (redis_Get env key e), trace := trace s1 @ [RedisGet key (fst (redis_Get env key e))]\<rparr>"
  have s2: "cacheSound entries Good s2"
    using get_entries [of key e] s1 by (auto simp: cacheSound_def s2_def e_def)
  obtain d s3 where d: "run_state (time_Since env now) s2 = (d, s3)" by (cases "run_state (time_Since env now) s2")
  have "cacheSound entries Good s3" using tripleD [OF sound_time_Since s2 d] .
  moreover have "run_state (GetAs op env key) s =
      (fst (redis_Get env key e), s3\<lparr>trace := trace s3 @ [RedisLatency op (getOk (fst (redis_Get env key e))) d]\<rparr>)"
    using t d by (simp add: GetAs_def metrics_defs run_external e_def s2_def)
  moreover have "(key, v) \<in> Good" if "fst (redis_Get env key e) = Inr v" for v
    using get_returns [OF that] s1 assms by (auto simp: cacheSound_def e_def)
  ultimately show "cacheSound entries Good (snd (run_state (GetAs op env key) s)) \<and>
      (\<forall>v. fst (run_state (GetAs op env key) s) = Inr v \<longrightarrow> (key, v) \<in> Good)"
    by (auto simp: cacheSound_def)
qed

lemma sound_jitteredTTL:
  "triple (cacheSound entries Good) (jitteredTTL env cfg) (\<lambda>_. cacheSound entries Good)"
  unfolding jitteredTTL_def Let_def
  by (intro triple_if triple_return triple_bind [OF sound_external] rand_entries)

lemma sound_store:
  assumes "isLockKey k \<or> (k, v) \<in> Good" and "\<And>e. entries (snd (f e)) \<subseteq> insert (k, v) (entries e \<union> Good)"
  shows "triple (cacheSound entries Good) (external f) (\<lambda>_. cacheSound entries Good)"
proof (rule tripleI)
  fix s :: "('e, 'x) host_scheme"
  assume "cacheSound entries Good s"
  with assms(1) assms(2) [of "ext s"] show "cacheSound entries Good (snd (run_state (external f) s))"
    by (auto simp: run_external cacheSound_def)
qed

lemma sound_Set:
  assumes "(key, val) \<in> Good"
  shows "triple (cacheSound entries Good) (Set env cfg key val) (\<lambda>_. cacheSound entries Good)"
proof -
  have "triple (cacheSound entries Good) (external (redis_Set env key val ttl)) (\<lambda>_. cacheSound entries Good)" for ttl
    using sound_store [of key val "redis_Set env key val ttl"] assms set_entries by blast
  note rules = this sound_time_Now sound_emit sound_time_Since
  show ?thesis
    unfolding Set_def metrics_defs
    by (intro triple_bind [OF sound_time_Now] triple_bind [OF sound_jitteredTTL], rule triple_sum)
       (intro triple_return triple_bind [OF rules(1)] triple_bind [OF sound_emit] triple_bind [OF sound_time_Since])+
qed

lemma sound_AcquireLock:
  "triple (cacheSound entries Good) (AcquireLock env cfg key)
     (\<lambda>r s. cacheSound entries Good s \<and> snd r = lockKeyOf key)"
proof -
  have "triple (cacheSound entries Good) (external (redis_SetNX env (lockKeyOf key) token ttl)) (\<lambda>_. cacheSound entries Good)"
    for token ttl
    by (rule sound_store [where k = "lockKeyOf key" and v = token]) (auto simp: isLockKey_def setnx_entries)
  note rules = this
  have "triple (\<lambda>s. cacheSound entries Good s) (State_Monad.return (r, lockKeyOf key))
      (\<lambda>r s. cacheSound entries Good s \<and> snd r = lockKeyOf key)" for r :: "redis_error + bool"
    by (simp add: triple_def)
  then show ?thesis
    unfolding AcquireLock_def metrics_defs Let_def
    by (intro triple_bind [OF rules] triple_bind [OF sound_time_Now] triple_bind [OF sound_emit]
        triple_bind [OF sound_time_Since])
qed

lemma sound_ReleaseLock:
  "triple (cacheSound entries Good) (ReleaseLock env lockKey) (\<lambda>_. cacheSound entries Good)"
  unfolding ReleaseLock_def
  by (intro triple_bind [OF sound_external] triple_bind [OF sound_emit] triple_return del_entries)

lemma sound_waitLoop:
  assumes "\<not> isLockKey key"
  shows "cacheSound entries Good s \<Longrightarrow> waitLoop env key deadline s = (r, s') \<Longrightarrow>
           cacheSound entries Good s' \<and> (\<forall>v. r = Inr v \<longrightarrow> (key, v) \<in> Good)"
proof (induction s rule: waitLoop_induct [where env = env and key = key and deadline = deadline])
  case (1 s)
  obtain now s1 where t: "run_state (time_Now env) s = (now, s1)" by (cases "run_state (time_Now env) s")
  obtain r2 s2 where g: "run_state (GetAs ''get_wait'' env key) s1 = (r2, s2)"
    by (cases "run_state (GetAs ''get_wait'' env key) s1")
  have s1: "cacheSound entries Good s1" by (rule tripleD [OF sound_time_Now "1.prems"(1) t])
  have s2: "cacheSound entries Good s2 \<and> (\<forall>v. r2 = Inr v \<longrightarrow> (key, v) \<in> Good)"
    by (rule tripleD [OF sound_Get [OF assms] s1 g])
  then have "cacheSound entries Good (snd (run_state (time_Sleep (30 * millisecond)) s2))"
    by (simp add: cacheSound_def)
  with "1.prems"(2) "1.IH" [OF t _] g s1 s2 show ?case
    by (auto simp: waitLoop_cases [OF t g] split: if_splits)
qed

lemma sound_WaitForLock:
  assumes "\<not> isLockKey key"
  shows "triple (cacheSound entries Good) (WaitForLock env cfg key)
           (\<lambda>r s. cacheSound entries Good s \<and> (\<forall>v. r = Inr v \<longrightarrow> (key, v) \<in> Good))"
  unfolding WaitForLock_def
proof (rule triple_bind [OF sound_time_Now])
  fix now
  show "triple (cacheSound entries Good) (State (waitLoop env key (now + CacheLockWait cfg)))
      (\<lambda>r s. cacheSound entries Good s \<and> (\<forall>v. r = Inr v \<longrightarrow> (key, v) \<in> Good))"
  proof (rule tripleI, goal_cases)
    case (1 s)
    from sound_waitLoop [OF assms 1 surjective_pairing] show ?case by simp
  qed
qed

end

text \<open>The concrete server meets the contract, whatever the other clients may store.\<close>

definition worldEntries :: "world \<Rightarrow> (string \<times> string) set" where
  "worldEntries w = {(k, v). \<exists>until. (k, v, until) \<in> set (store w)}"

lemma worldEntries_store: "worldEntries (storeKey k v ttl w) \<subseteq> insert (k, v) (worldEntries w)"
  by (auto simp: worldEntries_def storeKey_def)

lemma lookupKey_entries: "lookupKey w k = Some v \<Longrightarrow> (k, v) \<in> worldEntries w"
  by (auto simp: lookupKey_def worldEntries_def split: option.splits if_splits intro!: exI map_of_SomeD)

interpretation world_redis: redis_rely worldEnv worldEntries Good for Good
proof
  fix e k v ttl req n
  show "fst (redis_Get worldEnv k e) = Inr v \<Longrightarrow> (k, v) \<in> worldEntries e \<union> Good"
    by (auto simp: worldEnv_def lookupKey_entries split: if_splits option.splits)
  show "worldEntries (snd (redis_Set worldEnv k v ttl e)) \<subseteq> insert (k, v) (worldEntries e \<union> Good)"
    using worldEntries_store [of k v ttl e] by (auto simp: worldEnv_def)
  show "worldEntries (snd (redis_SetNX worldEnv k v ttl e)) \<subseteq> insert (k, v) (worldEntries e \<union> Good)"
    using worldEntries_store [of k v ttl e] by (auto simp: worldEnv_def)
  show "worldEntries (snd (http_Do worldEnv req e)) \<subseteq> worldEntries e \<union> Good"
    by (auto simp: worldEnv_def worldEntries_def split: list.splits)
qed (auto simp: worldEnv_def worldEntries_def dropKey_def)

section \<open>Claims\<close>

text \<open>
  C18: two requests share a cache key only if they have the same organisation and the same
  query text, unless their texts are a collision of SHA-256; and a lock never occupies the key
  of a cached value.
\<close>

theorem Key_separates:
  "(Key org q = Key org' q' \<longrightarrow>
     org = org' \<and> (q = q' \<or>
       org @ [newline] @ q \<noteq> org' @ [newline] @ q' \<and>
       Sum256 (org @ [newline] @ q) = Sum256 (org' @ [newline] @ q'))) \<and>
   Key org q \<noteq> lockKeyOf (Key org' q')"
proof -
  have "Key org q \<noteq> lockKeyOf (Key org' q')"
    using Key_not_lock [of org q] by (auto simp: isLockKey_def)
  then show ?thesis
    using Key_eqD [of org q org' q'] by auto
qed

theorem Key_separates_witness: "Key ''acme'' ''x'' \<noteq> Key ''acme:x'' ''y''"
  using Key_separates [of "''acme''" "''x''" "''acme:x''" "''y''"] by auto

text \<open>What \<open>rand.Int63n\<close> documents: a number in \<open>[0, n)\<close>.\<close>

definition rand_in_range :: "'e env \<Rightarrow> bool" where
  "rand_in_range env \<longleftrightarrow> (\<forall>n e. 0 < n \<longrightarrow> 0 \<le> fst (rand_Int63n env n e) \<and> fst (rand_Int63n env n e) < n)"

lemma world_rand: "rand_in_range worldEnv"
  by (simp add: rand_in_range_def worldEnv_def)

text \<open>
  C19: the expiry of a cached value. With a jitter below \<open>2^62\<close> nanoseconds and no overflow of
  the sum, computing it does not panic, and the result is the configured time to live plus or
  minus at most the jitter, raised to one second when it would be shorter; without jitter it is
  exactly the configured time to live.
\<close>

theorem jitteredTTL_bounds:
  assumes "rand_in_range env"
    and "CacheTTLJitter cfg < 4611686018427387904"
    and "min_int64 \<le> CacheTTL cfg - max 0 (CacheTTLJitter cfg)" and "CacheTTL cfg + max 0 (CacheTTLJitter cfg) \<le> max_int64"
    and "run_state (jitteredTTL env cfg) s = (r, s')"
  shows "\<exists>ttl. r = Inr ttl \<and>
     (if CacheTTLJitter cfg \<le> 0 then ttl = CacheTTL cfg
      else second \<le> ttl \<and> CacheTTL cfg - CacheTTLJitter cfg \<le> ttl \<and> ttl \<le> max second (CacheTTL cfg + CacheTTLJitter cfg))"
proof (cases "CacheTTLJitter cfg \<le> 0")
  case True
  with assms(5) show ?thesis by (simp add: jitteredTTL_def)
next
  case False
  define j where "j = CacheTTLJitter cfg"
  define r0 where "r0 = fst (rand_Int63n env (j * 2 + 1) (ext s))"
  have j: "0 < j" "j < 4611686018427387904" using False assms(2) by (simp_all add: j_def)
  then have n: "wrap64 (wrap64 (j * 2) + 1) = j * 2 + 1" by (simp add: in_int64_def)
  have r0: "0 \<le> r0" "r0 < j * 2 + 1"
    using assms(1) [unfolded rand_in_range_def, rule_format, of "j * 2 + 1" "ext s"] j
    by (simp_all add: r0_def)
  then have d: "wrap64 (r0 - j) = r0 - j" "wrap64 (CacheTTL cfg + (r0 - j)) = CacheTTL cfg + (r0 - j)"
    using j assms(3,4) by (auto simp: in_int64_def j_def intro!: wrap64_id)
  have "r = Inr (if CacheTTL cfg + (r0 - j) < second then second else CacheTTL cfg + (r0 - j))"
    using assms(5) False j n d by (auto simp: jitteredTTL_def Let_def run_external r0_def simp flip: j_def)
  with False r0 show ?thesis by (auto simp flip: j_def)
qed

theorem jitteredTTL_bounds_witness:
  "\<exists>ttl. fst (run_state (jitteredTTL worldEnv exampleConfig) \<lparr>clk = 0, ext = world0, trace = []\<rparr>) = Inr ttl \<and>
     55 * second \<le> ttl \<and> ttl \<le> 65 * second"
proof -
  obtain r s' where r: "run_state (jitteredTTL worldEnv exampleConfig) \<lparr>clk = 0, ext = world0, trace = []\<rparr> = (r, s')"
    by (cases "run_state (jitteredTTL worldEnv exampleConfig) \<lparr>clk = 0, ext = world0, trace = []\<rparr>")
  have "CacheTTL exampleConfig = 60 * second" "CacheTTLJitter exampleConfig = 5 * second"
    by (simp_all add: exampleConfig_def)
  with jitteredTTL_bounds [OF world_rand _ _ _ r] show ?thesis by (auto simp: r)
qed

text \<open>
  C39: a request that does not get the lock waits for a bounded time. \<open>WaitForLock\<close> always
  returns, it only reads the key it was given, less often than once per 30 ms of the configured
  wait (plus one), and it returns a value only if Redis returned that value for the key, an
  error other than \<open>redis.Nil\<close> only if Redis returned that error, and \<open>redis.Nil\<close> only once the
  wait is over.
\<close>

theorem WaitForLock_bounded:
  assumes "run_state (WaitForLock env cfg key) s = (r, s')"
  shows "(\<exists>evs. trace s' = trace s @ evs \<and> list_all (readsOnly key) evs \<and>
            int (gets evs) * (30 * millisecond) < max 1 (CacheLockWait cfg + 30 * millisecond)) \<and>
         ((\<exists>e. r = fst (redis_Get env key e) \<and> r \<noteq> Inl RedisNil) \<or>
          r = Inl RedisNil \<and> clk s + CacheLockWait cfg \<le> clk s')"
proof -
  obtain now s1 where t: "run_state (time_Now env) s = (now, s1)" by (cases "run_state (time_Now env) s")
  have now: "clk s1 = now" "clk s \<le> now" "trace s1 = trace s" using t by (auto simp: run_time_Now)
  have w: "waitLoop env key (now + CacheLockWait cfg) s1 = (r, s')"
    using assms t by (simp add: WaitForLock_def)
  from waitLoop_gets [OF w] waitLoop_result [OF w] now show ?thesis by fastforce
qed

text \<open>In the example the value is there: one read returns it.\<close>

theorem WaitForLock_bounded_witness:
  "\<exists>e. Inr ''rows'' = fst (redis_Get worldEnv ''k'' e)"
proof -
  define s where "s = \<lparr>clk = 0, ext = storeKey ''k'' ''rows'' second world0, trace = []\<rparr>"
  obtain r s' where r: "run_state (WaitForLock worldEnv exampleConfig ''k'') s = (r, s')"
    by (cases "run_state (WaitForLock worldEnv exampleConfig ''k'') s")
  have "fst (run_state (WaitForLock worldEnv exampleConfig ''k'')
      \<lparr>clk = 0, ext = storeKey ''k'' ''rows'' second world0, trace = []\<rparr>) = Inr ''rows''"
    by code_simp
  then have "r = Inr ''rows''" using r by (simp add: s_def)
  with WaitForLock_bounded [OF r] show ?thesis by auto
qed

end
