(* ===== verification/GoRegexp.thy ===== *)
theory GoRegexp
  imports GoStrings
begin

text \<open>
  Go's \<open>regexp\<close> package, for the operators the program's patterns use. \<open>rmatch\<close> lists
  every way a pattern matches at the start of a text, in the order of preference of
  leftmost-first matching (greedy repetition tries longer matches first, lazy repetition
  shorter ones, alternatives from left to right). \<open>FindStringSubmatch\<close> takes the first
  match at the leftmost position that has one. Repetition is over single-byte classes.
  In every pattern of the program what follows a negated class starts with an ASCII byte,
  so matching byte by byte agrees with Go's matching rune by rune.

  The lemmas relate the matcher to the language of a pattern: what it returns is a word
  of the language, and it finds a match wherever a word of the language occurs.
\<close>

datatype rx =
    Cl "char \<Rightarrow> bool"             \<comment> \<open>one byte of a class\<close>
  | Seq rx rx
  | Alt rx rx
  | Opt rx                         \<comment> \<open>greedy \<open>?\<close>\<close>
  | Star bool "char \<Rightarrow> bool"      \<comment> \<open>greedy or lazy repetition of a class\<close>
  | Grp nat rx                     \<comment> \<open>capturing group\<close>
  | Emp

type_synonym caps = "nat \<Rightarrow> string"  \<comment> \<open>a group that took no part is the empty string\<close>

fun star_rests :: "bool \<Rightarrow> (char \<Rightarrow> bool) \<Rightarrow> string \<Rightarrow> string list" where
  "star_rests greedy p [] = [[]]"
| "star_rests greedy p (c # s) =
     (if p c then (if greedy then star_rests greedy p s @ [c # s]
                   else (c # s) # star_rests greedy p s)
      else [c # s])"

fun rmatch :: "rx \<Rightarrow> caps \<Rightarrow> string \<Rightarrow> (caps \<times> string) list" where
  "rmatch (Cl p) cs s = (case s of [] \<Rightarrow> [] | c # r \<Rightarrow> if p c then [(cs, r)] else [])"
| "rmatch (Seq a b) cs s = concat (map (\<lambda>(cs', r). rmatch b cs' r) (rmatch a cs s))"
| "rmatch (Alt a b) cs s = rmatch a cs s @ rmatch b cs s"
| "rmatch (Opt a) cs s = rmatch a cs s @ [(cs, s)]"
| "rmatch (Star g p) cs s = map (\<lambda>r. (cs, r)) (star_rests g p s)"
| "rmatch (Grp n a) cs s =
     map (\<lambda>(cs', r). (cs'(n := take (length s - length r) s), r)) (rmatch a cs s)"
| "rmatch Emp cs s = [(cs, s)]"

text \<open>
  \<open>FindStringSubmatch\<close>: \<open>Some m\<close> with \<open>m 0\<close> the whole match and \<open>m n\<close> group \<open>n\<close>, or
  \<open>None\<close> (Go's nil slice).
\<close>

definition match_here :: "rx \<Rightarrow> string \<Rightarrow> caps option" where
  "match_here r s =
     (case rmatch r (\<lambda>_. []) s of [] \<Rightarrow> None
      | (cs, t) # _ \<Rightarrow> Some (cs(0 := take (length s - length t) s)))"

fun FindStringSubmatch :: "rx \<Rightarrow> string \<Rightarrow> caps option" where
  "FindStringSubmatch r [] = match_here r []"
| "FindStringSubmatch r (c # s) =
     (case match_here r (c # s) of Some m \<Rightarrow> Some m | None \<Rightarrow> FindStringSubmatch r s)"

text \<open>A pattern anchored at both ends, \<open>^r$\<close>.\<close>

definition FindAnchored :: "rx \<Rightarrow> string \<Rightarrow> caps option" where
  "FindAnchored r s =
     (case filter (\<lambda>(cs, t). t = []) (rmatch r (\<lambda>_. []) s) of [] \<Rightarrow> None
      | (cs, t) # _ \<Rightarrow> Some (cs(0 := s)))"

section \<open>Building patterns\<close>

definition Ch :: "char \<Rightarrow> rx" where "Ch c = Cl (\<lambda>x. x = c)"

fun Lit :: "string \<Rightarrow> rx" where
  "Lit [] = Emp"
| "Lit (c # s) = Seq (Ch c) (Lit s)"

definition Plus :: "bool \<Rightarrow> (char \<Rightarrow> bool) \<Rightarrow> rx" where
  "Plus g p = Seq (Cl p) (Star g p)"

text \<open>\<open>\s\<close> and \<open>\d\<close> are ASCII classes; \<open>\s\<close> does not hold the vertical tab.\<close>

definition is_ws :: "char \<Rightarrow> bool" where
  "is_ws c \<longleftrightarrow> c \<in> {CHR 0x20, CHR 0x09, CHR 0x0A, CHR 0x0C, CHR 0x0D}"

definition Ws :: rx where "Ws = Star True is_ws"

fun Seqs :: "rx list \<Rightarrow> rx" where
  "Seqs [] = Emp"
| "Seqs (r # rs) = Seq r (Seqs rs)"

section \<open>The language of a pattern\<close>

fun lang :: "rx \<Rightarrow> string set" where
  "lang (Cl p) = {[c] |c. p c}"
| "lang (Seq a b) = {u @ v |u v. u \<in> lang a \<and> v \<in> lang b}"
| "lang (Alt a b) = lang a \<union> lang b"
| "lang (Opt a) = insert [] (lang a)"
| "lang (Star g p) = {w. \<forall>c \<in> set w. p c}"
| "lang (Grp n a) = lang a"
| "lang Emp = {[]}"

lemma star_rests_iff: "t \<in> set (star_rests g p s) \<longleftrightarrow> (\<exists>w. s = w @ t \<and> (\<forall>c \<in> set w. p c))"
proof (induction s)
  case Nil
  then show ?case by auto
next
  case (Cons c s)
  have "(\<exists>w. c # s = w @ t \<and> (\<forall>x \<in> set w. p x)) \<longleftrightarrow>
      t = c # s \<or> (p c \<and> (\<exists>w. s = w @ t \<and> (\<forall>x \<in> set w. p x)))"
    by (auto simp: prefix_Cons_iff [where P = "\<lambda>w. \<forall>x \<in> set w. p x"])
  with Cons show ?case by auto
qed

text \<open>
  What a match captures: \<open>matches r cs w cs'\<close> when the pattern can consume exactly \<open>w\<close> and
  turn the captures \<open>cs\<close> into \<open>cs'\<close>.
\<close>

fun matches :: "rx \<Rightarrow> caps \<Rightarrow> string \<Rightarrow> caps \<Rightarrow> bool" where
  "matches (Cl p) cs w cs' \<longleftrightarrow> cs' = cs \<and> (\<exists>c. w = [c] \<and> p c)"
| "matches (Seq a b) cs w cs' \<longleftrightarrow> (\<exists>u v c1. w = u @ v \<and> matches a cs u c1 \<and> matches b c1 v cs')"
| "matches (Alt a b) cs w cs' \<longleftrightarrow> matches a cs w cs' \<or> matches b cs w cs'"
| "matches (Opt a) cs w cs' \<longleftrightarrow> matches a cs w cs' \<or> w = [] \<and> cs' = cs"
| "matches (Star g p) cs w cs' \<longleftrightarrow> cs' = cs \<and> (\<forall>c \<in> set w. p c)"
| "matches (Grp n a) cs w cs' \<longleftrightarrow> (\<exists>c1. matches a cs w c1 \<and> cs' = c1(n := w))"
| "matches Emp cs w cs' \<longleftrightarrow> cs' = cs \<and> w = []"

lemma matches_sound: "matches r cs w cs' \<Longrightarrow> w \<in> lang r"
  by (induction r arbitrary: cs w cs') (auto, blast+)

lemma matches_complete: "w \<in> lang r \<Longrightarrow> \<exists>cs'. matches r cs w cs'"
proof (induction r arbitrary: cs w)
  case (Seq a b)
  then obtain u v where w: "w = u @ v" "u \<in> lang a" "v \<in> lang b" by auto
  then obtain c1 c2 where "matches a cs u c1" "matches b c1 v c2" using Seq.IH by blast
  with w show ?case by auto
next
  case (Alt a b)
  then have "(\<exists>cs'. matches a cs w cs') \<or> (\<exists>cs'. matches b cs w cs')" by auto
  then show ?case by auto
next
  case (Opt a)
  then have "(\<exists>cs'. matches a cs w cs') \<or> w = []" by auto
  then show ?case by auto
next
  case (Grp n a)
  then obtain c1 where "matches a cs w c1" by auto
  then show ?case by auto
qed auto

lemma matches_lang: "(\<exists>cs'. matches r cs w cs') \<longleftrightarrow> w \<in> lang r"
  using matches_sound matches_complete by blast

lemma matches_Lit [simp]: "matches (Lit u) cs w cs' \<longleftrightarrow> w = u \<and> cs' = cs"
  by (induction u arbitrary: w) (auto simp: Ch_def)

lemma matches_Ch [simp]: "matches (Ch c) cs w cs' \<longleftrightarrow> w = [c] \<and> cs' = cs"
  by (auto simp: Ch_def)

lemma matches_Ws [simp]: "matches Ws cs w cs' \<longleftrightarrow> list_all is_ws w \<and> cs' = cs"
  by (auto simp: Ws_def list_all_iff)

lemma matches_Plus [simp]: "matches (Plus g p) cs w cs' \<longleftrightarrow> w \<noteq> [] \<and> list_all p w \<and> cs' = cs"
proof (cases w)
  case (Cons c v)
  have "matches (Plus g p) cs w cs' \<longleftrightarrow> (\<exists>u c. w = c # u \<and> p c \<and> (\<forall>x \<in> set u. p x) \<and> cs' = cs)"
    by (auto simp: Plus_def intro: exI [of _ "[_]"])
  then show ?thesis using Cons by (auto simp: list_all_iff)
qed (simp add: Plus_def)

text \<open>Sequences that start with a literal or with white space.\<close>

lemma matches_Seq_simps:
  "matches (Seq (Ch c) r) cs w cs' \<longleftrightarrow> (\<exists>v. w = c # v \<and> matches r cs v cs')"
  "matches (Seq Ws r) cs w cs' \<longleftrightarrow> (\<exists>u v. w = u @ v \<and> list_all is_ws u \<and> matches r cs v cs')"
  "matches (Seq (Grp n (Plus g p)) r) cs w cs' \<longleftrightarrow>
     (\<exists>u v. w = u @ v \<and> u \<noteq> [] \<and> list_all p u \<and> matches r (cs(n := u)) v cs')"
  "matches (Seq Emp r) cs w cs' \<longleftrightarrow> matches r cs w cs'"
  "matches (Seq r Emp) cs w cs' \<longleftrightarrow> matches r cs w cs'"
  by auto

lemma matches_Seq_assoc: "matches (Seq (Seq a b) r) cs w cs' \<longleftrightarrow> matches (Seq a (Seq b r)) cs w cs'"
  by (simp, metis append.assoc)

lemma matches_SeqI:
  "matches r cs v cs' \<Longrightarrow> matches (Seq (Lit u) r) cs (u @ v) cs'"
  "matches r cs v cs' \<Longrightarrow> matches (Seq (Ch c) r) cs ([c] @ v) cs'"
  "list_all is_ws u \<Longrightarrow> matches r cs v cs' \<Longrightarrow> matches (Seq Ws r) cs (u @ v) cs'"
  by auto

lemma matches_Seq_Grp_PlusI:
  "u \<noteq> [] \<Longrightarrow> list_all p u \<Longrightarrow> matches r (cs(n := u)) v cs' \<Longrightarrow>
     matches (Seq (Grp n (Plus g p)) r) cs (u @ v) cs'"
  by auto

lemmas matches_Seqs = matches_Seq_simps matches_Seq_assoc

text \<open>White space in front of a byte that is none is empty.\<close>

lemma ws_Cons_eq:
  "list_all is_ws w \<Longrightarrow> \<not> is_ws c \<Longrightarrow> w @ a = c # r \<longleftrightarrow> w = [] \<and> a = c # r"
  "list_all is_ws w \<Longrightarrow> \<not> is_ws c \<Longrightarrow> c # r = w @ a \<longleftrightarrow> w = [] \<and> a = c # r"
  by (cases w; auto)+

lemma is_ws_ascii_space: "list_all is_ws w \<Longrightarrow> list_all ascii_space w"
  by (auto simp: list_all_iff is_ws_def space_encs_def)

text \<open>The matcher returns exactly the splits of the text into a matched word and a rest.\<close>

lemma rmatch_matches:
  "(cs', t) \<in> set (rmatch r cs s) \<longleftrightarrow> (\<exists>w. s = w @ t \<and> matches r cs w cs')"
proof (induction r arbitrary: cs cs' s t)
  case (Cl p)
  then show ?case by (cases s) auto
next
  case (Seq a b)
  have "(cs', t) \<in> set (rmatch (Seq a b) cs s) \<longleftrightarrow>
      (\<exists>c1 r. (c1, r) \<in> set (rmatch a cs s) \<and> (cs', t) \<in> set (rmatch b c1 r))"
    by auto
  also have "\<dots> \<longleftrightarrow> (\<exists>c1 u v. s = u @ v @ t \<and> matches a cs u c1 \<and> matches b c1 v cs')"
    unfolding Seq.IH by auto
  also have "\<dots> \<longleftrightarrow> (\<exists>w. s = w @ t \<and> matches (Seq a b) cs w cs')"
    by (simp, metis append.assoc)
  finally show ?case .
next
  case (Star g p)
  have "(cs', t) \<in> set (rmatch (Star g p) cs s) \<longleftrightarrow> cs' = cs \<and> t \<in> set (star_rests g p s)"
    by auto
  then show ?case by (auto simp: star_rests_iff)
next
  case (Grp n a)
  have "(cs', t) \<in> set (rmatch (Grp n a) cs s) \<longleftrightarrow>
      (\<exists>c1. (c1, t) \<in> set (rmatch a cs s) \<and> cs' = c1(n := take (length s - length t) s))"
    by (auto split: prod.splits)
  then show ?case unfolding Grp.IH by auto
qed auto

lemma rmatch_iff:
  "(\<exists>cs'. (cs', t) \<in> set (rmatch r cs s)) \<longleftrightarrow> (\<exists>w. s = w @ t \<and> w \<in> lang r)"
  unfolding rmatch_matches using matches_lang by blast

lemma match_here_matches:
  assumes "match_here r s = Some m"
  shows "\<exists>cs. matches r (\<lambda>_. []) (m 0) cs \<and> (\<forall>n. n \<noteq> 0 \<longrightarrow> m n = cs n)"
proof -
  obtain cs t where eq: "(cs, t) \<in> set (rmatch r (\<lambda>_. []) s)"
      and m: "m = cs(0 := take (length s - length t) s)"
    using assms by (auto simp: match_here_def split: list.splits prod.splits)
  then obtain w where "s = w @ t" "matches r (\<lambda>_. []) w cs"
    unfolding rmatch_matches by blast
  with m show ?thesis by auto
qed

lemma match_here_Some:
  assumes "match_here r s = Some m"
  obtains t where "s = m 0 @ t" and "m 0 \<in> lang r"
proof -
  obtain cs t where eq: "(cs, t) \<in> set (rmatch r (\<lambda>_. []) s)"
      and m: "m = cs(0 := take (length s - length t) s)"
    using assms by (auto simp: match_here_def split: list.splits prod.splits)
  then obtain w where "s = w @ t" "w \<in> lang r"
    using rmatch_iff by blast
  then show thesis using m by (intro that [of t]) auto
qed

lemma match_here_None: "match_here r s = None \<longleftrightarrow> \<not> (\<exists>w t. s = w @ t \<and> w \<in> lang r)"
proof -
  have "match_here r s = None \<longleftrightarrow> (\<forall>t cs. (cs, t) \<notin> set (rmatch r (\<lambda>_. []) s))"
    by (auto simp: match_here_def split: list.splits)
  then show ?thesis using rmatch_iff [of _ r "\<lambda>_. []" s] by blast
qed

text \<open>
  The match is a word of the language, and no word of the language starts further left.
\<close>

lemma FindStringSubmatch_Some:
  assumes "FindStringSubmatch r s = Some m"
  shows "m 0 \<in> lang r \<and> (\<exists>pre post. s = pre @ m 0 @ post \<and> match_here r (m 0 @ post) = Some m \<and>
    (\<forall>u w v. s = u @ w @ v \<longrightarrow> w \<in> lang r \<longrightarrow> length pre \<le> length u))"
  using assms
proof (induction r s rule: FindStringSubmatch.induct)
  case (1 r)
  then obtain t where "[] = m 0 @ t" "m 0 \<in> lang r"
    by (auto elim: match_here_Some)
  with 1 show ?case by auto
next
  case (2 r c s)
  show ?case
  proof (cases "match_here r (c # s)")
    case (Some m')
    with 2 have m: "match_here r (c # s) = Some m" by simp
    then obtain t where "c # s = m 0 @ t" "m 0 \<in> lang r"
      by (auto elim: match_here_Some)
    with m show ?thesis by (intro conjI exI [of _ "[]"] exI [of _ t]) auto
  next
    case None
    with 2 obtain pre post where IH: "m 0 \<in> lang r" "s = pre @ m 0 @ post"
        "match_here r (m 0 @ post) = Some m"
        "\<And>u w v. s = u @ w @ v \<Longrightarrow> w \<in> lang r \<Longrightarrow> length pre \<le> length u"
      by (simp del: append_assoc) blast
    have "length (c # pre) \<le> length u" if uwv: "c # s = u @ w @ v" "w \<in> lang r" for u w v
    proof (cases u)
      case Nil
      with uwv None show ?thesis by (metis append_Nil match_here_None)
    next
      case (Cons d u')
      with uwv have "s = u' @ w @ v" by simp
      then show ?thesis using IH(4) uwv(2) Cons by force
    qed
    then show ?thesis using IH by (intro conjI exI [of _ "c # pre"] exI [of _ post]) auto
  qed
qed

lemma FindStringSubmatch_matches:
  assumes "FindStringSubmatch r s = Some m"
  shows "\<exists>cs. matches r (\<lambda>_. []) (m 0) cs \<and> (\<forall>n. n \<noteq> 0 \<longrightarrow> m n = cs n)"
  using FindStringSubmatch_Some [OF assms] match_here_matches by blast

lemma FindStringSubmatch_None:
  "FindStringSubmatch r s = None \<longleftrightarrow> \<not> (\<exists>u w v. s = u @ w @ v \<and> w \<in> lang r)"
proof (induction r s rule: FindStringSubmatch.induct)
  case (1 r)
  then show ?case by (simp add: match_here_None)
next
  case (2 r c s)
  show ?case
  proof (cases "match_here r (c # s)")
    case None
    then have "\<not> (\<exists>w v. c # s = w @ v \<and> w \<in> lang r)"
      by (simp only: match_here_None not_False_eq_True)
    moreover have "FindStringSubmatch r (c # s) = FindStringSubmatch r s"
      using None by simp
    ultimately show ?thesis
      unfolding infix_Cons_iff [of c s "\<lambda>w. w \<in> lang r"] using 2 [OF None] by simp
  next
    case (Some m)
    then have "\<exists>w v. c # s = w @ v \<and> w \<in> lang r"
      using match_here_None [of r "c # s"] by (metis option.distinct(1))
    with Some show ?thesis
      unfolding infix_Cons_iff [of c s "\<lambda>w. w \<in> lang r"] by simp
  qed
qed

text \<open>
  Replacing the matched text by \<open>strings.Replace(\<dots>, 1)\<close> rewrites the matched position:
  the text cannot occur further left, because it would match there.
\<close>

lemma Replace1_match:
  assumes "FindStringSubmatch r s = Some m"
  shows "\<exists>pre post. s = pre @ m 0 @ post \<and> (\<forall>new. Replace1 s (m 0) new = pre @ new @ post)"
proof -
  obtain pre post where s: "s = pre @ m 0 @ post" "m 0 \<in> lang r"
      and left: "\<And>u w v. s = u @ w @ v \<Longrightarrow> w \<in> lang r \<Longrightarrow> length pre \<le> length u"
    using FindStringSubmatch_Some [OF assms] by blast
  have "Replace1 (pre @ m 0 @ post) (m 0) new = pre @ new @ post" for new
    by (rule Replace1_first) (use s left in blast)
  with s(1) show ?thesis by blast
qed

lemma FindAnchored_Some:
  assumes "FindAnchored r s = Some m"
  shows "\<exists>cs. matches r (\<lambda>_. []) s cs \<and> m = cs(0 := s)"
proof -
  let ?L = "filter (\<lambda>(cs, t). t = []) (rmatch r (\<lambda>_. []) s)"
  obtain cs t L where L: "?L = (cs, t) # L" and m: "m = cs(0 := s)"
    using assms by (cases ?L) (auto simp: FindAnchored_def)
  have "(cs, t) \<in> set ?L" unfolding L by simp
  with m show ?thesis by (auto simp: rmatch_matches)
qed

lemma FindAnchored_None: "FindAnchored r s = None \<longleftrightarrow> s \<notin> lang r"
proof -
  have "FindAnchored r s = None \<longleftrightarrow> filter (\<lambda>(cs, t). t = []) (rmatch r (\<lambda>_. []) s) = []"
    by (auto simp: FindAnchored_def split: list.splits)
  also have "\<dots> \<longleftrightarrow> (\<forall>cs. (cs, []) \<notin> set (rmatch r (\<lambda>_. []) s))"
    by (auto simp: filter_empty_conv)
  also have "\<dots> \<longleftrightarrow> \<not> (\<exists>cs. matches r (\<lambda>_. []) s cs)"
    by (simp add: rmatch_matches)
  finally show ?thesis by (simp only: matches_lang)
qed

end
