(* ===== verification/FluxSplit.thy ===== *)
theory FluxSplit
  imports GoRegexp GoTime
begin

text \<open>
  \<open>internal/flux/split.go\<close>: recognising a \<open>range(...)\<close> call whose end is still moving and
  rewriting the query into a cached segment, which ends at the cutoff, and a live segment,
  which starts there. The patterns are the source's regular expressions; the lemmas say what
  a pattern captures, that both rewritten queries differ from the original only in the
  matched call, and that the cutoff printed into them reads back as the same instant.
\<close>

abbreviation dquote :: char where "dquote \<equiv> CHR 0x22"
abbreviation squote :: char where "squote \<equiv> CHR 0x27"

section \<open>Patterns\<close>

text \<open>The part all three range patterns share: \<open>range\s*\(\s*start\s*:\s*([^,]+?)\s*,\s*stop\s*:\s*\<close>\<close>

definition rangeHead :: "rx list" where
  "rangeHead =
    [Lit ''range'', Ws, Ch (CHR ''(''), Ws, Lit ''start'', Ws, Ch (CHR '':''), Ws,
     Grp 1 (Plus False (\<lambda>c. c \<noteq> CHR '','')), Ws, Ch (CHR '',''), Ws,
     Lit ''stop'', Ws, Ch (CHR '':''), Ws]"

definition nowTail :: "rx list" where
  "nowTail = [Lit ''now'', Ws, Ch (CHR ''(''), Ws, Ch (CHR '')''), Ws, Ch (CHR '')'')]"

definition rangeNowPattern :: rx where
  "rangeNowPattern = Seqs (rangeHead @ nowTail)"

definition varTail :: "rx list" where
  "varTail = [Lit ''v.timeRangeStop'', Ws, Ch (CHR '')'')]"

definition rangeVarStopPattern :: rx where
  "rangeVarStopPattern = Seqs (rangeHead @ varTail)"

text \<open>\<open>time\s*\(\s*v\s*:\s*\<close> and \<open>\s*\)\<close> around a quoted instant.\<close>

definition timeHead :: "rx list" where
  "timeHead = [Lit ''time'', Ws, Ch (CHR ''(''), Ws, Ch (CHR ''v''), Ws, Ch (CHR '':''), Ws]"

definition quoted :: "char \<Rightarrow> rx \<Rightarrow> rx" where
  "quoted q r = Seqs [Ch q, r, Ch q]"

definition notq :: "char \<Rightarrow> rx" where
  "notq q = Plus True (\<lambda>c. c \<noteq> q)"

definition absStop :: rx where
  "absStop =
    Alt (Seqs (timeHead @ [quoted dquote (notq dquote), Ws, Ch (CHR '')'')]))
    (Alt (Seqs (timeHead @ [quoted squote (notq squote), Ws, Ch (CHR '')'')]))
      (Seqs ([Opt (Ch dquote)] @ replicate 4 (Cl is_digit) @ [Ch (CHR ''-'')] @
             replicate 2 (Cl is_digit) @ [Ch (CHR ''-'')] @ replicate 2 (Cl is_digit) @
             [Ch (CHR ''T''), Plus True (\<lambda>c. is_digit c \<or> c \<in> {CHR '':'', CHR ''.'', CHR ''+'', CHR ''-''}),
              Ch (CHR ''Z''), Opt (Ch dquote)])))"

definition rangeAbsStopPattern :: rx where
  "rangeAbsStopPattern = Seqs (rangeHead @ [Grp 2 absStop, Ws, Ch (CHR '')'')])"

definition timeWithStringArg :: rx where
  "timeWithStringArg =
    Seqs (timeHead @
      [Grp 1 (Alt (quoted dquote (Grp 2 (notq dquote))) (quoted squote (Grp 3 (notq squote)))),
       Ws, Ch (CHR '')'')])"

section \<open>Operations\<close>

text \<open>\<open>fmt.Sprintf("time(v: %q)", ...)\<close>: the printed instant holds no byte that \<open>%q\<close> escapes.\<close>

definition cutoffExpr :: "instant \<Rightarrow> string" where
  "cutoffExpr cutoff = ''time(v: '' @ [dquote] @ Format_RFC3339Nano cutoff @ [dquote] @ '')''"

definition parseFluxTimeExpr :: "string \<Rightarrow> instant option" where
  "parseFluxTimeExpr e =
     (let expr = TrimSpace e
      in case FindAnchored timeWithStringArg expr of
           Some m \<Rightarrow> (let ts = m 2 in Parse_RFC3339Nano (if ts = [] then m 3 else ts))
         | None \<Rightarrow> Parse_RFC3339Nano (Trim expr [dquote]))"

definition rangeExpr :: "string \<Rightarrow> string \<Rightarrow> string" where
  "rangeExpr start stop = ''range(start: '' @ start @ '', stop: '' @ stop @ '')''"

definition buildSplitQueries :: "string \<Rightarrow> string \<Rightarrow> string \<Rightarrow> string \<Rightarrow> string \<Rightarrow> string \<times> string" where
  "buildSplitQueries flux fullRangeMatch startExpr cachedStopExpr liveStopExpr =
     (let cachedRange = rangeExpr (TrimSpace startExpr) cachedStopExpr;
          liveRange = rangeExpr cachedStopExpr liveStopExpr
      in (Replace1 flux fullRangeMatch cachedRange, Replace1 flux fullRangeMatch liveRange))"

text \<open>
  The start of the cached segment when the stop is an absolute instant: the requested
  window, moved back so that it ends at the cutoff.
\<close>

definition absCachedStart :: "string \<Rightarrow> instant \<Rightarrow> instant \<Rightarrow> string" where
  "absCachedStart startExpr stop cutoff =
     (case parseFluxTimeExpr startExpr of
        Some start \<Rightarrow>
          if start < stop then
            (let window = time_Sub stop start
             in if window > 0 then cutoffExpr (cutoff - window) else startExpr)
          else startExpr
      | None \<Rightarrow> startExpr)"

text \<open>\<open>Some (cached, live)\<close> is the source's \<open>ok = true\<close>.\<close>

definition SplitNowQuery :: "string \<Rightarrow> instant \<Rightarrow> (string \<times> string) option" where
  "SplitNowQuery flux cutoff =
     (case FindStringSubmatch rangeNowPattern flux of
        Some m \<Rightarrow> Some (buildSplitQueries flux (m 0) (m 1) (cutoffExpr cutoff) ''now()'')
      | None \<Rightarrow>
     (case FindStringSubmatch rangeVarStopPattern flux of
        Some m \<Rightarrow> Some (buildSplitQueries flux (m 0) (m 1) (cutoffExpr cutoff) ''v.timeRangeStop'')
      | None \<Rightarrow>
     (case FindStringSubmatch rangeAbsStopPattern flux of
        Some m \<Rightarrow>
          (case parseFluxTimeExpr (m 2) of
             None \<Rightarrow> None
           | Some stop \<Rightarrow>
               if \<not> cutoff < stop then None
               else
                 (let startExpr = TrimSpace (m 1);
                      cachedStart = absCachedStart startExpr stop cutoff
                  in Some (buildSplitQueries flux (m 0) cachedStart (cutoffExpr cutoff) (TrimSpace (m 2)))))
      | None \<Rightarrow> None)))"

section \<open>The rewritten queries\<close>

lemma buildSplitQueries_match:
  assumes "FindStringSubmatch r flux = Some m"
    and "buildSplitQueries flux (m 0) startE stopE liveE = (cached, live)"
  shows "\<exists>pre post. flux = pre @ m 0 @ post \<and>
    cached = pre @ rangeExpr (TrimSpace startE) stopE @ post \<and>
    live = pre @ rangeExpr stopE liveE @ post"
  using Replace1_match [OF assms(1)] assms(2) by (auto simp: buildSplitQueries_def Let_def)

text \<open>
  The case analysis of \<open>SplitNowQuery\<close>: which pattern matched, and what the start of the
  cached and the end of the live segment are.
\<close>

lemma SplitNowQuery_cases:
  assumes "SplitNowQuery flux cutoff = Some (cached, live)"
  obtains (Now) m where "FindStringSubmatch rangeNowPattern flux = Some m"
      "(cached, live) = buildSplitQueries flux (m 0) (m 1) (cutoffExpr cutoff) ''now()''"
  | (Var) m where "FindStringSubmatch rangeVarStopPattern flux = Some m"
      "(cached, live) = buildSplitQueries flux (m 0) (m 1) (cutoffExpr cutoff) ''v.timeRangeStop''"
  | (Abs) m stop where "FindStringSubmatch rangeAbsStopPattern flux = Some m"
      "parseFluxTimeExpr (m 2) = Some stop" "cutoff < stop"
      "(cached, live) = buildSplitQueries flux (m 0) (absCachedStart (TrimSpace (m 1)) stop cutoff)
         (cutoffExpr cutoff) (TrimSpace (m 2))"
  using assms by (auto simp: SplitNowQuery_def Let_def split: option.splits if_splits)

section \<open>What the patterns capture\<close>

lemma matches_rangeHead:
  assumes "matches (Seqs (rangeHead @ rs)) cs w cs'"
  obtains w1 w2 w3 w4 g w5 w6 w7 w8 v where
    "w = ''range'' @ w1 @ ''('' @ w2 @ ''start'' @ w3 @ '':'' @ w4 @ g @ w5 @ '','' @ w6 @
      ''stop'' @ w7 @ '':'' @ w8 @ v"
    "list_all is_ws w1" "list_all is_ws w2" "list_all is_ws w3" "list_all is_ws w4"
    "list_all is_ws w5" "list_all is_ws w6" "list_all is_ws w7" "list_all is_ws w8"
    "g \<noteq> []" "list_all (\<lambda>c. c \<noteq> CHR '','') g" "matches (Seqs rs) (cs(1 := g)) v cs'"
  using assms
  by (simp add: rangeHead_def matches_Seqs del: matches.simps(2)) blast

lemma is_ws_simps [simp]:
  "is_ws (CHR '' '')" "\<not> is_ws (CHR ''('')" "\<not> is_ws (CHR '')'')" "\<not> is_ws (CHR '':'')"
  "\<not> is_ws (CHR '','')" "\<not> is_ws (CHR ''s'')" "\<not> is_ws (CHR ''n'')" "\<not> is_ws (CHR ''v'')"
  "\<not> is_ws (CHR ''t'')" "\<not> is_ws dquote" "\<not> is_ws squote"
  by (simp_all add: is_ws_def)

lemma no_comma_ws: "list_all is_ws w \<Longrightarrow> CHR '','' \<notin> set w"
  by (auto simp: list_all_iff)

text \<open>
  A call in canonical form, \<open>range(start: S, stop: E)\<close>, can be taken apart in one way only,
  up to white space around the captured start.
\<close>

lemma rangeHead_unique:
  assumes eq: "rangeExpr S E @ post = ''range'' @ w1 @ ''('' @ w2 @ ''start'' @ w3 @ '':'' @ w4 @ g @ w5 @
      '','' @ w6 @ ''stop'' @ w7 @ '':'' @ w8 @ v"
    and ws: "list_all is_ws w1" "list_all is_ws w2" "list_all is_ws w3" "list_all is_ws w4"
      "list_all is_ws w5" "list_all is_ws w6" "list_all is_ws w7" "list_all is_ws w8"
    and g: "list_all (\<lambda>c. c \<noteq> CHR '','') g" and S: "CHR '','' \<notin> set S"
    and v: "v \<noteq> []" "\<not> is_ws (hd v)" and E: "E \<noteq> []" "\<not> is_ws (hd E)"
  shows "TrimSpace g = TrimSpace S" and "E @ '')'' @ post = v"
    and "''range(start: '' @ S @ '', stop: '' = ''range'' @ w1 @ ''('' @ w2 @ ''start'' @ w3 @ '':'' @ w4 @
      g @ w5 @ '','' @ w6 @ ''stop'' @ w7 @ '':'' @ w8"
proof -
  have w123: "w1 = []" "w2 = []" "w3 = []"
    using eq ws by (auto simp: rangeExpr_def ws_Cons_eq)
  with eq have "(CHR '' '' # S) @ CHR '','' # '' stop: '' @ E @ '')'' @ post =
      (w4 @ g @ w5) @ CHR '','' # w6 @ ''stop'' @ w7 @ '':'' @ w8 @ v"
    by (simp add: rangeExpr_def)
  moreover have "CHR '','' \<notin> set (w4 @ g @ w5)"
    using g ws(4,5) no_comma_ws by (auto simp: list_all_iff)
  moreover have "CHR '','' \<notin> set (CHR '' '' # S)" using S by simp
  ultimately have Sg: "CHR '' '' # S = w4 @ g @ w5"
      and rest: "'' stop: '' @ E @ '')'' @ post = w6 @ ''stop'' @ w7 @ '':'' @ w8 @ v"
    using append_sep_eq [of "CHR '',''" "CHR '' '' # S" "w4 @ g @ w5"] by blast+
  have "TrimSpace (CHR '' '' # S) = TrimSpace S"
    using TrimSpace_ascii [of "'' ''" "[]" S] by (simp add: space_encs_def)
  moreover have "TrimSpace (w4 @ g @ w5) = TrimSpace g"
    by (rule TrimSpace_ascii) (simp_all add: ws is_ws_ascii_space)
  ultimately show "TrimSpace g = TrimSpace S" using Sg by simp
  have w6: "w6 = '' ''"
    using rest ws(6) by (cases w6) (auto simp: ws_Cons_eq Cons_eq_append_conv)
  then have w7: "w7 = []" using rest ws(7) by (auto simp: ws_Cons_eq)
  with w6 rest have w8v: "CHR '' '' # E @ '')'' @ post = w8 @ v" by simp
  obtain e E' where e: "E = e # E'" using E(1) by (cases E) auto
  have w8: "w8 = '' ''"
  proof (cases w8)
    case Nil
    then show ?thesis using w8v v by auto
  next
    case (Cons c w)
    then show ?thesis using w8v e E(2) v ws(8) by (cases w) auto
  qed
  show "E @ '')'' @ post = v" using w8v w8 by simp
  show "''range(start: '' @ S @ '', stop: '' = ''range'' @ w1 @ ''('' @ w2 @ ''start'' @ w3 @ '':'' @ w4 @
      g @ w5 @ '','' @ w6 @ ''stop'' @ w7 @ '':'' @ w8"
    using w123 w6 w7 w8 Sg by simp
qed

lemma rangeHead_intro:
  assumes "S \<noteq> []" and "CHR '','' \<notin> set S" and "matches (Seqs rs) (cs(1 := S)) v cs'"
  shows "matches (Seqs (rangeHead @ rs)) cs (''range(start: '' @ S @ '', stop: '' @ v) cs'"
proof -
  have "list_all (\<lambda>c. c \<noteq> CHR '','') S" using assms(2) by (auto simp: list_all_iff)
  moreover have "Seqs (rangeHead @ rs) = Seq (Lit ''range'') (Seq Ws (Seq (Ch (CHR ''('')) (Seq Ws
      (Seq (Lit ''start'') (Seq Ws (Seq (Ch (CHR '':'')) (Seq Ws
      (Seq (Grp 1 (Plus False (\<lambda>c. c \<noteq> CHR '',''))) (Seq Ws (Seq (Ch (CHR '','')) (Seq Ws
      (Seq (Lit ''stop'') (Seq Ws (Seq (Ch (CHR '':'')) (Seq Ws (Seqs rs))))))))))))))))"
    by (simp add: rangeHead_def del: Lit.simps)
  ultimately have "matches (Seqs (rangeHead @ rs)) cs
      (''range'' @ [] @ ''('' @ [] @ ''start'' @ [] @ '':'' @ '' '' @ S @ [] @ '','' @ '' '' @
       ''stop'' @ [] @ '':'' @ '' '' @ v) cs'"
    by (simp only:) (intro matches_SeqI matches_Seq_Grp_PlusI; use assms in simp)
  then show ?thesis by simp
qed

text \<open>The tail of a pattern matches exactly \<open>E)\<close> in front of \<open>post\<close> and leaves group 1 alone.\<close>

definition exact_tail :: "rx list \<Rightarrow> string \<Rightarrow> string \<Rightarrow> bool" where
  "exact_tail rs E post \<longleftrightarrow>
     (\<forall>cs. \<exists>cs'. matches (Seqs rs) cs (E @ '')'') cs') \<and>
     (\<forall>cs v cs'. matches (Seqs rs) cs v cs' \<longrightarrow> v \<noteq> [] \<and> \<not> is_ws (hd v) \<and> cs' 1 = cs 1 \<and>
        (\<forall>post'. E @ '')'' @ post = v @ post' \<longrightarrow> v = E @ '')''))"

lemma exact_tailI:
  assumes "\<And>cs. \<exists>cs'. matches (Seqs rs) cs (E @ '')'') cs'"
    and "\<And>cs v cs'. matches (Seqs rs) cs v cs' \<Longrightarrow> v \<noteq> [] \<and> \<not> is_ws (hd v) \<and> cs' 1 = cs 1"
    and "\<And>cs v cs' post'. matches (Seqs rs) cs v cs' \<Longrightarrow> E @ '')'' @ post = v @ post' \<Longrightarrow> v = E @ '')''"
  shows "exact_tail rs E post"
  using assms unfolding exact_tail_def by blast

lemma exact_tailD:
  assumes "exact_tail rs E post" and "matches (Seqs rs) cs v cs'"
  shows "v \<noteq> []" "\<not> is_ws (hd v)" "cs' 1 = cs 1" "E @ '')'' @ post = v @ post' \<Longrightarrow> v = E @ '')''"
  using assms unfolding exact_tail_def by blast+

lemma exact_tail_now: "exact_tail nowTail ''now()'' post"
proof (rule exact_tailI)
  fix cs :: caps
  have "matches (Seqs nowTail) cs (''now'' @ [] @ ''('' @ [] @ '')'' @ [] @ '')'' @ []) cs"
    unfolding nowTail_def Seqs.simps by (intro matches_SeqI) simp_all
  then show "\<exists>cs'. matches (Seqs nowTail) cs (''now()'' @ '')'') cs'" by auto
qed (auto simp: nowTail_def matches_Seqs ws_Cons_eq simp del: matches.simps(2))

lemma exact_tail_var: "exact_tail varTail ''v.timeRangeStop'' post"
proof (rule exact_tailI)
  fix cs :: caps
  have "matches (Seqs varTail) cs (''v.timeRangeStop'' @ [] @ '')'' @ []) cs"
    unfolding varTail_def Seqs.simps by (intro matches_SeqI) simp_all
  then show "\<exists>cs'. matches (Seqs varTail) cs (''v.timeRangeStop'' @ '')'') cs'" by auto
qed (auto simp: varTail_def matches_Seqs ws_Cons_eq simp del: matches.simps(2))

text \<open>No match of the pattern starts inside \<open>pre\<close>.\<close>

definition first_match :: "rx \<Rightarrow> string \<Rightarrow> string \<Rightarrow> bool" where
  "first_match r pre flux \<longleftrightarrow>
     (\<forall>u w v. flux = u @ w @ v \<longrightarrow> w \<in> lang r \<longrightarrow> length pre \<le> length u)"

lemma FindStringSubmatch_call:
  assumes flux: "flux = pre @ rangeExpr S E @ post"
    and S: "S \<noteq> []" "CHR '','' \<notin> set S" and E: "E \<noteq> []" "\<not> is_ws (hd E)"
    and tail: "exact_tail rs E post" and first: "first_match (Seqs (rangeHead @ rs)) pre flux"
  shows "\<exists>m. FindStringSubmatch (Seqs (rangeHead @ rs)) flux = Some m \<and>
    m 0 = rangeExpr S E \<and> TrimSpace (m 1) = TrimSpace S \<and>
    (\<forall>new. Replace1 flux (m 0) new = pre @ new @ post)"
proof -
  let ?r = "Seqs (rangeHead @ rs)"
  obtain c0 where "matches (Seqs rs) ((\<lambda>_. [])(1 := S)) (E @ '')'') c0"
    using tail unfolding exact_tail_def by blast
  then have "matches ?r (\<lambda>_. []) (''range(start: '' @ S @ '', stop: '' @ E @ '')'') c0"
    by (rule rangeHead_intro [OF S])
  then have call: "rangeExpr S E \<in> lang ?r"
    using matches_sound by (simp add: rangeExpr_def)
  have "FindStringSubmatch ?r flux \<noteq> None"
    unfolding FindStringSubmatch_None flux using call by blast
  then obtain m where m: "FindStringSubmatch ?r flux = Some m" by blast
  obtain pre' post' where p': "flux = pre' @ m 0 @ post'" "m 0 \<in> lang ?r"
      "\<And>u w v. flux = u @ w @ v \<Longrightarrow> w \<in> lang ?r \<Longrightarrow> length pre' \<le> length u"
    using FindStringSubmatch_Some [OF m] by blast
  have "length pre' = length pre"
    using p' first call by (metis first_match_def flux le_antisym)
  with p'(1) have eq: "rangeExpr S E @ post = m 0 @ post'"
    by (simp add: flux)
  obtain cs where cs: "matches ?r (\<lambda>_. []) (m 0) cs" "m 1 = cs 1"
    using FindStringSubmatch_matches [OF m] by auto
  obtain w1 w2 w3 w4 g w5 w6 w7 w8 v where d:
    "m 0 = ''range'' @ w1 @ ''('' @ w2 @ ''start'' @ w3 @ '':'' @ w4 @ g @ w5 @ '','' @ w6 @
      ''stop'' @ w7 @ '':'' @ w8 @ v"
    "list_all is_ws w1" "list_all is_ws w2" "list_all is_ws w3" "list_all is_ws w4"
    "list_all is_ws w5" "list_all is_ws w6" "list_all is_ws w7" "list_all is_ws w8"
    "g \<noteq> []" "list_all (\<lambda>c. c \<noteq> CHR '','') g" "matches (Seqs rs) ((\<lambda>_. [])(1 := g)) v cs"
    by (rule matches_rangeHead [OF cs(1)]) (rule that, assumption+)
  have v: "v \<noteq> []" "\<not> is_ws (hd v)" "cs 1 = g"
    using exact_tailD(1-3) [OF tail d(12)] by simp_all
  have vE: "v = E @ '')''" if "E @ '')'' @ post = v @ post'" for post'
    by (rule exact_tailD(4) [OF tail d(12) that])
  have eq': "rangeExpr S E @ post = ''range'' @ w1 @ ''('' @ w2 @ ''start'' @ w3 @ '':'' @ w4 @ g @ w5 @
      '','' @ w6 @ ''stop'' @ w7 @ '':'' @ w8 @ (v @ post')"
    using eq d(1) by simp
  have hd: "v @ post' \<noteq> []" "\<not> is_ws (hd (v @ post'))" using v by auto
  note u = rangeHead_unique [OF eq' d(2-9,11) S(2) hd E]
  have m0: "m 0 = rangeExpr S E"
    using d(1) u(3) vE [OF u(2)] by (simp add: rangeExpr_def)
  have "Replace1 flux (m 0) new = pre @ new @ post" for new
    unfolding m0 flux
    by (rule Replace1_first) (use first call flux in \<open>auto simp: first_match_def\<close>)
  with m m0 u(1) v(3) cs(2) show ?thesis by auto
qed

section \<open>The cutoff reads back\<close>

lemma matches_timeHead:
  assumes "matches (Seqs (timeHead @ rs)) cs w cs'"
  obtains w1 w2 w3 w4 v where
    "w = ''time'' @ w1 @ ''('' @ w2 @ ''v'' @ w3 @ '':'' @ w4 @ v"
    "list_all is_ws w1" "list_all is_ws w2" "list_all is_ws w3" "list_all is_ws w4"
    "matches (Seqs rs) cs v cs'"
  using assms
  by (simp add: timeHead_def matches_Seqs del: matches.simps(2)) blast

lemma matches_quoted:
  "matches (quoted q r) cs w cs' \<longleftrightarrow> (\<exists>u. w = [q] @ u @ [q] \<and> matches r cs u cs')"
  by (auto simp: quoted_def)

lemma timeWithStringArg_dquote:
  assumes "matches timeWithStringArg (\<lambda>_. []) (''time(v: '' @ [dquote] @ X @ [dquote] @ '')'') cs"
    and "dquote \<notin> set X"
  shows "cs 2 = X"
proof -
  let ?arg = "Grp 1 (Alt (quoted dquote (Grp 2 (notq dquote))) (quoted squote (Grp 3 (notq squote))))"
  obtain w1 w2 w3 w4 v where w: "''time(v: '' @ [dquote] @ X @ [dquote] @ '')'' =
      ''time'' @ w1 @ ''('' @ w2 @ ''v'' @ w3 @ '':'' @ w4 @ v"
      "list_all is_ws w1" "list_all is_ws w2" "list_all is_ws w3" "list_all is_ws w4"
      and v: "matches (Seqs [?arg, Ws, Ch (CHR '')'')]) (\<lambda>_. []) v cs"
    by (rule matches_timeHead [OF assms(1) [unfolded timeWithStringArg_def]]) (rule that, assumption+)
  obtain q X' w' where q: "v = [q] @ X' @ [q] @ w' @ '')''" "list_all is_ws w'"
      "q = dquote \<and> cs 2 = X' \<and> dquote \<notin> set X' \<or> q = squote"
    using v by (fastforce simp: matches_quoted notq_def list_all_iff)
  have w123: "w1 = []" "w2 = []" "w3 = []" using w by (auto simp: ws_Cons_eq)
  with w(1) have w4: "CHR '' '' # dquote # X @ [dquote] @ '')'' = w4 @ v" by simp
  have "w4 = '' ''"
    using w4 w(5) q(1,3) by (cases w4) (auto simp: ws_Cons_eq)
  with w4 q have "q = dquote" "cs 2 = X'" "dquote \<notin> set X'" "X @ dquote # '')'' = X' @ dquote # w' @ '')''"
    by auto
  then show ?thesis using assms(2) by (simp add: append_sep_eq)
qed

lemma timeWithStringArg_intro:
  assumes "dquote \<notin> set X" and "X \<noteq> []"
  shows "''time(v: '' @ [dquote] @ X @ [dquote] @ '')'' \<in> lang timeWithStringArg"
proof -
  let ?arg = "Grp 1 (Alt (quoted dquote (Grp 2 (notq dquote))) (quoted squote (Grp 3 (notq squote))))"
  define g where "g = [dquote] @ X @ [dquote]"
  have "matches (notq dquote) (\<lambda>_. []) X (\<lambda>_. [])"
    using assms by (auto simp: notq_def list_all_iff)
  then have "\<exists>cs. matches ?arg (\<lambda>_. []) g cs"
    by (auto simp: matches_quoted g_def)
  then obtain cs where arg: "matches ?arg (\<lambda>_. []) g cs" by blast
  have "matches (Seqs [Ws, Ch (CHR '')'')]) cs ([] @ '')'' @ []) cs"
    unfolding Seqs.simps by (intro matches_SeqI) simp_all
  then have close: "matches (Seqs [Ws, Ch (CHR '')'')]) cs '')'' cs" by simp
  have rest: "matches (Seqs [?arg, Ws, Ch (CHR '')'')]) (\<lambda>_. []) (g @ '')'') cs"
    unfolding Seqs.simps(2) [of ?arg] matches.simps(2) using arg close by blast
  have "Seqs (timeHead @ rs) = Seq (Lit ''time'') (Seq Ws (Seq (Ch (CHR ''('')) (Seq Ws
      (Seq (Ch (CHR ''v'')) (Seq Ws (Seq (Ch (CHR '':'')) (Seq Ws (Seqs rs))))))))" for rs
    by (simp add: timeHead_def del: Lit.simps)
  then have "matches timeWithStringArg (\<lambda>_. [])
      (''time'' @ [] @ ''('' @ [] @ ''v'' @ [] @ '':'' @ '' '' @ (g @ '')'')) cs"
    unfolding timeWithStringArg_def by (simp only:) (intro matches_SeqI rest; simp)
  then have "''time'' @ [] @ ''('' @ [] @ ''v'' @ [] @ '':'' @ '' '' @ (g @ '')'') \<in> lang timeWithStringArg"
    by (rule matches_sound)
  then show ?thesis by (simp add: g_def)
qed

lemma no_outer_space_time: "no_outer_space (''time(v: '' @ X @ '')'')"
proof -
  have "hd (''time(v: '' @ X @ '')'') \<notin> hd ` set space_encs"
    "hd (rev (''time(v: '' @ X @ '')'')) \<notin> hd ` set (map rev space_encs)"
    by (simp_all add: space_encs_def)
  then show ?thesis
    using enc_len_hd [of space_encs "''time(v: '' @ X @ '')''"]
      enc_len_hd [of "map rev space_encs" "rev (''time(v: '' @ X @ '')'')"]
    by (simp add: no_outer_space_def)
qed

lemma parseFluxTimeExpr_dquote:
  assumes "dquote \<notin> set X" and "X \<noteq> []"
  shows "parseFluxTimeExpr (''time(v: '' @ [dquote] @ X @ [dquote] @ '')'') = Parse_RFC3339Nano X"
proof -
  let ?e = "''time(v: '' @ [dquote] @ X @ [dquote] @ '')''"
  have "FindAnchored timeWithStringArg ?e \<noteq> None"
    unfolding FindAnchored_None using timeWithStringArg_intro [OF assms] by simp
  then obtain m where m: "FindAnchored timeWithStringArg ?e = Some m" by blast
  then have "m 2 = X"
    using FindAnchored_Some [OF m] timeWithStringArg_dquote assms(1) by auto
  moreover have "TrimSpace ?e = ?e"
    using no_outer_space_time [of "[dquote] @ X @ [dquote]"] by (intro TrimSpace_id) simp
  ultimately show ?thesis
    using m assms(2) unfolding parseFluxTimeExpr_def by (simp only: Let_def option.case if_False)
qed

lemma parseFluxTimeExpr_cutoffExpr_eq:
  "parseFluxTimeExpr (cutoffExpr t) = Parse_RFC3339Nano (Format_RFC3339Nano t)"
proof -
  have "dquote \<notin> set (Format_RFC3339Nano t)"
    using Format_RFC3339Nano_bytes [of t] by (auto simp: list_all_iff time_byte_def is_digit_def)
  then show ?thesis
    unfolding cutoffExpr_def by (rule parseFluxTimeExpr_dquote) (rule Format_RFC3339Nano_nonempty)
qed

lemma parseFluxTimeExpr_cutoffExpr:
  "four_digit_year t \<Longrightarrow> parseFluxTimeExpr (cutoffExpr t) = Some t"
  by (simp add: parseFluxTimeExpr_cutoffExpr_eq Parse_Format_RFC3339Nano)

section \<open>First calls\<close>

lemma lang_rangeHead: "w \<in> lang (Seqs (rangeHead @ rs)) \<Longrightarrow> \<exists>t. w = ''range'' @ t"
proof -
  have "Seqs (rangeHead @ rs) = Seq (Lit ''range'') (Seqs (tl rangeHead @ rs))"
    by (simp add: rangeHead_def del: Lit.simps)
  moreover have "u = ''range''" if "u \<in> lang (Lit ''range'')" for u
    using that by (auto simp: Ch_def)
  moreover assume "w \<in> lang (Seqs (rangeHead @ rs))"
  moreover have "w \<in> lang (Seq a b) \<Longrightarrow> \<exists>u v. w = u @ v \<and> u \<in> lang a" for a b by auto
  ultimately show "\<exists>t. w = ''range'' @ t" by metis
qed

text \<open>A call is the first one when the text before it does not start another \<open>range\<close>.\<close>

lemma first_match_plain:
  assumes "\<not> Contains (pre @ ''rang'') ''range''"
  shows "first_match (Seqs (rangeHead @ rs)) pre (pre @ rangeExpr S E @ post)"
  unfolding first_match_def
proof (intro allI impI)
  fix u w v
  assume eq: "pre @ rangeExpr S E @ post = u @ w @ v" and w: "w \<in> lang (Seqs (rangeHead @ rs))"
  obtain t where t: "w = ''range'' @ t" using lang_rangeHead [OF w] by blast
  show "length pre \<le> length u"
  proof (rule ccontr)
    assume "\<not> length pre \<le> length u"
    then have less: "length u < length pre" by simp
    define x where "x = ''e(start: '' @ S @ '', stop: '' @ E @ '')'' @ post"
    have "(pre @ ''rang'') @ x = (u @ ''range'') @ t @ v"
      using eq t by (simp add: rangeExpr_def x_def)
    then have "\<exists>y. pre @ ''rang'' = (u @ ''range'') @ y"
      by (rule append_prefix) (use less in simp)
    then have "Contains (pre @ ''rang'') ''range''" unfolding Contains_iff by (metis append_assoc)
    with assms show False ..
  qed
qed

section \<open>Claims\<close>

text \<open>
  C5: a query that is split is rewritten in one place only. There is one \<open>range\<close> call that
  matches one of the three patterns; the cached query replaces it by a range that ends at the
  cutoff, the live query by a range that starts at the cutoff, and both keep everything before
  and after the call.
\<close>

theorem SplitNowQuery_shape:
  assumes "SplitNowQuery flux cutoff = Some (cached, live)"
  shows "\<exists>pre call post start stop. flux = pre @ call @ post \<and>
    call \<in> lang rangeNowPattern \<union> lang rangeVarStopPattern \<union> lang rangeAbsStopPattern \<and>
    cached = pre @ rangeExpr start (cutoffExpr cutoff) @ post \<and>
    live = pre @ rangeExpr (cutoffExpr cutoff) stop @ post"
  using assms
proof (cases rule: SplitNowQuery_cases)
  case (Now m)
  then show ?thesis
    using buildSplitQueries_match [OF Now(1)] FindStringSubmatch_Some [OF Now(1)] by (metis UnCI)
next
  case (Var m)
  then show ?thesis
    using buildSplitQueries_match [OF Var(1)] FindStringSubmatch_Some [OF Var(1)] by (metis UnCI)
next
  case (Abs m stop)
  then show ?thesis
    using buildSplitQueries_match [OF Abs(1)] FindStringSubmatch_Some [OF Abs(1)] by (metis UnCI)
qed

theorem SplitNowQuery_shape_witness:
  "\<exists>pre call post. ''from(b) |> range(start: -1h, stop: now()) |> last()'' = pre @ call @ post \<and>
     call \<in> lang rangeNowPattern \<union> lang rangeVarStopPattern \<union> lang rangeAbsStopPattern"
proof -
  have "SplitNowQuery ''from(b) |> range(start: -1h, stop: now()) |> last()'' 0 \<noteq> None" by code_simp
  then obtain cached live where
    "SplitNowQuery ''from(b) |> range(start: -1h, stop: now()) |> last()'' 0 = Some (cached, live)" by auto
  from SplitNowQuery_shape [OF this] show ?thesis by blast
qed

text \<open>
  C13: the documented rewrite of \<open>range(start: S, stop: now())\<close>, for the first such call of a
  query: the cached query asks for \<open>S\<close> up to the cutoff and the live query for the cutoff up
  to \<open>now()\<close>.
\<close>

theorem SplitNowQuery_now:
  fixes pre S post :: string
  assumes "S \<noteq> []" and "CHR '','' \<notin> set S"
    and "first_match rangeNowPattern pre (pre @ rangeExpr S ''now()'' @ post)"
  shows "SplitNowQuery (pre @ rangeExpr S ''now()'' @ post) cutoff =
    Some (pre @ rangeExpr (TrimSpace S) (cutoffExpr cutoff) @ post,
          pre @ rangeExpr (cutoffExpr cutoff) ''now()'' @ post)"
proof -
  let ?flux = "pre @ rangeExpr S ''now()'' @ post"
  obtain m where "FindStringSubmatch rangeNowPattern ?flux = Some m"
      "TrimSpace (m 1) = TrimSpace S" "\<And>new. Replace1 ?flux (m 0) new = pre @ new @ post"
    using FindStringSubmatch_call [OF refl assms(1,2) _ _ exact_tail_now assms(3) [unfolded rangeNowPattern_def]]
    unfolding rangeNowPattern_def by auto
  then show ?thesis by (simp add: SplitNowQuery_def buildSplitQueries_def)
qed

theorem SplitNowQuery_now_witness:
  "SplitNowQuery (''from(b) |> '' @ rangeExpr ''-1h'' ''now()'' @ '' |> last()'') 0 =
    Some (''from(b) |> '' @ rangeExpr ''-1h'' (cutoffExpr 0) @ '' |> last()'',
          ''from(b) |> '' @ rangeExpr (cutoffExpr 0) ''now()'' @ '' |> last()'')"
proof -
  have "\<not> Contains (''from(b) |> '' @ ''rang'') ''range''" by code_simp
  from first_match_plain [OF this] have "first_match rangeNowPattern ''from(b) |> ''
      (''from(b) |> '' @ rangeExpr ''-1h'' ''now()'' @ '' |> last()'')"
    unfolding rangeNowPattern_def by blast
  moreover have "TrimSpace ''-1h'' = ''-1h''" by code_simp
  ultimately show ?thesis using SplitNowQuery_now [of "''-1h''" "''from(b) |> ''" "'' |> last()''" 0] by simp
qed

text \<open>
  The same rewrite for Grafana's \<open>stop: v.timeRangeStop\<close>, when no call of the query ends at
  \<open>now()\<close>.
\<close>

lemma SplitNowQuery_var:
  fixes pre S post :: string
  assumes "S \<noteq> []" and "CHR '','' \<notin> set S"
    and "FindStringSubmatch rangeNowPattern (pre @ rangeExpr S ''v.timeRangeStop'' @ post) = None"
    and "first_match rangeVarStopPattern pre (pre @ rangeExpr S ''v.timeRangeStop'' @ post)"
  shows "SplitNowQuery (pre @ rangeExpr S ''v.timeRangeStop'' @ post) cutoff =
    Some (pre @ rangeExpr (TrimSpace S) (cutoffExpr cutoff) @ post,
          pre @ rangeExpr (cutoffExpr cutoff) ''v.timeRangeStop'' @ post)"
proof -
  let ?flux = "pre @ rangeExpr S ''v.timeRangeStop'' @ post"
  obtain m where "FindStringSubmatch rangeVarStopPattern ?flux = Some m"
      "TrimSpace (m 1) = TrimSpace S" "\<And>new. Replace1 ?flux (m 0) new = pre @ new @ post"
    using FindStringSubmatch_call [OF refl assms(1,2) _ _ exact_tail_var assms(4) [unfolded rangeVarStopPattern_def]]
    unfolding rangeVarStopPattern_def by auto
  then show ?thesis using assms(3) by (simp add: SplitNowQuery_def buildSplitQueries_def)
qed

text \<open>
  C14: the two segments meet. The cutoff that is printed into both queries (as
  \<open>time(v: "...")\<close>) denotes exactly the cutoff instant, to the nanosecond, for every instant of
  a year with four digits.
\<close>

theorem cutoff_reads_back:
  assumes "four_digit_year t"
  shows "parseFluxTimeExpr (cutoffExpr t) = Some t"
  using assms by (rule parseFluxTimeExpr_cutoffExpr)

theorem cutoff_reads_back_witness:
  "parseFluxTimeExpr (cutoffExpr 63839318400123456789) = Some 63839318400123456789"
  by (rule cutoff_reads_back) code_simp

text \<open>
  C15: with an absolute start and stop the cached segment keeps the length of the requested
  window: it starts at the cutoff minus that length, which is earlier than requested by as much
  as the stop lies after the cutoff.
\<close>

theorem absCachedStart_window:
  assumes "parseFluxTimeExpr startExpr = Some start" and "start < stop"
    and "stop - start \<le> max_int64" and "four_digit_year (cutoff - (stop - start))"
  shows "parseFluxTimeExpr (absCachedStart startExpr stop cutoff) = Some (cutoff - (stop - start))"
proof -
  have "time_Sub stop start = stop - start" using assms(2,3) by (simp add: time_Sub_def)
  then have "absCachedStart startExpr stop cutoff = cutoffExpr (cutoff - (stop - start))"
    using assms(1,2) by (simp add: absCachedStart_def Let_def)
  then show ?thesis using assms(4) by (simp add: parseFluxTimeExpr_cutoffExpr)
qed

theorem absCachedStart_window_witness:
  "parseFluxTimeExpr (absCachedStart (cutoffExpr (63839318400 * second)) (63839318460 * second) (63839318430 * second)) =
     Some (63839318370 * second)"
proof -
  have "four_digit_year (63839318400 * second)" "four_digit_year (63839318370 * second)" by code_simp+
  then show ?thesis
    using absCachedStart_window [OF parseFluxTimeExpr_cutoffExpr, of "63839318400 * second" "63839318460 * second"
        "63839318430 * second"] by simp
qed

end
