(* ===== verification/GoUrl.thy ===== *)
theory GoUrl
  imports GoStrings
begin

text \<open>
  What the gateway uses of \<open>net/url\<close>: \<open>QueryEscape\<close>, \<open>QueryUnescape\<close> and
  \<open>URL.Query().Get\<close>, with the round trip through them.
\<close>

definition ascii_letter :: "char \<Rightarrow> bool" where
  "ascii_letter c \<longleftrightarrow>
     (65 \<le> (of_char c :: int) \<and> (of_char c :: int) \<le> 90) \<or> (97 \<le> (of_char c :: int) \<and> (of_char c :: int) \<le> 122)"

definition shouldEscape :: "char \<Rightarrow> bool" where
  "shouldEscape c \<longleftrightarrow> \<not> (ascii_letter c \<or> is_digit c \<or> c \<in> set ''-_.~'')"

definition upper_hex :: "int \<Rightarrow> char" where
  "upper_hex n = (if n < 10 then char_of (48 + n) else char_of (55 + n))"

fun QueryEscape :: "string \<Rightarrow> string" where
  "QueryEscape [] = []"
| "QueryEscape (c # s) =
     (if c = CHR '' '' then CHR ''+'' # QueryEscape s
      else if shouldEscape c
        then CHR ''%'' # upper_hex (of_char c div 16) # upper_hex (of_char c mod 16) # QueryEscape s
      else c # QueryEscape s)"

text \<open>The value of a hexadecimal digit.\<close>

definition unhex :: "char \<Rightarrow> int option" where
  "unhex c =
     (let n = (of_char c :: int)
      in if 48 \<le> n \<and> n \<le> 57 then Some (n - 48)
         else if 97 \<le> n \<and> n \<le> 102 then Some (n - 87)
         else if 65 \<le> n \<and> n \<le> 70 then Some (n - 55)
         else None)"

fun QueryUnescape :: "string \<Rightarrow> string option" where
  "QueryUnescape [] = Some []"
| "QueryUnescape (c # s) =
     (if c = CHR ''%'' then
        (case s of
           a # b # r \<Rightarrow>
             (case (unhex a, unhex b, QueryUnescape r) of
                (Some x, Some y, Some t) \<Rightarrow> Some (char_of (16 * x + y) # t)
              | _ \<Rightarrow> None)
         | _ \<Rightarrow> None)
      else
        (case QueryUnescape s of
           None \<Rightarrow> None
         | Some t \<Rightarrow> Some ((if c = CHR ''+'' then CHR '' '' else c) # t)))"

text \<open>
  \<open>URL.Query()\<close>: settings are separated by \<open>&\<close>; one that contains a semicolon, is empty or does
  not unescape is dropped.
\<close>

fun querySetting :: "string \<Rightarrow> (string \<times> string) option" where
  "querySetting st =
     (if CHR '';'' \<in> set st \<or> st = [] then None
      else (case cut_at (CHR ''='') st of (k, v) \<Rightarrow>
        (case (QueryUnescape k, QueryUnescape v) of (Some k, Some v) \<Rightarrow> Some (k, v) | _ \<Rightarrow> None)))"

definition URL_Query :: "string \<Rightarrow> (string \<times> string) list" where
  "URL_Query raw = List.map_filter querySetting (Split (CHR ''&'') raw)"

definition query_Get :: "string \<Rightarrow> string \<Rightarrow> string" where
  "query_Get raw key = (case map_of (URL_Query raw) key of None \<Rightarrow> [] | Some v \<Rightarrow> v)"

section \<open>Round trip\<close>

lemma unhex_upper_hex: "0 \<le> n \<Longrightarrow> n < 16 \<Longrightarrow> unhex (upper_hex n) = Some n"
proof -
  assume "0 \<le> n" "n < 16"
  moreover have "list_all (\<lambda>n. unhex (upper_hex n) = Some n) [0..15]" by code_simp
  ultimately show ?thesis by (simp add: list_all_iff)
qed

lemma char_range: "0 \<le> (of_char c :: int)" "(of_char c :: int) < 256"
  using pos_mod_bound [of 256 "of_char c :: int"] pos_mod_sign [of 256 "of_char c :: int"] by simp_all

lemma QueryUnescape_QueryEscape: "QueryUnescape (QueryEscape s) = Some s"
proof (induction s)
  case (Cons c s)
  have "unhex (upper_hex (of_char c div 16)) = Some (of_char c div 16)"
    "unhex (upper_hex (of_char c mod 16)) = Some (of_char c mod 16)"
    using char_range [of c] by (auto intro!: unhex_upper_hex)
  moreover have "char_of (16 * (of_char c div 16) + of_char c mod 16 :: int) = c"
    by (simp add: mult.commute [of 16])
  moreover have "shouldEscape (CHR ''%'')" "shouldEscape (CHR ''+'')" by code_simp+
  ultimately show ?case using Cons by auto
qed simp

definition plain_byte :: "char \<Rightarrow> bool" where
  "plain_byte c \<longleftrightarrow> \<not> shouldEscape c \<or> c \<in> set ''%+''"

lemma plain_upper_hex: "0 \<le> n \<Longrightarrow> n < 16 \<Longrightarrow> plain_byte (upper_hex n)"
proof -
  assume "0 \<le> n" "n < 16"
  moreover have "list_all (\<lambda>n. plain_byte (upper_hex n)) [0..15]" by code_simp
  ultimately show ?thesis by (simp add: list_all_iff)
qed

lemma QueryEscape_plain: "list_all plain_byte (QueryEscape s)"
proof (induction s)
  case (Cons c s)
  have "plain_byte (upper_hex (of_char c div 16))" "plain_byte (upper_hex (of_char c mod 16))"
    using char_range [of c] by (auto intro!: plain_upper_hex)
  moreover have "plain_byte (CHR ''%'')" "plain_byte (CHR ''+'')" by code_simp+
  ultimately show ?case using Cons by (auto simp: plain_byte_def)
qed simp

lemma QueryEscape_no: "\<not> plain_byte c \<Longrightarrow> c \<notin> set (QueryEscape s)"
  using QueryEscape_plain [of s] by (auto simp: list_all_iff)

lemma query_Get_escaped: "query_Get (''org='' @ QueryEscape org) ''org'' = org"
proof -
  have "\<not> plain_byte (CHR ''&'')" "\<not> plain_byte (CHR '';'')" by code_simp+
  then have no: "CHR ''&'' \<notin> set (QueryEscape org)" "CHR '';'' \<notin> set (QueryEscape org)"
    using QueryEscape_no by blast+
  then have "Split (CHR ''&'') (''org='' @ QueryEscape org) = [''org='' @ QueryEscape org]"
    by (intro Split_clean) simp
  moreover have "cut_at (CHR ''='') (''org='' @ QueryEscape org) = (''org'', QueryEscape org)"
    by (simp add: cut_at_def)
  moreover have "QueryUnescape ''org'' = Some ''org''" by code_simp
  ultimately show ?thesis
    using no by (simp add: query_Get_def URL_Query_def QueryUnescape_QueryEscape List.map_filter_def)
qed

end
