(* ===== verification/Gateway.thy ===== *)
theory Gateway
  imports Upstream Cache FluxSplit FluxUtils GoUrl
begin

text \<open>
  \<open>internal/gateway/server.go\<close>: authentication, forwarding with retries, the cached fetch with
  its lock, and the HTTP handlers. A handler returns what it gives to the response writer
  (\<open>reply\<close>), or the panic that \<open>net/http\<close> recovers from by closing the connection. The request
  context carries no state here: a cancelled context shows as errors of Redis and of the HTTP
  client, which the environment may return at any time.
\<close>

section \<open>Requests and replies\<close>

record in_request =
  in_method :: string
  in_path :: string
  in_rawQuery :: string
  in_header :: header
  in_body :: "string + string"  \<comment> \<open>\<open>Inl\<close>: reading the body fails\<close>

record reply =
  st_code :: int
  st_header :: header
  st_body :: string

type_synonym handled = "go_panic + reply"

text \<open>\<open>w.WriteHeader(status)\<close> and \<open>w.Write(body)\<close>: a code that has not three digits panics.\<close>

definition respond :: "header \<Rightarrow> int \<Rightarrow> string \<Rightarrow> handled" where
  "respond hdr status body =
     (if status < 100 \<or> status > 999 then Inl (Panic (''invalid WriteHeader code '' @ Itoa status))
      else Inr \<lparr>st_code = status, st_header = hdr, st_body = body\<rparr>)"

definition http_Error :: "string \<Rightarrow> int \<Rightarrow> handled" where
  "http_Error msg code =
     respond (hdr_Set ''X-Content-Type-Options'' ''nosniff''
               (hdr_Set ''Content-Type'' ''text/plain; charset=utf-8'' []))
       code (msg @ [newline])"

section \<open>Helpers\<close>

definition validGatewayAuth :: "string \<Rightarrow> string \<Rightarrow> bool" where
  "validGatewayAuth header token =
     (if token = [] then False
      else
        (let header = TrimSpace header
         in if header = [] then False
            else if HasPrefix header ''Bearer '' then TrimSpace (TrimPrefix header ''Bearer '') = token
            else if HasPrefix header ''Token '' then TrimSpace (TrimPrefix header ''Token '') = token
            else False))"

definition writeHeaders :: "header \<Rightarrow> header \<Rightarrow> header" where
  "writeHeaders dst src =
     foldl (\<lambda>dst kv. foldl (\<lambda>dst v. hdr_Add (fst kv) v dst) dst (snd kv)) dst src"

definition defaultCachedHeader :: "string \<Rightarrow> header" where
  "defaultCachedHeader accept =
     (if Contains (ToLower accept) ''arrow''
      then [(''Content-Type'', [''application/vnd.apache.arrow.stream''])]
      else [(''Content-Type'', [''text/csv; charset=utf-8''])])"

text \<open>\<open>d.Milliseconds()\<close>.\<close>

definition Milliseconds :: "duration \<Rightarrow> int" where
  "Milliseconds d = go_div d millisecond"

text \<open>\<open>err.Error()\<close> of the client's errors.\<close>

fun redisMsg :: "redis_error \<Rightarrow> string" where
  "redisMsg RedisNil = ''redis: nil''"
| "redisMsg (RedisErr msg) = msg"

section \<open>Forwarding\<close>

text \<open>What an upstream answered: payload, header, status.\<close>

type_synonym answer = "string \<times> header \<times> int"

text \<open>\<open>client.Do\<close> and \<open>io.ReadAll\<close>, shared by the two functions below.\<close>

definition exchange :: "'e env \<Rightarrow> http_request \<Rightarrow> ('e, 'x, string + answer) io" where
  "exchange env req = do {
     resp \<leftarrow> client_Do env req;
     State_Monad.return
       (case resp of
          Inl err \<Rightarrow> Inl err
        | Inr resp \<Rightarrow>
            (case rs_body resp of
               Inl err \<Rightarrow> Inl err
             | Inr payload \<Rightarrow> Inr (payload, rs_header resp, rs_status resp)))
   }"

text \<open>The requests, with the headers the code sets.\<close>

definition queryRequest :: "string \<Rightarrow> string \<Rightarrow> string \<Rightarrow> string \<Rightarrow> Target \<Rightarrow> string \<Rightarrow> http_request" where
  "queryRequest org body accept contentType target endpoint =
     \<lparr>rq_method = ''POST'', rq_url = endpoint @ ''?org='' @ QueryEscape org,
      rq_header =
        hdr_Set ''Content-Type'' (if contentType \<noteq> [] then contentType else ''application/vnd.flux'')
       (hdr_Set ''Accept'' (if accept \<noteq> [] then accept else ''application/csv'')
       (hdr_Set ''Authorization'' (''Token '' @ Token target) [])),
      rq_body = body\<rparr>"

definition readRequest :: "in_request \<Rightarrow> Target \<Rightarrow> string \<Rightarrow> http_request" where
  "readRequest r target endpoint =
     (let hdr = hdr_Set ''Authorization'' (''Token '' @ Token target) [];
          accept = hdr_Get (in_header r) ''Accept''
      in \<lparr>rq_method = in_method r,
          rq_url = (if in_rawQuery r \<noteq> [] then endpoint @ ''?'' @ in_rawQuery r else endpoint),
          rq_header = (if accept \<noteq> [] then hdr_Set ''Accept'' accept hdr else hdr),
          rq_body = []\<rparr>)"

definition forwardToTarget :: "'e env \<Rightarrow> string \<Rightarrow> string \<Rightarrow> string \<Rightarrow> string \<Rightarrow> Target \<Rightarrow> ('e, 'x, string + answer) io" where
  "forwardToTarget env org body accept contentType target =
     (case url_JoinPath env (URL target) ''/api/v2/query'' of
        Inl err \<Rightarrow> State_Monad.return (Inl err)
      | Inr endpoint \<Rightarrow>
          (let req = queryRequest org body accept contentType target endpoint
           in case http_NewRequest env ''POST'' (rq_url req) of
                Some err \<Rightarrow> State_Monad.return (Inl err)
              | None \<Rightarrow> exchange env req))"

definition forwardReadToTarget :: "'e env \<Rightarrow> in_request \<Rightarrow> Target \<Rightarrow> ('e, 'x, string + answer) io" where
  "forwardReadToTarget env r target =
     (case url_JoinPath env (URL target) (in_path r) of
        Inl err \<Rightarrow> State_Monad.return (Inl err)
      | Inr endpoint \<Rightarrow>
          (let req = readRequest r target endpoint
           in case http_NewRequest env (in_method r) (rq_url req) of
                Some err \<Rightarrow> State_Monad.return (Inl err)
              | None \<Rightarrow> exchange env req))"

text \<open>
  The loop that \<open>forward\<close> and \<open>forwardRead\<close> share, up to the request (\<open>attempt\<close>) and the fields
  of the log entries. One round tries the picked target, with \<open>n\<close> attempts left after it:
  \<open>Inl\<close> sets \<open>lastErr\<close> and continues, \<open>Inr\<close> returns.
\<close>

definition tryTarget :: "nat \<Rightarrow> 'e env \<Rightarrow> Config \<Rightarrow> int \<Rightarrow> string \<Rightarrow> (string \<times> attr) list \<Rightarrow>
    (Target \<Rightarrow> ('e, 'x, string + answer) gwio) \<Rightarrow> Target \<Rightarrow> ('e, 'x, string + answer) gwio" where
  "tryTarget n env cfg attempts kind logAttrs attempt target = do {
     attemptStart \<leftarrow> time_Now env;
     r \<leftarrow> attempt target;
     attemptDur \<leftarrow> time_Since env attemptStart;
     let counts = [(''attempt'', AInt (attempts - int n)), (''total_attempts'', AInt attempts)];
     (case r of
        Inl err \<Rightarrow> do {
          ObserveUpstream (Name target) ''error'' attemptDur;
          emit (Slog LevelError (kind @ ''_error'')
            ([(''target'', AStr (Name target))] @ logAttrs @ counts @
             [(''dur_ms'', AInt (Milliseconds attemptDur)), (''err'', AStr err)]));
          RecordFailure env cfg (Name target);
          State_Monad.return (Inl err)
        }
      | Inr (payload, hdr, status) \<Rightarrow> do {
          ObserveUpstream (Name target) (Itoa status) attemptDur;
          if status \<ge> 500 then do {
            emit (Slog LevelError (kind @ ''_5xx'')
              ([(''target'', AStr (Name target))] @ logAttrs @ counts @
               [(''status'', AInt status), (''dur_ms'', AInt (Milliseconds attemptDur))]));
            RecordFailure env cfg (Name target);
            State_Monad.return
              (if n > 0 then Inl (''upstream '' @ Name target @ '' returned status '' @ Itoa status)
               else Inr (payload, hdr, status))
          }
          else do {
            RecordSuccess (Name target);
            State_Monad.return (Inr (payload, hdr, status))
          }
        })
   }"

text \<open>
  The first argument is the number of attempts left; \<open>Inl\<close> is the last error once the loop has
  ended without an answer.
\<close>

primrec tryTargets :: "nat \<Rightarrow> 'e env \<Rightarrow> Config \<Rightarrow> int \<Rightarrow> string \<Rightarrow> (string \<times> attr) list \<Rightarrow>
    (Target \<Rightarrow> ('e, 'x, string + answer) gwio) \<Rightarrow> string set \<Rightarrow> string option \<Rightarrow>
    ('e, 'x, string option + answer \<times> string) gwio" where
  "tryTargets 0 env cfg attempts kind logAttrs attempt tried lastErr = State_Monad.return (Inl lastErr)"
| "tryTargets (Suc n) env cfg attempts kind logAttrs attempt tried lastErr = do {
     picked \<leftarrow> PickTarget env cfg tried;
     (case picked of
        None \<Rightarrow> State_Monad.return (Inl lastErr)
      | Some target \<Rightarrow> do {
          r \<leftarrow> tryTarget n env cfg attempts kind logAttrs attempt target;
          (case r of
             Inl err \<Rightarrow>
               tryTargets n env cfg attempts kind logAttrs attempt (insert (Name target) tried) (Some err)
           | Inr answered \<Rightarrow> State_Monad.return (Inr (answered, Name target)))
        })
   }"

text \<open>\<open>attempts := s.cfg.ForwardRetries + 1\<close>, at least one.\<close>

definition attemptsOf :: "Config \<Rightarrow> int" where
  "attemptsOf cfg = (let attempts = wrap64 (ForwardRetries cfg + 1) in if attempts < 1 then 1 else attempts)"

text \<open>After the loop: the last error, or that there was no target at all.\<close>

definition exhausted :: "string \<Rightarrow> (string \<times> attr) list \<Rightarrow> int \<Rightarrow> string option + answer \<times> string \<Rightarrow>
    ('e, 'x, string + answer \<times> string) gwio" where
  "exhausted kind logAttrs attempts r =
     (case r of
        Inr answered \<Rightarrow> State_Monad.return (Inr answered)
      | Inl lastErr \<Rightarrow> do {
          let err = (case lastErr of None \<Rightarrow> ''no available targets'' | Some e \<Rightarrow> e);
          emit (Slog LevelError (kind @ ''_exhausted'') (logAttrs @ [(''attempts'', AInt attempts), (''err'', AStr err)]));
          State_Monad.return (Inl err)
        })"

definition forward :: "'e env \<Rightarrow> Config \<Rightarrow> string \<Rightarrow> string \<Rightarrow> string \<Rightarrow> string \<Rightarrow> ('e, 'x, string + answer \<times> string) gwio" where
  "forward env cfg org body accept contentType = do {
     let attempts = attemptsOf cfg;
     let logAttrs = [(''org'', AStr org)];
     r \<leftarrow> tryTargets (nat attempts) env cfg attempts ''upstream_query'' logAttrs
            (forwardToTarget env org body accept contentType) {} None;
     exhausted ''upstream_query'' logAttrs attempts r
   }"

definition forwardRead :: "'e env \<Rightarrow> Config \<Rightarrow> in_request \<Rightarrow> ('e, 'x, string + answer \<times> string) gwio" where
  "forwardRead env cfg r = do {
     let attempts = attemptsOf cfg;
     let logAttrs = [(''path'', AStr (in_path r)), (''query'', AStr (in_rawQuery r))];
     res \<leftarrow> tryTargets (nat attempts) env cfg attempts ''upstream_read'' logAttrs
              (forwardReadToTarget env r) {} None;
     exhausted ''upstream_read'' logAttrs attempts res
   }"

section \<open>The cached fetch\<close>

text \<open>Payload, header, status, source, target.\<close>

type_synonym fetched = "string \<times> header \<times> int \<times> string \<times> string"

definition cacheable :: "string \<Rightarrow> bool" where
  "cacheable accept \<longleftrightarrow>
     accept = [] \<or> Contains (ToLower accept) ''csv'' \<or> Contains (ToLower accept) ''arrow''"

text \<open>A forward whose answer is passed on under a source label.\<close>

definition forwardAs :: "string \<Rightarrow> 'e env \<Rightarrow> Config \<Rightarrow> string \<Rightarrow> string \<Rightarrow> string \<Rightarrow> string \<Rightarrow>
    ('e, 'x, go_panic + (string + fetched)) gwio" where
  "forwardAs source env cfg org body accept contentType = do {
     r \<leftarrow> forward env cfg org body accept contentType;
     (case r of
        Inl err \<Rightarrow> State_Monad.return (Inr (Inl err))
      | Inr ((payload, hdr, status), targetName) \<Rightarrow> do {
          IncCacheResult source;
          State_Monad.return (Inr (Inr (payload, hdr, status, source, targetName)))
        })
   }"

text \<open>The part of \<open>fetchOrCache\<close> that runs while the lock is held.\<close>

definition fetchLocked :: "'e env \<Rightarrow> Config \<Rightarrow> string \<Rightarrow> string \<Rightarrow> string \<Rightarrow> string \<Rightarrow> string \<Rightarrow>
    ('e, 'x, go_panic + (string + fetched)) gwio" where
  "fetchLocked env cfg key org body accept contentType = do {
     r \<leftarrow> forward env cfg org body accept contentType;
     (case r of
        Inl err \<Rightarrow> State_Monad.return (Inr (Inl err))
      | Inr ((payload, hdr, status), targetName) \<Rightarrow> do {
          stored \<leftarrow> (if go_div status 100 = 2 then Set env cfg key payload else State_Monad.return (Inr None));
          (case stored of
             Inl p \<Rightarrow> State_Monad.return (Inl p)
           | Inr _ \<Rightarrow> do {
               IncCacheResult ''MISS'';
               State_Monad.return (Inr (Inr (payload, hdr, status, ''MISS'', targetName)))
             })
        })
   }"

definition hitAs :: "string \<Rightarrow> string \<Rightarrow> string \<Rightarrow> ('e, 'x, go_panic + (string + fetched)) gwio" where
  "hitAs source accept cached = do {
     IncCacheResult source;
     State_Monad.return (Inr (Inr (cached, defaultCachedHeader accept, 200, source, [])))
   }"

definition fetchOrCache :: "'e env \<Rightarrow> Config \<Rightarrow> string \<Rightarrow> string \<Rightarrow> string \<Rightarrow> string \<Rightarrow> string \<Rightarrow>
    ('e, 'x, go_panic + (string + fetched)) gwio" where
  "fetchOrCache env cfg org cacheSig forwardBody accept contentType =
     (if \<not> cacheable accept then forwardAs ''BYPASS'' env cfg org forwardBody accept contentType
      else do {
        let key = Key org cacheSig;
        got \<leftarrow> Get env key;
        (case got of
           Inr cached \<Rightarrow> hitAs ''HIT'' accept cached
         | Inl err \<Rightarrow>
             if err \<noteq> RedisNil then State_Monad.return (Inr (Inl (redisMsg err)))
             else do {
               acquired \<leftarrow> AcquireLock env cfg key;
               (case acquired of
                  (Inl err, lockKey) \<Rightarrow> State_Monad.return (Inr (Inl (redisMsg err)))
                | (Inr False, lockKey) \<Rightarrow> do {
                    waited \<leftarrow> WaitForLock env cfg key;
                    (case waited of
                       Inr cached \<Rightarrow> hitAs ''HIT_WAIT'' accept cached
                     | Inl _ \<Rightarrow> forwardAs ''MISS_RACE'' env cfg org forwardBody accept contentType)
                  }
                | (Inr True, lockKey) \<Rightarrow> do {
                    r \<leftarrow> fetchLocked env cfg key org forwardBody accept contentType;
                    ReleaseLock env lockKey;
                    State_Monad.return r
                  })
             })
      })"

section \<open>Handlers\<close>

definition handleHealth :: "('e, 'x, handled) gwio" where
  "handleHealth = State_Monad.return (respond [] 200 (''ok'' @ [newline]))"

definition handleReady :: "'e env \<Rightarrow> ('e, 'x, handled) gwio" where
  "handleReady env = do {
     err \<leftarrow> Ping env;
     State_Monad.return
       (if err \<noteq> None then http_Error ''redis unavailable'' 503 else respond [] 200 (''ok'' @ [newline]))
   }"

text \<open>What the closure \<open>logCatalog\<close> of \<open>handleQuery\<close> captures.\<close>

record query_log =
  lg_started :: instant
  lg_org :: string
  lg_sig :: string
  lg_preview :: string

definition logCatalog :: "'e env \<Rightarrow> Config \<Rightarrow> query_log \<Rightarrow> int \<Rightarrow> bool \<Rightarrow> string \<Rightarrow> string \<Rightarrow> ('e, 'x, unit) gwio" where
  "logCatalog env cfg lg status split stage errMsg = do {
     dur \<leftarrow> time_Since env (lg_started lg);
     let failed = (status < 200 \<or> status \<ge> 300 \<or> errMsg \<noteq> []);
     if \<not> failed \<and> (SlowQueryThreshold cfg \<le> 0 \<or> dur < SlowQueryThreshold cfg) then State_Monad.return ()
     else
       emit (Slog (if failed then LevelError else LevelInfo)
         (if failed then ''gateway_query_fail'' else ''gateway_query_slow'')
         [(''org'', AStr (lg_org lg)), (''split'', ABool split), (''stage'', AStr stage), (''status'', AInt status),
          (''dur_ms'', AInt (Milliseconds dur)), (''sig'', AStr (lg_sig lg)), (''query'', AStr (lg_preview lg)),
          (''err'', AStr errMsg)])
   }"

text \<open>\<open>if name != "" { w.Header().Set(key, name) }\<close>.\<close>

definition setUnlessEmpty :: "string \<Rightarrow> string \<Rightarrow> header \<Rightarrow> header" where
  "setUnlessEmpty key v hdr = (if v \<noteq> [] then hdr_Set key v hdr else hdr)"

text \<open>The branch of \<open>handleQuery\<close> for a query that is not split.\<close>

definition queryWhole :: "'e env \<Rightarrow> Config \<Rightarrow> query_log \<Rightarrow> string \<Rightarrow> string \<Rightarrow> string \<Rightarrow> string \<Rightarrow> ('e, 'x, handled) gwio" where
  "queryWhole env cfg lg org body accept contentType = do {
     r \<leftarrow> fetchOrCache env cfg org body body accept contentType;
     (case r of
        Inl p \<Rightarrow> State_Monad.return (Inl p)
      | Inr (Inl err) \<Rightarrow> do {
          logCatalog env cfg lg 502 False ''fetch_or_cache'' err;
          emit (Slog LevelError ''gateway_query_error''
            [(''org'', AStr org), (''split'', ABool False), (''err'', AStr err)]);
          State_Monad.return (http_Error err 502)
        }
      | Inr (Inr (payload, hdr, status, source, targetName)) \<Rightarrow> do {
          let w = setUnlessEmpty ''X-Target'' targetName (hdr_Set ''X-Cache'' source (writeHeaders [] hdr));
          logCatalog env cfg lg status False ''nonsplit'' [];
          State_Monad.return (respond w status payload)
        })
   }"

text \<open>A segment that failed: the log entries and the 502 answer.\<close>

definition segmentFailed :: "'e env \<Rightarrow> Config \<Rightarrow> query_log \<Rightarrow> string \<Rightarrow> string \<Rightarrow> string \<Rightarrow> string \<Rightarrow> ('e, 'x, handled) gwio" where
  "segmentFailed env cfg lg stage phase msg err = do {
     logCatalog env cfg lg 502 True stage err;
     emit (Slog LevelError ''gateway_query_error''
       [(''org'', AStr (lg_org lg)), (''split'', ABool True), (''phase'', AStr phase), (''err'', AStr err)]);
     State_Monad.return (http_Error (msg @ err) 502)
   }"

text \<open>The rest of \<open>handleQuery\<close>, for a split query with both bodies built.\<close>

definition querySplit :: "'e env \<Rightarrow> Config \<Rightarrow> query_log \<Rightarrow> string \<Rightarrow> string \<Rightarrow> string \<Rightarrow> string \<Rightarrow> string \<Rightarrow> ('e, 'x, handled) gwio" where
  "querySplit env cfg lg org cachedBody liveBody accept contentType = do {
     r \<leftarrow> fetchOrCache env cfg org cachedBody cachedBody accept contentType;
     (case r of
        Inl p \<Rightarrow> State_Monad.return (Inl p)
      | Inr (Inl err) \<Rightarrow> segmentFailed env cfg lg ''cached_fetch'' ''cached'' ''cached segment failed: '' err
      | Inr (Inr (cachedPayload, _, cachedStatus, cachedSource, cachedTarget)) \<Rightarrow>
          if go_div cachedStatus 100 \<noteq> 2 then do {
            logCatalog env cfg lg cachedStatus True ''cached_status'' ''cached segment non-2xx'';
            State_Monad.return (respond [] cachedStatus cachedPayload)
          }
          else do {
            l \<leftarrow> forward env cfg org liveBody accept contentType;
            (case l of
               Inl err \<Rightarrow> segmentFailed env cfg lg ''live_forward'' ''live'' ''live segment failed: '' err
             | Inr ((livePayload, liveHdr, liveStatus), liveTarget) \<Rightarrow>
                 if go_div liveStatus 100 \<noteq> 2 then do {
                   logCatalog env cfg lg liveStatus True ''live_status'' ''live segment non-2xx'';
                   State_Monad.return (respond [] liveStatus livePayload)
                 }
                 else do {
                   let merged = MergeCSV (sort_Slice env) cachedPayload livePayload;
                   let w = setUnlessEmpty ''X-Target-Live'' liveTarget
                          (setUnlessEmpty ''X-Target-Cached'' cachedTarget
                          (hdr_Set ''X-Cache'' cachedSource
                          (hdr_Set ''X-Now-Split'' ''true'' (writeHeaders [] liveHdr))));
                   logCatalog env cfg lg 200 True ''merged'' [];
                   State_Monad.return (respond w 200 merged)
                 })
          })
   }"

text \<open>The query of a request and how a body is made for a rewritten query.\<close>

definition queryOf :: "string \<Rightarrow> string \<Rightarrow> string \<times> (string \<Rightarrow> string + string)" where
  "queryOf contentType body =
     (if Contains (ToLower contentType) ''application/json'' then
        (case ParseFluxJSONBody body of
           Some (f, payload) \<Rightarrow> (f, \<lambda>fluxQuery. Inr (builder payload fluxQuery))
         | None \<Rightarrow> (body, Inr))
      else (body, Inr))"

definition handleQuery :: "'e env \<Rightarrow> Config \<Rightarrow> in_request \<Rightarrow> ('e, 'x, handled) gwio" where
  "handleQuery env cfg r = do {
     started \<leftarrow> time_Now env;
     if in_method r \<noteq> ''POST'' then State_Monad.return (http_Error ''method not allowed'' 405)
     else if \<not> validGatewayAuth (hdr_Get (in_header r) ''Authorization'') (GatewayToken cfg)
       then State_Monad.return (http_Error ''unauthorized'' 401)
     else
       (let org = query_Get (in_rawQuery r) ''org''
        in if org = [] then State_Monad.return (http_Error ''org is required'' 400)
           else
             (case in_body r of
                Inl err \<Rightarrow> State_Monad.return (http_Error ''read body failed'' 400)
              | Inr body \<Rightarrow> do {
                  let accept = hdr_Get (in_header r) ''Accept'';
                  let contentType = hdr_Get (in_header r) ''Content-Type'';
                  let (query, bodyBuilder) = queryOf contentType body;
                  let lg = \<lparr>lg_started = started, lg_org = org, lg_sig = QuerySignature query,
                            lg_preview = QueryPreview query (QueryPreviewChars cfg)\<rparr>;
                  let allowSplit = (accept = [] \<or> Contains (ToLower accept) ''csv'');
                  now \<leftarrow> time_Now env;
                  let cutoff = SplitCutoff now (FreshnessWindow cfg);
                  (case (if allowSplit then SplitNowQuery query cutoff else None) of
                     None \<Rightarrow> queryWhole env cfg lg org body accept contentType
                   | Some (cachedQuery, liveQuery) \<Rightarrow>
                       (case bodyBuilder cachedQuery of
                          Inl err \<Rightarrow> State_Monad.return (http_Error (''cached body build failed: '' @ err) 400)
                        | Inr cachedBody \<Rightarrow>
                            (case bodyBuilder liveQuery of
                               Inl err \<Rightarrow> State_Monad.return (http_Error (''live body build failed: '' @ err) 400)
                             | Inr liveBody \<Rightarrow> querySplit env cfg lg org cachedBody liveBody accept contentType)))
                }))
   }"

definition handleV2ReadProxy :: "'e env \<Rightarrow> Config \<Rightarrow> in_request \<Rightarrow> ('e, 'x, handled) gwio" where
  "handleV2ReadProxy env cfg r =
     (if in_path r = ''/api/v2/query'' then handleQuery env cfg r
      else if in_method r \<noteq> ''GET'' \<and> in_method r \<noteq> ''HEAD''
        then State_Monad.return (http_Error ''method not allowed'' 405)
      else if \<not> validGatewayAuth (hdr_Get (in_header r) ''Authorization'') (GatewayToken cfg)
        then State_Monad.return (http_Error ''unauthorized'' 401)
      else do {
        res \<leftarrow> forwardRead env cfg r;
        (case res of
           Inl err \<Rightarrow> do {
             emit (Slog LevelError ''gateway_read_error''
               [(''path'', AStr (in_path r)), (''query'', AStr (in_rawQuery r)), (''err'', AStr err)]);
             State_Monad.return (http_Error err 502)
           }
         | Inr ((payload, hdr, status), targetName) \<Rightarrow>
             State_Monad.return
               (respond (setUnlessEmpty ''X-Target'' targetName (writeHeaders [] hdr)) status
                 (if in_method r \<noteq> ''HEAD'' then payload else [])))
      })"

section \<open>Routing\<close>

text \<open>
  The patterns registered with \<open>http.ServeMux\<close>, for a path that needs no cleaning and no
  percent-decoding (others are redirected to the clean path first): a pattern without a final
  slash matches only itself, \<open>/api/v2/\<close> matches every path below it, and the more specific
  pattern wins. \<open>/api/v2\<close> itself is redirected to \<open>/api/v2/\<close>. The page of \<open>promhttp\<close> is an
  argument.
\<close>

datatype route = RHealth | RReady | RMetrics | RQuery | RProxy | RRedirect string | RNotFound

definition route_of :: "string \<Rightarrow> route" where
  "route_of path =
     (if path = ''/healthz'' then RHealth
      else if path = ''/ready'' then RReady
      else if path = ''/metrics'' then RMetrics
      else if path = ''/api/v2/query'' then RQuery
      else if HasPrefix path ''/api/v2/'' then RProxy
      else if path = ''/api/v2'' then RRedirect ''/api/v2/''
      else RNotFound)"

datatype served = Served handled | Redirected string | NoRoute

definition Handler :: "(in_request \<Rightarrow> ('e, 'x, handled) gwio) \<Rightarrow> 'e env \<Rightarrow> Config \<Rightarrow> in_request \<Rightarrow> ('e, 'x, served) gwio" where
  "Handler promhttp env cfg r =
     (case route_of (in_path r) of
        RHealth \<Rightarrow> do { h \<leftarrow> handleHealth; State_Monad.return (Served h) }
      | RReady \<Rightarrow> do { h \<leftarrow> handleReady env; State_Monad.return (Served h) }
      | RMetrics \<Rightarrow> do { h \<leftarrow> promhttp r; State_Monad.return (Served h) }
      | RQuery \<Rightarrow> do { h \<leftarrow> handleQuery env cfg r; State_Monad.return (Served h) }
      | RProxy \<Rightarrow> do { h \<leftarrow> handleV2ReadProxy env cfg r; State_Monad.return (Served h) }
      | RRedirect p \<Rightarrow> State_Monad.return (Redirected p)
      | RNotFound \<Rightarrow> State_Monad.return NoRoute)"

end
