(* ===== verification/GatewayTrace.thy ===== *)
theory GatewayTrace
  imports Gateway
begin

text \<open>
  What the gateway's programs do to the outside, by their structure: the events each of them
  can emit and the steps of the upstream manager each of them takes.
\<close>

section \<open>Events\<close>

text \<open>Log entries and durations, which every program may emit.\<close>

fun observation :: "event \<Rightarrow> bool" where
  "observation (RedisLatency op ok d) = True"
| "observation (UpLatency t st d) = True"
| "observation (Slog l m a) = True"
| "observation ev = False"

text \<open>Predicates that hold of every observation.\<close>

definition observes :: "(event \<Rightarrow> bool) \<Rightarrow> bool" where
  "observes P \<longleftrightarrow> (\<forall>ev. observation ev \<longrightarrow> P ev)"

lemma observesD:
  assumes "observes P"
  shows "P (RedisLatency op ok d)" "P (UpLatency t st d)" "P (Slog l m a)"
  using assms by (simp_all add: observes_def)

lemma emits_get_mgr [emits_rules]: "emits P get_mgr"
  by (simp add: emits_def)

lemma emits_modify_mgr [emits_rules]: "emits P (modify_mgr f)"
  by (simp add: emits_def)

lemma emits_PickTarget [emits_rules]: "emits P (PickTarget env cfg ex)"
  unfolding PickTarget_def Let_def by (intro emits_rules)

lemma emits_RecordSuccess [emits_rules]: "emits P (RecordSuccess name)"
  unfolding RecordSuccess_def by (intro emits_rules)

lemma emits_RecordFailure [emits_rules]:
  assumes o: "observes P"
  shows "emits P (RecordFailure env cfg name)"
  unfolding RecordFailure_def Let_def by (intro emits_rules observesD(3) [OF o])

lemma emits_metrics [emits_rules]:
  assumes o: "observes P"
  shows "emits P (ObserveRedis op ok d)" "emits P (ObserveUpstream t st d)"
  unfolding metrics_defs by (intro emits_emit observesD [OF o])+

lemma emits_IncCacheResult [emits_rules]: "P (CacheResult r) \<Longrightarrow> emits P (IncCacheResult r)"
  unfolding IncCacheResult_def by (rule emits_emit)

lemma emits_Slog [emits_rules]: "observes P \<Longrightarrow> emits P (emit (Slog l m a))"
  by (intro emits_emit) (rule observesD(3))

lemma emits_Ping [emits_rules]: "(\<And>e. P (RedisPing e)) \<Longrightarrow> emits P (Ping env)"
  unfolding Ping_def by (intro emits_rules)

lemma emits_GetAs [emits_rules]:
  assumes o: "observes P" and "\<And>r. P (RedisGet key r)"
  shows "emits P (GetAs op env key)"
  unfolding GetAs_def by (intro emits_rules assms)

lemma emits_Get [emits_rules]: "observes P \<Longrightarrow> (\<And>r. P (RedisGet key r)) \<Longrightarrow> emits P (Get env key)"
  unfolding Get_def by (rule emits_GetAs)

lemma emits_jitteredTTL [emits_rules]: "emits P (jitteredTTL env cfg)"
  unfolding jitteredTTL_def Let_def by (intro emits_rules)

lemma emits_Set [emits_rules]:
  assumes "observes P" and "\<And>ttl e. P (RedisSet key val ttl e)"
  shows "emits P (Set env cfg key val)"
  unfolding Set_def by (intro emits_rules assms)

lemma emits_AcquireLock [emits_rules]:
  assumes "observes P" and "\<And>v ttl r. P (RedisSetNX (lockKeyOf key) v ttl r)"
  shows "emits P (AcquireLock env cfg key)"
  unfolding AcquireLock_def Let_def by (intro emits_rules assms)

lemma emits_ReleaseLock [emits_rules]: "(\<And>e. P (RedisDel k e)) \<Longrightarrow> emits P (ReleaseLock env k)"
  unfolding ReleaseLock_def by (intro emits_rules)

lemma emits_waitLoop:
  assumes "observes P" and "\<And>r. P (RedisGet key r)"
  shows "emits P (State (waitLoop env key deadline))"
  unfolding emits_def
proof
  fix s
  obtain r s' where w: "waitLoop env key deadline s = (r, s')" by (cases "waitLoop env key deadline s")
  obtain evs where "trace s' = trace s @ evs" "list_all (readsOnly key) evs"
    using waitLoop_gets [OF w] by blast
  moreover have "P ev" if "readsOnly key ev" for ev
    using that assms by (cases ev) (auto intro: observesD)
  ultimately show "\<exists>evs. trace (snd (run_state (State (waitLoop env key deadline)) s)) = trace s @ evs \<and> list_all P evs"
    using w by (auto simp: list_all_iff)
qed

lemma emits_WaitForLock [emits_rules]:
  assumes "observes P" and "\<And>r. P (RedisGet key r)"
  shows "emits P (WaitForLock env cfg key)"
  unfolding WaitForLock_def by (intro emits_rules emits_waitLoop assms)

lemma emits_exchange [emits_rules]: "(\<And>resp. P (HttpDo req resp)) \<Longrightarrow> emits P (exchange env req)"
  unfolding exchange_def by (intro emits_rules)

lemma emits_tryTarget:
  assumes "observes P" and "emits P (attempt t)"
  shows "emits P (tryTarget n env cfg attempts kind logAttrs attempt t)"
  unfolding tryTarget_def Let_def by (intro emits_rules assms)

lemma emits_tryTargets:
  assumes "observes P" and "\<And>t. t \<in> set (Targets cfg) \<Longrightarrow> emits P (attempt t)"
  shows "emits P (tryTargets n env cfg attempts kind logAttrs attempt tried lastErr)"
proof (induction n arbitrary: tried lastErr)
  case (Suc n)
  show ?case
    unfolding tryTargets.simps Let_def
  proof (rule emits_bind_result [OF emits_PickTarget], rule emits_option, goal_cases)
    case (2 s picked s' target)
    then have "target \<in> set (Targets cfg)" using PickTarget_Some(1) by blast
    then show ?case by (intro emits_rules emits_tryTarget assms Suc.IH)
  qed (rule emits_return)
qed (simp add: emits_return)

text \<open>The requests that serve a query: to a configured target, with that target's token.\<close>

definition queryHttp :: "'e env \<Rightarrow> Config \<Rightarrow> string \<Rightarrow> string \<Rightarrow> string \<Rightarrow> string \<Rightarrow> http_request \<Rightarrow> bool" where
  "queryHttp env cfg org body accept contentType req \<longleftrightarrow>
     (\<exists>t \<in> set (Targets cfg). \<exists>endpoint. url_JoinPath env (URL t) ''/api/v2/query'' = Inr endpoint \<and>
        req = queryRequest org body accept contentType t endpoint)"

lemma emits_forward:
  assumes "observes P" and "\<And>req resp. queryHttp env cfg org body accept contentType req \<Longrightarrow> P (HttpDo req resp)"
  shows "emits P (forward env cfg org body accept contentType)"
proof -
  have "emits P (forwardToTarget env org body accept contentType t)" if "t \<in> set (Targets cfg)" for t
    unfolding forwardToTarget_def Let_def
    by (intro emits_rules assms(2)) (use that in \<open>auto simp: queryHttp_def\<close>)
  then show ?thesis
    unfolding forward_def exhausted_def Let_def by (intro emits_rules emits_tryTargets assms(1))
qed

text \<open>Everything one cached fetch may do, given what it may do to the upstreams and to Redis.\<close>

lemma emits_fetchOrCache:
  assumes "observes P"
    and "\<And>req resp. queryHttp env cfg org body accept contentType req \<Longrightarrow> P (HttpDo req resp)"
    and "\<And>r. P (RedisGet (Key org sig) r)" and "\<And>v ttl e. P (RedisSet (Key org sig) v ttl e)"
    and "\<And>v ttl r. P (RedisSetNX (lockKeyOf (Key org sig)) v ttl r)"
    and "\<And>e. P (RedisDel (lockKeyOf (Key org sig)) e)" and "\<And>r. P (CacheResult r)"
  shows "emits P (fetchOrCache env cfg org sig body accept contentType)"
proof -
  have fwd: "emits P (forward env cfg org body accept contentType)"
    using emits_forward assms(1,2) by blast
  have lk: "lk = lockKeyOf (Key org sig)"
    if "run_state (AcquireLock env cfg (Key org sig)) s = ((l, lk), s')" for s s' :: "('a, 'b) gw_scheme" and l lk
    using that by (auto simp: AcquireLock_def Let_def split: prod.splits)
  have as: "emits P (forwardAs src env cfg org body accept contentType)" for src
    unfolding forwardAs_def by (intro emits_rules fwd assms)
  have locked: "emits P (fetchLocked env cfg (Key org sig) org body accept contentType)"
    unfolding fetchLocked_def by (intro emits_rules fwd assms)
  have hit: "emits P (hitAs src accept cached)" for src cached
    unfolding hitAs_def by (intro emits_rules assms)
  show ?thesis
    unfolding fetchOrCache_def Let_def
  proof (intro emits_if as emits_bind [OF emits_Get] emits_sum hit emits_return assms(1,3), goal_cases)
    case (1 got err)
    show ?case
    proof (rule emits_bind_result, intro emits_AcquireLock assms, goal_cases)
      case (1 s a s')
      then show ?case
        using lk [of s "fst a" "snd a" s']
        by (cases a) (auto intro!: emits_rules as locked hit assms split: sum.splits bool.splits)
    qed
  qed
qed

section \<open>Steps of the manager\<close>

lemma steps_GetAs [steps_rules]: "steps cfg (GetAs op env key)"
  unfolding GetAs_def metrics_defs by (intro steps_rules)

lemma steps_waitLoop [steps_rules]: "steps cfg (State (waitLoop env key deadline))"
  unfolding steps_def
proof
  fix s
  show "(mgr_step cfg)\<^sup>*\<^sup>* (clk s, mgr s) (clk (snd (run_state (State (waitLoop env key deadline)) s)),
      mgr (snd (run_state (State (waitLoop env key deadline)) s)))"
  proof (induction s rule: waitLoop_induct [where env = env and key = key and deadline = deadline])
    case (1 s)
    obtain now s1 where t: "run_state (time_Now env) s = (now, s1)" by (cases "run_state (time_Now env) s")
    obtain r s2 where g: "run_state (GetAs ''get_wait'' env key) s1 = (r, s2)"
      by (cases "run_state (GetAs ''get_wait'' env key) s1")
    have 01: "(mgr_step cfg)\<^sup>*\<^sup>* (clk s, mgr s) (clk s1, mgr s1)"
      by (rule stepsD [OF steps_time_Now t])
    also have 12: "(mgr_step cfg)\<^sup>*\<^sup>* (clk s1, mgr s1) (clk s2, mgr s2)"
      by (rule stepsD [OF steps_GetAs g])
    finally have 02: "(mgr_step cfg)\<^sup>*\<^sup>* (clk s, mgr s) (clk s2, mgr s2)" .
    also have "(mgr_step cfg)\<^sup>*\<^sup>* (clk s2, mgr s2) (clk s2 + 30000000, mgr s2)"
      by (simp add: mgr_step.tick r_into_rtranclp)
    finally have 03: "(mgr_step cfg)\<^sup>*\<^sup>* (clk s, mgr s) (clk s2 + 30000000, mgr s2)" .
    show ?case
      using waitLoop_cases [OF t g, of deadline] 01 02 "1" [OF t] g 03
      by (auto intro: rtranclp_trans)
  qed
qed

lemma steps_cache [steps_rules]:
  "steps cfg (Ping env)" "steps cfg (Get env key)" "steps cfg (jitteredTTL env c)"
  "steps cfg (AcquireLock env c key)" "steps cfg (ReleaseLock env k)"
  "steps cfg (WaitForLock env c key)"
  unfolding Ping_def Get_def jitteredTTL_def AcquireLock_def ReleaseLock_def WaitForLock_def metrics_defs Let_def
  by (intro steps_rules)+

lemma steps_Set [steps_rules]: "steps cfg (Set env c key val)"
  unfolding Set_def metrics_defs by (intro steps_rules)

lemma steps_forwardToTarget [steps_rules]:
  "steps cfg (forwardToTarget env org body accept contentType t)" "steps cfg (forwardReadToTarget env r t)"
  unfolding forwardToTarget_def forwardReadToTarget_def exchange_def Let_def by (intro steps_rules)+

lemma steps_tryTargets [steps_rules]:
  assumes "\<And>t. steps cfg (attempt t)"
  shows "steps cfg (tryTargets n env cfg attempts kind logAttrs attempt tried lastErr)"
proof (induction n arbitrary: tried lastErr)
  case (Suc n)
  have "steps cfg (tryTarget n env cfg attempts kind logAttrs attempt t)" for t
    unfolding tryTarget_def metrics_defs Let_def by (intro steps_rules assms)
  with Suc show ?case
    unfolding tryTargets.simps by (intro steps_rules)
qed (simp add: steps_return)

lemma steps_forward [steps_rules]:
  "steps cfg (forward env cfg org body accept contentType)" "steps cfg (forwardRead env cfg r)"
  unfolding forward_def forwardRead_def exhausted_def Let_def by (intro steps_rules)+

lemma steps_fetchOrCache [steps_rules]: "steps cfg (fetchOrCache env cfg org sig body accept contentType)"
  unfolding fetchOrCache_def forwardAs_def hitAs_def fetchLocked_def metrics_defs Let_def
  by (intro steps_rules)

lemma steps_logCatalog [steps_rules]: "steps cfg (logCatalog env c lg status split stage errMsg)"
  unfolding logCatalog_def Let_def by (intro steps_rules)

lemma steps_handleQuery [steps_rules]: "steps cfg (handleQuery env cfg r)"
  unfolding handleQuery_def queryWhole_def querySplit_def segmentFailed_def Let_def by (intro steps_rules)

lemma steps_Handler [steps_rules]:
  assumes "steps cfg (promhttp r)"
  shows "steps cfg (Handler promhttp env cfg r)"
  unfolding Handler_def handleHealth_def handleReady_def handleV2ReadProxy_def
  by (cases "route_of (in_path r)") (auto intro!: steps_rules assms)

end
