(* ===== verification/GatewayForward.thy ===== *)
theory GatewayForward
  imports GatewayTrace
begin

text \<open>
  Retries: which targets a forward tries, what it reports to the circuit breakers, how it ends,
  and that it finds a healthy target when its attempts suffice to try them all.
\<close>

section \<open>One attempt\<close>

text \<open>The targets that were tried, in order: each attempt observes its duration once.\<close>

fun attemptOf :: "event \<Rightarrow> string list" where
  "attemptOf (UpLatency t st d) = [t]"
| "attemptOf ev = []"

definition attempted :: "event list \<Rightarrow> string list" where
  "attempted evs = concat (map attemptOf evs)"

lemma attempted_simps [simp]:
  "attempted [] = []" "attempted (ev # evs) = attemptOf ev @ attempted evs"
  "attempted (evs @ evs') = attempted evs @ attempted evs'"
  by (simp_all add: attempted_def)

lemma attempted_empty: "list_all (\<lambda>ev. attemptOf ev = []) evs \<Longrightarrow> attempted evs = []"
  by (simp add: attempted_def list_all_iff)

text \<open>A program that only talks to the outside: it leaves the manager alone.\<close>

definition quiet :: "('e, 'x, 'a) gwio \<Rightarrow> bool" where
  "quiet p \<longleftrightarrow> emits (\<lambda>ev. attemptOf ev = []) p \<and>
     (\<forall>s. mgr (snd (run_state p s)) = mgr s \<and> clk s \<le> clk (snd (run_state p s)))"

lemma quietD:
  assumes "quiet p" "run_state p s = (a, s')"
  shows "mgr s' = mgr s" "clk s \<le> clk s'" "\<exists>evs. trace s' = trace s @ evs \<and> attempted evs = []"
  using assms(1) assms(2) emitsD [of "\<lambda>ev. attemptOf ev = []" p s a s'] attempted_empty
  unfolding quiet_def by (metis snd_conv)+

lemma quiet_exchange: "quiet (exchange env req)"
  unfolding quiet_def
  by (auto intro!: emits_exchange) (simp_all add: exchange_def run_client_Do)

lemma quiet_return: "quiet (State_Monad.return a)"
  by (simp add: quiet_def emits_return)

lemma quiet_forwardToTarget:
  "quiet (forwardToTarget env org body accept contentType t)" "quiet (forwardReadToTarget env r t)"
  by (simp_all add: forwardToTarget_def forwardReadToTarget_def Let_def quiet_exchange quiet_return
      split: sum.split option.split)

lemma RecordFailure_trace:
  assumes "run_state (RecordFailure env cfg name) s = (u, s')"
  shows "\<exists>evs. trace s' = trace s @ evs \<and> attempted evs = []"
proof -
  have "emits (\<lambda>ev. attemptOf ev = []) (RecordFailure env cfg name)"
    unfolding RecordFailure_def Let_def by (intro emits_rules) simp
  from emitsD [OF this assms] show ?thesis using attempted_empty by blast
qed

text \<open>
  What the retry loop asks of the function it calls for each target, a query's or a read's: an
  attempt leaves the manager and the record of attempts alone. Everything the loop promises
  follows from this.
\<close>

locale attempter =
  fixes attempt :: "Target \<Rightarrow> ('e, 'x, string + answer) gwio"
  assumes quiet_attempt: "quiet (attempt t)"
begin

text \<open>What one attempt observes, reports and answers.\<close>

lemma run_tryTarget:
  assumes "run_state (tryTarget n env cfg attempts kind logAttrs attempt t) s = (r, s')"
  shows "\<exists>evs out. trace s' = trace s @ evs \<and> attempted evs = [Name t] \<and> clk s \<le> clk s' \<and>
     within (clk s) (clk s') out \<and> mgr s' = applyOutcome cfg (mgr s) out \<and>
     (case r of
        Inl err \<Rightarrow> reported out = (Name t, False)
      | Inr (payload, hdr, status) \<Rightarrow> reported out = (Name t, status < 500) \<and> (status < 500 \<or> n = 0)) \<and>
     (\<forall>ans. r = Inr ans \<longrightarrow> (\<exists>s1 s2 e1. run_state (attempt t) s1 = (Inr ans, s2) \<and> trace s2 = trace s1 @ e1 \<and> set e1 \<subseteq> set evs))"
proof -
  obtain now s1 where now: "run_state (time_Now env) s = (now, s1)" by (cases "run_state (time_Now env) s")
  obtain a s2 where a: "run_state (attempt t) s1 = (a, s2)" by (cases "run_state (attempt t) s1")
  obtain d s3 where d: "run_state (time_Since env now) s2 = (d, s3)" by (cases "run_state (time_Since env now) s2")
  obtain e1 where e1: "trace s2 = trace s1 @ e1" "attempted e1 = []" "mgr s2 = mgr s1" "clk s1 \<le> clk s2"
    using quietD [OF quiet_attempt a] by blast
  have s3: "trace s3 = trace s @ e1" "mgr s3 = mgr s" "clk s \<le> clk s3"
    using now d e1 by (auto simp: run_time_Now time_Since_def)
  have fail: "\<exists>evs out. trace s'' = trace s @ evs \<and> attempted evs = [Name t] \<and> clk s \<le> clk s'' \<and>
      within (clk s) (clk s'') out \<and> mgr s'' = applyOutcome cfg (mgr s) out \<and> reported out = (Name t, False) \<and>
      set e1 \<subseteq> set evs"
    if rf: "run_state (RecordFailure env cfg (Name t)) (s3\<lparr>trace := trace s3 @ [UpLatency (Name t) st d, Slog l m at]\<rparr>) =
          (u, s'')" for s'' u st l m at
  proof -
    let ?s = "s3\<lparr>trace := trace s3 @ [UpLatency (Name t) st d, Slog l m at]\<rparr>"
    obtain e2 where "trace s'' = trace ?s @ e2" "attempted e2 = []"
      using RecordFailure_trace [OF rf] by blast
    moreover have "clk ?s \<le> clk s''" "mgr s'' = applyOutcome cfg (mgr ?s) (Failure (Name t) (clk s''))"
      using run_RecordFailure [of env cfg "Name t" ?s] rf by auto
    ultimately show ?thesis
      using e1 s3 by (intro exI [of _ "e1 @ [UpLatency (Name t) st d, Slog l m at] @ e2"] exI [of _ "Failure (Name t) (clk s'')"]) auto
  qed
  show ?thesis
  proof (cases a)
    case (Inl err)
    with assms now a d have r: "r = Inl err"
      by (auto simp: tryTarget_def metrics_defs Let_def split: prod.splits)
    obtain u st l m at where "run_state (RecordFailure env cfg (Name t))
        (s3\<lparr>trace := trace s3 @ [UpLatency (Name t) st d, Slog l m at]\<rparr>) = (u, s')"
      using assms now a d Inl by (auto simp: tryTarget_def metrics_defs Let_def split: prod.splits)
    from fail [OF this] r show ?thesis by auto
  next
    case (Inr ans)
    obtain payload hdr status where ans: "ans = (payload, hdr, status)" by (cases ans)
    show ?thesis
    proof (cases "status < 500")
      case True
      with assms now a d Inr ans have "r = Inr ans"
        "s' = s3\<lparr>trace := trace s3 @ [UpLatency (Name t) (Itoa status) d], mgr := putState (Name t) newState (mgr s3)\<rparr>"
        by (simp_all add: tryTarget_def metrics_defs Let_def run_RecordSuccess)
      with True ans e1 s3 a Inr show ?thesis
        by (intro exI [of _ "e1 @ [UpLatency (Name t) (Itoa status) d]"] exI [of _ "Success (Name t)"]) auto
    next
      case False
      with assms now a d Inr ans have "r = Inr ans \<and> n = 0 \<or> (\<exists>err. r = Inl err)"
        by (auto simp: tryTarget_def metrics_defs Let_def split: prod.splits if_splits)
      moreover obtain u st l m at where rf: "run_state (RecordFailure env cfg (Name t))
          (s3\<lparr>trace := trace s3 @ [UpLatency (Name t) st d, Slog l m at]\<rparr>) = (u, s')"
        using assms now a d Inr ans False
        by (auto simp: tryTarget_def metrics_defs Let_def split: prod.splits)
      ultimately show ?thesis using fail [OF rf] ans False a Inr e1(1) by auto blast+
    qed
  qed
qed

end

section \<open>The loop\<close>

definition failed :: "outcome \<Rightarrow> bool" where
  "failed x \<longleftrightarrow> \<not> snd (reported x)"

definition usable :: "Config \<Rightarrow> string set" where
  "usable cfg = Name ` {t \<in> set (Targets cfg). 0 < Weight t}"

lemma usable_code [code]: "usable cfg = set (map Name (filter (\<lambda>t. 0 < Weight t) (Targets cfg)))"
  by (auto simp: usable_def)

text \<open>
  How a loop with \<open>n\<close> attempts ends: \<open>ts\<close> are the targets it tried, \<open>hist\<close> the outcomes it
  reported.
\<close>

definition attemptsSpec :: "Config \<Rightarrow> nat \<Rightarrow> string set \<Rightarrow> string list \<Rightarrow> outcome list \<Rightarrow> string option \<Rightarrow>
    string option + answer \<times> string \<Rightarrow> bool" where
  "attemptsSpec cfg n tried ts hist lastErr r \<longleftrightarrow>
     map (\<lambda>x. fst (reported x)) hist = ts \<and> distinct ts \<and> set ts \<inter> tried = {} \<and> length ts \<le> n \<and> set ts \<subseteq> usable cfg \<and>
     (case r of
        Inl e \<Rightarrow> list_all failed hist \<and> (length ts = n \<or> usable cfg \<subseteq> tried \<union> set ts) \<and>
          (if ts = [] then e = lastErr else e \<noteq> None)
      | Inr ((payload, hdr, status), name) \<Rightarrow>
          (\<exists>earlier final. hist = earlier @ [final] \<and> list_all failed earlier \<and>
             reported final = (name, status < 500) \<and> (status < 500 \<or> length ts = n)))"

lemma attemptsSpec_Cons:
  assumes "attemptsSpec cfg n (insert nm tried) ts hist (Some err) r"
    and "reported out = (nm, False)" "nm \<notin> tried" "nm \<in> usable cfg"
  shows "attemptsSpec cfg (Suc n) tried (nm # ts) (out # hist) lastErr r"
proof -
  have f: "failed out" using assms(2) by (simp add: failed_def)
  show ?thesis
  proof (cases r)
    case (Inl e)
    with assms f show ?thesis by (auto simp: attemptsSpec_def split: if_splits)
  next
    case (Inr a)
    obtain payload hdr status name where a: "a = ((payload, hdr, status), name)" by (metis prod.exhaust)
    from assms(1) Inr a obtain earlier final where h: "hist = earlier @ [final]" "list_all failed earlier"
      "reported final = (name, status < 500)" "status < 500 \<or> length ts = n"
      by (auto simp: attemptsSpec_def)
    with f have "out # hist = (out # earlier) @ [final] \<and> list_all failed (out # earlier) \<and>
        reported final = (name, status < 500) \<and> (status < 500 \<or> length (nm # ts) = Suc n)" by simp
    then have "\<exists>earlier final. out # hist = earlier @ [final] \<and> list_all failed earlier \<and>
        reported final = (name, status < 500) \<and> (status < 500 \<or> length (nm # ts) = Suc n)" by blast
    with assms Inr a show ?thesis by (auto simp: attemptsSpec_def)
  qed
qed

lemma stateOf_applyOutcome_cong:
  "(\<And>name. stateOf m name = stateOf m' name) \<Longrightarrow>
     stateOf (foldl (applyOutcome cfg) m hist) name = stateOf (foldl (applyOutcome cfg) m' hist) name"
proof (induction hist arbitrary: m m')
  case (Cons x hist)
  have "stateOf (applyOutcome cfg m x) name = stateOf (applyOutcome cfg m' x) name" for name
    by (cases x) (simp_all add: stateOf_putState Cons.prems)
  from Cons.IH [OF this] show ?case by simp
qed simp

context attempter
begin

lemma tryTargets_attempts:
  "run_state (tryTargets n env cfg attempts kind logAttrs attempt tried lastErr) s = (r, s') \<Longrightarrow>
     \<exists>evs hist. trace s' = trace s @ evs \<and> clk s \<le> clk s' \<and> attemptsSpec cfg n tried (attempted evs) hist lastErr r \<and>
       list_all (within (clk s) (clk s')) hist \<and>
       (\<forall>name. stateOf (mgr s') name = stateOf (foldl (applyOutcome cfg) (mgr s) hist) name)"
proof (induction n arbitrary: tried lastErr s)
  case 0
  then show ?case by (intro exI [of _ "[]"]) (auto simp: attemptsSpec_def)
next
  case (Suc n)
  obtain picked s1 where p: "run_state (PickTarget env cfg tried) s = (picked, s1)"
    by (cases "run_state (PickTarget env cfg tried) s")
  have s1: "trace s1 = trace s" "clk s \<le> clk s1" "\<And>name. stateOf (mgr s1) name = stateOf (mgr s) name"
    using run_PickTarget [OF p] by (auto simp: stateOf_def split: if_splits)
  show ?case
  proof (cases picked)
    case None
    with p PickTarget_None [of env cfg tried s s1] have "usable cfg \<subseteq> tried"
      by (fastforce simp: usable_def)
    with Suc.prems p None s1 show ?thesis
      by (intro exI [of _ "[]"]) (auto simp: attemptsSpec_def)
  next
    case (Some t)
    with PickTarget_Some [of env cfg tried s t s1] p
    have t: "Name t \<in> usable cfg" "Name t \<notin> tried" by (auto simp: usable_def)
    obtain a s2 where a: "run_state (tryTarget n env cfg attempts kind logAttrs attempt t) s1 = (a, s2)"
      by (cases "run_state (tryTarget n env cfg attempts kind logAttrs attempt t) s1")
    from run_tryTarget [OF a] obtain e2 out where o: "trace s2 = trace s1 @ e2" "attempted e2 = [Name t]"
      "clk s1 \<le> clk s2" "within (clk s1) (clk s2) out" "mgr s2 = applyOutcome cfg (mgr s1) out"
      "case a of Inl err \<Rightarrow> reported out = (Name t, False)
       | Inr (payload, hdr, status) \<Rightarrow> reported out = (Name t, status < 500) \<and> (status < 500 \<or> n = 0)" by blast
    have m2: "stateOf (foldl (applyOutcome cfg) (mgr s2) hist) name =
        stateOf (foldl (applyOutcome cfg) (mgr s) (out # hist)) name" for hist name
      using stateOf_applyOutcome_cong [OF s1(3), of cfg "out # hist" name] o(5) by simp
    have w: "within (clk s) t' out" if "clk s2 \<le> t'" for t'
      using within_mono [OF o(4) s1(2) that] .
    show ?thesis
    proof (cases a)
      case (Inr ans)
      obtain payload hdr status where ans: "ans = (payload, hdr, status)" by (cases ans)
      have "r = Inr (ans, Name t)" "s' = s2" using Suc.prems p Some a Inr by simp_all
      with o s1 t ans Inr m2 [of "[]"] w show ?thesis
        by (intro exI [of _ e2] exI [of _ "[out]"]) (auto simp: attemptsSpec_def)
    next
      case (Inl err)
      have "run_state (tryTargets n env cfg attempts kind logAttrs attempt (insert (Name t) tried) (Some err)) s2 = (r, s')"
        using Suc.prems p Some a Inl by simp
      from Suc.IH [OF this] obtain evs hist where h: "trace s' = trace s2 @ evs" "clk s2 \<le> clk s'"
        "attemptsSpec cfg n (insert (Name t) tried) (attempted evs) hist (Some err) r"
        "list_all (within (clk s2) (clk s')) hist"
        "\<And>name. stateOf (mgr s') name = stateOf (foldl (applyOutcome cfg) (mgr s2) hist) name" by blast
      have "list_all (within (clk s) (clk s')) (out # hist)"
        using h(2,4) w s1(2) o(3) within_mono by (fastforce simp: list_all_iff)
      moreover have "attemptsSpec cfg (Suc n) tried (attempted (e2 @ evs)) (out # hist) lastErr r"
        using attemptsSpec_Cons [OF h(3) _ t(2,1)] o(2,6) Inl by simp
      ultimately show ?thesis
        using h o s1 m2 [of hist] by (intro exI [of _ "e2 @ evs"] exI [of _ "out # hist"]) simp
    qed
  qed
qed

end

section \<open>Failing over\<close>

text \<open>An attempt that succeeds is returned.\<close>

lemma tryTarget_ok:
  assumes "fst (run_state (attempt t) s1) = Inr (payload, hdr, status)" "status < 500"
    and "s1 = snd (run_state (time_Now env) s)"
  shows "fst (run_state (tryTarget n env cfg attempts kind logAttrs attempt t) s) = Inr (payload, hdr, status)"
  using assms
  by (cases "run_state (time_Now env) s"; cases "run_state (attempt t) s1")
     (auto simp: tryTarget_def metrics_defs Let_def split: prod.splits)

context attempter
begin

lemma tryTargets_failover:
  assumes t: "t \<in> set (Targets cfg)" "0 < Weight t" "\<And>u. u \<in> set (Targets cfg) \<Longrightarrow> Name u = Name t \<Longrightarrow> u = t"
    and up: "\<And>s. \<exists>payload hdr status. fst (run_state (attempt t) s) = Inr (payload, hdr, status) \<and> status < 500"
  shows "Name t \<notin> tried \<Longrightarrow> card (usable cfg - tried) \<le> n \<Longrightarrow>
     \<exists>payload hdr status name.
       fst (run_state (tryTargets n env cfg attempts kind logAttrs attempt tried lastErr) s) =
         Inr ((payload, hdr, status), name) \<and> status < 500"
proof (induction n arbitrary: tried lastErr s)
  case 0
  moreover have "Name t \<in> usable cfg - tried" "finite (usable cfg)"
    using t 0 by (auto simp: usable_def)
  ultimately show ?case by auto
next
  case (Suc n)
  have fin: "finite (usable cfg)" by (simp add: usable_def)
  obtain picked s1 where p: "run_state (PickTarget env cfg tried) s = (picked, s1)"
    by (cases "run_state (PickTarget env cfg tried) s")
  obtain u where u: "picked = Some u"
    using PickTarget_None [of env cfg tried s s1] p t Suc.prems(1) by (cases picked) auto
  have u': "u \<in> set (Targets cfg)" "Name u \<notin> tried" "0 < Weight u"
    using PickTarget_Some [of env cfg tried s u s1] p u by simp_all
  obtain a s2 where a: "run_state (tryTarget n env cfg attempts kind logAttrs attempt u) s1 = (a, s2)"
    by (cases "run_state (tryTarget n env cfg attempts kind logAttrs attempt u) s1")
  show ?case
  proof (cases "Name u = Name t")
    case True
    then have "u = t" using t(3) u'(1) by simp
    with up tryTarget_ok [of attempt t _ _ _ _ env s1 n cfg attempts kind logAttrs] a
    obtain payload hdr status where "a = Inr (payload, hdr, status)" "status < 500"
      by (metis fst_conv)
    with p u a show ?thesis by simp
  next
    case False
    have rest: "card (usable cfg - insert (Name u) tried) \<le> n"
    proof -
      have "usable cfg - insert (Name u) tried = (usable cfg - tried) - {Name u}" by blast
      moreover have "Name u \<in> usable cfg - tried" using u' by (auto simp: usable_def)
      ultimately show ?thesis using Suc.prems(2) fin by simp
    qed
    show ?thesis
    proof (cases a)
      case (Inl err)
      with Suc.IH [of "insert (Name u) tried" "Some err" s2] rest False Suc.prems(1) p u a
      show ?thesis by simp
    next
      case (Inr ans)
      obtain payload hdr status where ans: "ans = (payload, hdr, status)" by (cases ans)
      have "Name t \<in> usable cfg - insert (Name u) tried" using t False Suc.prems(1) by (auto simp: usable_def)
      then have "n \<noteq> 0" using rest fin by (metis card_0_eq empty_iff finite_Diff le_zero_eq)
      then have "status < 500" using run_tryTarget [OF a] Inr ans by auto
      with p u a Inr ans show ?thesis by simp
    qed
  qed
qed

end

text \<open>The two forwards run the loop on their own attempts.\<close>

interpretation query: attempter "forwardToTarget env org body accept contentType" for env org body accept contentType
  by unfold_locales (rule quiet_forwardToTarget)

interpretation read: attempter "forwardReadToTarget env r" for env r
  by unfold_locales (rule quiet_forwardToTarget)

lemma attemptsOf_pos: "0 < attemptsOf cfg"
  by (simp add: attemptsOf_def Let_def)

text \<open>Whatever the loop promises of any attempts, it promises of both forwards.\<close>

lemma forward_loop:
  assumes "p = forward env cfg org body accept contentType \<or> p = forwardRead env cfg req"
  obtains attempt kind logAttrs where "attempter attempt"
    and "p = do { r \<leftarrow> tryTargets (nat (attemptsOf cfg)) env cfg (attemptsOf cfg) kind logAttrs attempt {} None;
                  exhausted kind logAttrs (attemptsOf cfg) r }"
  using assms
proof
  assume "p = forward env cfg org body accept contentType"
  then show thesis
    unfolding forward_def Let_def by (rule that [OF query.attempter_axioms])
next
  assume "p = forwardRead env cfg req"
  then show thesis
    unfolding forwardRead_def Let_def by (rule that [OF read.attempter_axioms])
qed

section \<open>Claims\<close>


text \<open>In the example the first target fails, the second answers.\<close>

definition failingOnce :: world where
  "failingOnce = world0\<lparr>answers := [Inl ''timeout'', Inr \<lparr>rs_status = 200, rs_header = [], rs_body = Inr ''rows''\<rparr>]\<rparr>"


text \<open>
  C25: retries fail over. If one target with weight always answers with a status below 500 and
  there are at least as many attempts as targets, a query is answered with a status below 500,
  whatever the other targets do and whatever the state of the circuit breakers.
\<close>

theorem forward_failover:
  assumes "t \<in> set (Targets cfg)" "0 < Weight t" "\<And>u. u \<in> set (Targets cfg) \<Longrightarrow> Name u = Name t \<Longrightarrow> u = t"
    and "url_JoinPath env (URL t) ''/api/v2/query'' = Inr endpoint"
    and "req = queryRequest org body accept contentType t endpoint" "http_NewRequest env ''POST'' (rq_url req) = None"
    and "\<And>e. \<exists>status hdr payload. fst (http_Do env req e) =
           Inr \<lparr>rs_status = status, rs_header = hdr, rs_body = Inr payload\<rparr> \<and> status < 500"
    and "int (card (usable cfg)) \<le> attemptsOf cfg"
  shows "\<exists>payload hdr status name.
     fst (run_state (forward env cfg org body accept contentType) s) = Inr ((payload, hdr, status), name) \<and> status < 500"
proof -
  have up: "\<exists>payload hdr status. fst (run_state (forwardToTarget env org body accept contentType t) s) =
      Inr (payload, hdr, status) \<and> status < 500" for s :: "('a, 'b) gw_scheme"
  proof -
    obtain status hdr payload where "fst (http_Do env req (ext s)) =
        Inr \<lparr>rs_status = status, rs_header = hdr, rs_body = Inr payload\<rparr>" "status < 500"
      using assms(7) by blast
    with assms(4-6) show ?thesis
      by (simp add: forwardToTarget_def exchange_def run_client_Do Let_def)
  qed
  have "card (usable cfg - {}) \<le> nat (attemptsOf cfg)" using assms(8) by simp
  from query.tryTargets_failover [OF assms(1-3) up _ this]
  obtain payload hdr status name where
    "fst (run_state (tryTargets (nat (attemptsOf cfg)) env cfg (attemptsOf cfg) ''upstream_query'' [(''org'', AStr org)]
        (forwardToTarget env org body accept contentType) {} None) s) = Inr ((payload, hdr, status), name)" "status < 500"
    by blast
  then show ?thesis
    by (auto simp: forward_def exhausted_def Let_def split: prod.splits)
qed

text \<open>An environment in which only the second target answers.\<close>

definition onlyB :: "world env" where
  "onlyB = worldEnv\<lparr>http_Do := (\<lambda>req w.
     (if HasPrefix (rq_url req) ''http://b:8086''
      then Inr \<lparr>rs_status = 200, rs_header = [], rs_body = Inr ''rows''\<rparr> else Inl ''connection refused'', w))\<rparr>"

theorem forward_failover_witness:
  "\<exists>payload hdr status name.
     fst (run_state (forward onlyB exampleConfig ''acme'' ''q'' [] []) (exampleGw world0)) =
       Inr ((payload, hdr, status), name) \<and> status < 500"
proof -
  define endpoint where "endpoint = ''http://b:8086/api/v2/query''"
  define req where "req = queryRequest ''acme'' ''q'' [] [] (exampleTargets ! 1) endpoint"
  have url: "rq_url req = ''http://b:8086/api/v2/query?org=acme''"
    unfolding req_def endpoint_def by code_simp
  have "usable exampleConfig = {''a'', ''b''}"
    unfolding usable_code by (simp add: exampleConfig_def exampleTargets_def)
  moreover have "attemptsOf exampleConfig = 2" by code_simp
  ultimately have n: "int (card (usable exampleConfig)) \<le> attemptsOf exampleConfig" by simp
  have "http_NewRequest onlyB ''POST'' (rq_url req) = None" unfolding url by code_simp
  moreover have "HasPrefix (rq_url req) ''http://b:8086''" unfolding url by code_simp
  then have "fst (http_Do onlyB req e) = Inr \<lparr>rs_status = 200, rs_header = [], rs_body = Inr ''rows''\<rparr>" for e
    by (simp add: onlyB_def)
  moreover have "url_JoinPath onlyB (URL (exampleTargets ! 1)) ''/api/v2/query'' = Inr endpoint"
    unfolding endpoint_def by code_simp
  ultimately show ?thesis
    using n by (intro forward_failover [of "exampleTargets ! 1", OF _ _ _ _ req_def])
      (auto simp: exampleConfig_def exampleTargets_def)
qed

end
