(* ===== verification/GatewayFetch.thy ===== *)
theory GatewayFetch
  imports GatewayForward
begin

text \<open>
  The cached fetch: what it answers and from where, how it counts, and how it uses the lock.
\<close>

section \<open>Answers of a forward\<close>

text \<open>An upstream's answer, among the events.\<close>

definition upstreamAnswer :: "'e env \<Rightarrow> (http_request \<Rightarrow> bool) \<Rightarrow> answer \<Rightarrow> event list \<Rightarrow> bool" where
  "upstreamAnswer env R ans evs =
     (case ans of (payload, hdr, status) \<Rightarrow>
        \<exists>req resp e. HttpDo req (Inr resp) \<in> set evs \<and> R req \<and> fst (http_Do env req e) = Inr resp \<and>
          rs_status resp = status \<and> rs_header resp = hdr \<and> rs_body resp = Inr payload)"

lemma upstreamAnswer_mono: "upstreamAnswer env R ans evs \<Longrightarrow> set evs \<subseteq> set evs' \<Longrightarrow> upstreamAnswer env R ans evs'"
  unfolding upstreamAnswer_def by (auto split: prod.splits)

lemma exchange_answer:
  assumes "run_state (exchange env req) s = (Inr ans, s')" and "trace s' = trace s @ evs" and "R req"
  shows "upstreamAnswer env R ans evs"
  using assms
  by (fastforce simp: exchange_def run_client_Do upstreamAnswer_def split: sum.splits)

lemma forwardToTarget_answer:
  assumes "run_state (forwardToTarget env org body accept contentType t) s = (Inr ans, s')" and "trace s' = trace s @ evs"
    and "t \<in> set (Targets cfg)"
  shows "upstreamAnswer env (queryHttp env cfg org body accept contentType) ans evs"
proof -
  obtain endpoint where e: "url_JoinPath env (URL t) ''/api/v2/query'' = Inr endpoint"
    "run_state (exchange env (queryRequest org body accept contentType t endpoint)) s = (Inr ans, s')"
    using assms(1) by (auto simp: forwardToTarget_def Let_def split: sum.splits option.splits)
  then have "queryHttp env cfg org body accept contentType (queryRequest org body accept contentType t endpoint)"
    using assms(3) unfolding queryHttp_def by blast
  with e(2) assms(2) show ?thesis by (rule exchange_answer)
qed

text \<open>
  Attempts that moreover answer only what a target answered to a request of the kind \<open>R\<close>: then so
  does the loop.
\<close>

locale answering = attempter attempt
  for attempt :: "Target \<Rightarrow> ('e, 'x, string + answer) gwio" +
  fixes env :: "'e env" and cfg :: Config and R :: "http_request \<Rightarrow> bool"
  assumes attempt_answers: "t \<in> set (Targets cfg) \<Longrightarrow> run_state (attempt t) s = (Inr ans, s') \<Longrightarrow>
           trace s' = trace s @ evs \<Longrightarrow> upstreamAnswer env R ans evs"
begin

lemma tryTargets_answer:
  "run_state (tryTargets n env cfg attempts kind logAttrs attempt tried lastErr) s = (Inr (ans, name), s') \<Longrightarrow>
     \<exists>evs. trace s' = trace s @ evs \<and> upstreamAnswer env R ans evs"
proof (induction n arbitrary: tried lastErr s)
  case (Suc n)
  obtain picked s1 where p: "run_state (PickTarget env cfg tried) s = (picked, s1)"
    by (cases "run_state (PickTarget env cfg tried) s")
  obtain t where t: "picked = Some t" using Suc.prems p by (cases picked) auto
  have s1: "trace s1 = trace s" "t \<in> set (Targets cfg)"
    using run_PickTarget(2) [OF p] PickTarget_Some(1) [of env cfg tried s t s1] p t by simp_all
  obtain a s2 where a: "run_state (tryTarget n env cfg attempts kind logAttrs attempt t) s1 = (a, s2)"
    by (cases "run_state (tryTarget n env cfg attempts kind logAttrs attempt t) s1")
  from run_tryTarget [OF a] obtain evs where e: "trace s2 = trace s1 @ evs"
    "\<And>ans. a = Inr ans \<Longrightarrow>
       \<exists>s1 s2 e1. run_state (attempt t) s1 = (Inr ans, s2) \<and> trace s2 = trace s1 @ e1 \<and> set e1 \<subseteq> set evs"
    by blast
  show ?case
  proof (cases a)
    case (Inl err)
    then have "run_state (tryTargets n env cfg attempts kind logAttrs attempt (insert (Name t) tried) (Some err)) s2 =
        (Inr (ans, name), s')"
      using Suc.prems p t a by simp
    from Suc.IH [OF this] obtain evs' where "trace s' = trace s2 @ evs'" "upstreamAnswer env R ans evs'" by blast
    with e(1) s1(1) show ?thesis
      by (intro exI [of _ "evs @ evs'"]) (auto elim: upstreamAnswer_mono)
  next
    case (Inr ans')
    then have "ans' = ans" "s' = s2" using Suc.prems p t a by simp_all
    moreover obtain s3 s4 e1 where "run_state (attempt t) s3 = (Inr ans', s4)" "trace s4 = trace s3 @ e1" "set e1 \<subseteq> set evs"
      using e(2) [OF Inr] by blast
    with attempt_answers [OF s1(2)] have "upstreamAnswer env R ans' evs" by (blast intro: upstreamAnswer_mono)
    ultimately show ?thesis using e(1) s1(1) by auto
  qed
qed simp

end

interpretation query: answering "forwardToTarget env org body accept contentType" env cfg
    "queryHttp env cfg org body accept contentType" for env cfg org body accept contentType
  by unfold_locales (rule forwardToTarget_answer)

lemma forward_loop_answer:
  assumes "run_state (forward env cfg org body accept contentType) s = (Inr (ans, name), s')"
  shows "run_state (tryTargets (nat (attemptsOf cfg)) env cfg (attemptsOf cfg) ''upstream_query'' [(''org'', AStr org)]
      (forwardToTarget env org body accept contentType) {} None) s = (Inr (ans, name), s')"
  using assms by (auto simp: forward_def exhausted_def Let_def split: prod.splits sum.splits)

lemma forward_answer:
  assumes "run_state (forward env cfg org body accept contentType) s = (Inr (ans, name), s')"
  shows "\<exists>evs. trace s' = trace s @ evs \<and> upstreamAnswer env (queryHttp env cfg org body accept contentType) ans evs"
  using forward_loop_answer [OF assms] by (rule query.tryTargets_answer)

section \<open>The branches of a fetch\<close>

lemma fetchOrCache_branches [consumes 1, case_names bypass hit redis_error lock_error waited race locked]:
  assumes "run_state (fetchOrCache env cfg org sig body accept contentType) s = (r, s')"
  obtains
    "\<not> cacheable accept" "run_state (forwardAs ''BYPASS'' env cfg org body accept contentType) s = (r, s')"
  | cached s1 where "cacheable accept" "run_state (Get env (Key org sig)) s = (Inr cached, s1)"
      "run_state (hitAs ''HIT'' accept cached) s1 = (r, s')"
  | msg where "cacheable accept" "run_state (Get env (Key org sig)) s = (Inl (RedisErr msg), s')" "r = Inr (Inl msg)"
  | s1 err lockKey where "cacheable accept" "run_state (Get env (Key org sig)) s = (Inl RedisNil, s1)"
      "run_state (AcquireLock env cfg (Key org sig)) s1 = ((Inl err, lockKey), s')" "r = Inr (Inl (redisMsg err))"
  | s1 s2 s3 lockKey cached where "cacheable accept" "run_state (Get env (Key org sig)) s = (Inl RedisNil, s1)"
      "run_state (AcquireLock env cfg (Key org sig)) s1 = ((Inr False, lockKey), s2)"
      "run_state (WaitForLock env cfg (Key org sig)) s2 = (Inr cached, s3)"
      "run_state (hitAs ''HIT_WAIT'' accept cached) s3 = (r, s')"
  | s1 s2 s3 lockKey err where "cacheable accept" "run_state (Get env (Key org sig)) s = (Inl RedisNil, s1)"
      "run_state (AcquireLock env cfg (Key org sig)) s1 = ((Inr False, lockKey), s2)"
      "run_state (WaitForLock env cfg (Key org sig)) s2 = (Inl err, s3)"
      "run_state (forwardAs ''MISS_RACE'' env cfg org body accept contentType) s3 = (r, s')"
  | s1 s2 s3 lockKey err where "cacheable accept" "run_state (Get env (Key org sig)) s = (Inl RedisNil, s1)"
      "run_state (AcquireLock env cfg (Key org sig)) s1 = ((Inr True, lockKey), s2)"
      "run_state (fetchLocked env cfg (Key org sig) org body accept contentType) s2 = (r, s3)"
      "run_state (ReleaseLock env lockKey) s3 = (err, s')"
proof (cases "cacheable accept")
  case False
  with assms that(1) show ?thesis by (simp add: fetchOrCache_def)
next
  case c: True
  obtain got s1 where g: "run_state (Get env (Key org sig)) s = (got, s1)"
    by (cases "run_state (Get env (Key org sig)) s")
  show ?thesis
  proof (cases "got = Inl RedisNil")
    case False
    show ?thesis
    proof (cases got)
      case (Inr cached)
      with assms c g that(2) show ?thesis by (simp add: fetchOrCache_def Let_def)
    next
      case (Inl err)
      with False obtain msg where "err = RedisErr msg" by (cases err) auto
      with assms c g Inl that(3) show ?thesis by (simp add: fetchOrCache_def Let_def)
    qed
  next
    case True
    obtain l lockKey s2 where l: "run_state (AcquireLock env cfg (Key org sig)) s1 = ((l, lockKey), s2)"
      by (metis prod.exhaust)
    note run = assms [unfolded fetchOrCache_def Let_def]
    show ?thesis
    proof (cases l)
      case (Inl err)
      with run c g True l that(4) show ?thesis by simp
    next
      case (Inr got_it)
      show ?thesis
      proof (cases got_it)
        case False
        obtain w s3 where w: "run_state (WaitForLock env cfg (Key org sig)) s2 = (w, s3)"
          by (cases "run_state (WaitForLock env cfg (Key org sig)) s2")
        show ?thesis
        proof (cases w)
          case (Inl e)
          with run c g True l Inr False w that(6) show ?thesis by simp
        next
          case (Inr v)
          with run c g True l \<open>l = Inr got_it\<close> False w that(5) show ?thesis by simp
        qed
      next
        case locked: True
        obtain r3 s3 where f: "run_state (fetchLocked env cfg (Key org sig) org body accept contentType) s2 = (r3, s3)"
          by (cases "run_state (fetchLocked env cfg (Key org sig) org body accept contentType) s2")
        obtain e s4 where "run_state (ReleaseLock env lockKey) s3 = (e, s4)"
          by (cases "run_state (ReleaseLock env lockKey) s3")
        with run c g True l Inr locked f that(7) show ?thesis by simp
      qed
    qed
  qed
qed

section \<open>Traces of the operations\<close>

text \<open>Events of the use of the lock and the cache: an acquired lock, a store, a deletion.\<close>

fun lockOp :: "event \<Rightarrow> bool" where
  "lockOp (RedisSetNX k tok ttl r) = (r = Inr True)"
| "lockOp (RedisSet k v ttl e) = True"
| "lockOp (RedisDel k e) = True"
| "lockOp ev = False"

fun resultOf :: "event \<Rightarrow> string list" where
  "resultOf (CacheResult r) = [r]"
| "resultOf ev = []"

definition lockOps :: "event list \<Rightarrow> event list" where
  "lockOps evs = filter lockOp evs"

definition results :: "event list \<Rightarrow> string list" where
  "results evs = concat (map resultOf evs)"

lemma lockOps_results_simps [simp]:
  "lockOps [] = []" "lockOps (evs @ evs') = lockOps evs @ lockOps evs'"
  "lockOps (ev # evs) = (if lockOp ev then [ev] else []) @ lockOps evs"
  "results [] = []" "results (evs @ evs') = results evs @ results evs'" "results (ev # evs) = resultOf ev @ results evs"
  by (simp_all add: lockOps_def results_def)

text \<open>Requests and observations only.\<close>

fun upstreamOnly :: "event \<Rightarrow> bool" where
  "upstreamOnly (HttpDo req resp) = True"
| "upstreamOnly ev = observation ev"

lemma upstreamOnly_ops: "list_all upstreamOnly evs \<Longrightarrow> lockOps evs = [] \<and> results evs = []"
proof (induction evs)
  case (Cons ev evs)
  then show ?case by (cases ev) auto
qed simp

lemma readsOnly_ops: "list_all (readsOnly key) evs \<Longrightarrow> lockOps evs = [] \<and> results evs = [] \<and> (\<forall>req resp. HttpDo req resp \<notin> set evs)"
proof (induction evs)
  case (Cons ev evs)
  then show ?case by (cases ev) auto
qed simp

lemma run_forward:
  assumes "run_state (forward env cfg org body accept contentType) s = (r, s')"
  shows "\<exists>evs. trace s' = trace s @ evs \<and> list_all upstreamOnly evs \<and>
     (\<forall>ans name. r = Inr (ans, name) \<longrightarrow>
        upstreamAnswer env (queryHttp env cfg org body accept contentType) ans evs \<and> name \<in> usable cfg)"
proof -
  have "emits upstreamOnly (forward env cfg org body accept contentType)"
  proof (rule emits_forward)
    show "observes upstreamOnly"
      unfolding observes_def
    proof (intro allI impI)
      fix ev assume "observation ev" then show "upstreamOnly ev" by (cases ev) auto
    qed
  qed simp
  from emitsD [OF this assms] obtain evs where e: "trace s' = trace s @ evs" "list_all upstreamOnly evs" by blast
  have "upstreamAnswer env (queryHttp env cfg org body accept contentType) ans evs \<and> name \<in> usable cfg"
    if r: "r = Inr (ans, name)" for ans name
  proof
    show "upstreamAnswer env (queryHttp env cfg org body accept contentType) ans evs"
      using forward_answer [OF assms [unfolded r]] e(1) by auto
    from query.tryTargets_attempts [OF forward_loop_answer [OF assms [unfolded r]]]
    obtain evs' hist where
      a: "attemptsSpec cfg (nat (attemptsOf cfg)) {} (attempted evs') hist None (Inr (ans, name))" by blast
    obtain payload hdr status where ans: "ans = (payload, hdr, status)" by (cases ans)
    from a obtain earlier final where h: "hist = earlier @ [final]" "reported final = (name, status < 500)"
      "map (\<lambda>x. fst (reported x)) hist = attempted evs'" "set (attempted evs') \<subseteq> usable cfg"
      by (auto simp: attemptsSpec_def ans)
    from h(1-3) have "attempted evs' = map (\<lambda>x. fst (reported x)) earlier @ [name]" by simp
    with h(4) show "name \<in> usable cfg" by simp
  qed
  with e show ?thesis by blast
qed

lemma run_AcquireLock:
  assumes "run_state (AcquireLock env cfg key) s = ((l, lockKey), s')"
  shows "lockKey = lockKeyOf key"
    and "\<exists>tok d. trace s' = trace s @ [RedisSetNX (lockKeyOf key) tok (CacheLockTTL cfg) l, RedisLatency ''setnx'' (\<not> isl l) d]"
  using assms by (auto simp: AcquireLock_def metrics_defs Let_def run_external time_Since_def run_time_Now)

lemma jitteredTTL_panic:
  assumes "run_state (jitteredTTL env cfg) s = (Inl p, s')"
  shows "4611686018427387904 \<le> CacheTTLJitter cfg"
proof (rule ccontr)
  assume "\<not> ?thesis"
  with assms show False
    by (cases "CacheTTLJitter cfg \<le> 0") (auto simp: jitteredTTL_def Let_def in_int64_def split: if_splits prod.splits)
qed

lemma jitteredTTL_trace: "run_state (jitteredTTL env cfg) s = (r, s') \<Longrightarrow> trace s' = trace s"
  by (auto simp: jitteredTTL_def Let_def run_external split: if_splits)

lemma run_Set:
  assumes "run_state (Set env cfg key val) s = (r, s')"
  shows "(case r of
            Inl p \<Rightarrow> trace s' = trace s \<and> 4611686018427387904 \<le> CacheTTLJitter cfg
          | Inr e \<Rightarrow> (\<exists>ttl d. trace s' = trace s @ [RedisSet key val ttl e, RedisLatency ''set'' (e = None) d]))"
proof -
  obtain now s1 where n: "run_state (time_Now env) s = (now, s1)" by (cases "run_state (time_Now env) s")
  obtain j s2 where j: "run_state (jitteredTTL env cfg) s1 = (j, s2)" by (cases "run_state (jitteredTTL env cfg) s1")
  have "trace s2 = trace s" using jitteredTTL_trace [OF j] n by (auto simp: run_time_Now)
  moreover have "4611686018427387904 \<le> CacheTTLJitter cfg" if "j = Inl p" for p
    using jitteredTTL_panic j that by blast
  ultimately show ?thesis
    using assms n j
    by (cases j) (auto simp: Set_def metrics_defs run_external time_Since_def run_time_Now)
qed

lemma run_ReleaseLock:
  "run_state (ReleaseLock env k) s = (e, s') \<Longrightarrow> trace s' = trace s @ [RedisDel k e]"
  by (auto simp: ReleaseLock_def run_external)

lemma waitLoop_reads:
  "waitLoop env key deadline s = (Inr v, s') \<Longrightarrow> \<exists>evs. trace s' = trace s @ evs \<and> RedisGet key (Inr v) \<in> set evs"
proof (induction s rule: waitLoop_induct [where env = env and key = key and deadline = deadline])
  case (1 s)
  obtain now s1 where t: "run_state (time_Now env) s = (now, s1)" by (cases "run_state (time_Now env) s")
  obtain r2 s2 where g: "run_state (GetAs ''get_wait'' env key) s1 = (r2, s2)"
    by (cases "run_state (GetAs ''get_wait'' env key) s1")
  obtain d where d: "trace s2 = trace s @ [RedisGet key r2, RedisLatency ''get_wait'' (getOk r2) d]"
    using run_GetAs(2) [OF g] t by (auto simp: run_time_Now)
  show ?case
    using "1.prems" "1.IH" [OF t] g d
    by (fastforce simp: waitLoop_cases [OF t g] split: if_splits)
qed

lemma run_WaitForLock:
  assumes "run_state (WaitForLock env cfg key) s = (r, s')"
  shows "\<exists>evs. trace s' = trace s @ evs \<and> list_all (readsOnly key) evs \<and> (\<forall>v. r = Inr v \<longrightarrow> RedisGet key (Inr v) \<in> set evs)"
proof -
  obtain now s1 where t: "run_state (time_Now env) s = (now, s1)" by (cases "run_state (time_Now env) s")
  have w: "waitLoop env key (now + CacheLockWait cfg) s1 = (r, s')" and "trace s1 = trace s"
    using assms t by (auto simp: WaitForLock_def run_time_Now)
  with waitLoop_gets [OF w] waitLoop_reads [of env key "now + CacheLockWait cfg" s1] show ?thesis by fastforce
qed

text \<open>The outcome of a fetch that went upstream: no count on an error, one count for an answer.\<close>

definition fetchedLive :: "'e env \<Rightarrow> Config \<Rightarrow> (http_request \<Rightarrow> bool) \<Rightarrow> string \<Rightarrow> go_panic + (string + fetched) \<Rightarrow> event list \<Rightarrow> bool" where
  "fetchedLive env cfg R src r evs =
     (case r of
        Inl p \<Rightarrow> 4611686018427387904 \<le> CacheTTLJitter cfg \<and> results evs = []
      | Inr (Inl err) \<Rightarrow> results evs = []
      | Inr (Inr (payload, hdr, status, source, name)) \<Rightarrow>
          source = src \<and> results evs = [src] \<and> upstreamAnswer env R (payload, hdr, status) evs \<and> name \<in> usable cfg)"

lemma run_hitAs:
  "run_state (hitAs src accept cached) s = (r, s') \<Longrightarrow>
     r = Inr (Inr (cached, defaultCachedHeader accept, 200, src, [])) \<and> trace s' = trace s @ [CacheResult src]"
  by (auto simp: hitAs_def metrics_defs)

lemma run_forwardAs:
  assumes "run_state (forwardAs src env cfg org body accept contentType) s = (r, s')"
  shows "\<exists>evs. trace s' = trace s @ evs \<and> lockOps evs = [] \<and> \<not> isl r \<and>
           fetchedLive env cfg (queryHttp env cfg org body accept contentType) src r evs"
proof -
  obtain f s1 where f: "run_state (forward env cfg org body accept contentType) s = (f, s1)"
    by (cases "run_state (forward env cfg org body accept contentType) s")
  from run_forward [OF f] obtain evs where e: "trace s1 = trace s @ evs" "list_all upstreamOnly evs"
    "\<And>ans name. f = Inr (ans, name) \<Longrightarrow>
       upstreamAnswer env (queryHttp env cfg org body accept contentType) ans evs \<and> name \<in> usable cfg" by blast
  note ops = upstreamOnly_ops [OF e(2)]
  show ?thesis
  proof (cases f)
    case (Inl err)
    with assms f e(1) ops show ?thesis
      by (intro exI [of _ evs]) (auto simp: forwardAs_def fetchedLive_def)
  next
    case (Inr x)
    obtain payload hdr status name where x: "x = ((payload, hdr, status), name)" by (metis prod.exhaust)
    with assms f Inr have r: "r = Inr (Inr (payload, hdr, status, src, name))" "trace s' = trace s1 @ [CacheResult src]"
      by (auto simp: forwardAs_def metrics_defs)
    moreover have "upstreamAnswer env (queryHttp env cfg org body accept contentType) (payload, hdr, status) (evs @ [CacheResult src])"
      using e(3) Inr x by (auto elim: upstreamAnswer_mono)
    ultimately show ?thesis
      using e ops Inr x by (intro exI [of _ "evs @ [CacheResult src]"]) (auto simp: fetchedLive_def)
  qed
qed

text \<open>While the lock is held: the only store is that of the answer, and every 2xx answer is stored.\<close>

lemma run_fetchLocked:
  assumes "run_state (fetchLocked env cfg key org body accept contentType) s = (r, s')"
  shows "\<exists>evs. trace s' = trace s @ evs \<and>
           fetchedLive env cfg (queryHttp env cfg org body accept contentType) ''MISS'' r evs \<and>
           (lockOps evs = [] \<or>
            (\<exists>v ttl e hdr status name. lockOps evs = [RedisSet key v ttl e] \<and> r = Inr (Inr (v, hdr, status, ''MISS'', name)) \<and>
               200 \<le> status \<and> status < 300)) \<and>
           (\<forall>v hdr status src name. r = Inr (Inr (v, hdr, status, src, name)) \<longrightarrow> 200 \<le> status \<longrightarrow> status < 300 \<longrightarrow> lockOps evs \<noteq> [])"
proof -
  obtain f s1 where f: "run_state (forward env cfg org body accept contentType) s = (f, s1)"
    by (cases "run_state (forward env cfg org body accept contentType) s")
  from run_forward [OF f] obtain evs where e: "trace s1 = trace s @ evs" "list_all upstreamOnly evs"
    "\<And>ans name. f = Inr (ans, name) \<Longrightarrow>
       upstreamAnswer env (queryHttp env cfg org body accept contentType) ans evs \<and> name \<in> usable cfg" by blast
  note ops = upstreamOnly_ops [OF e(2)]
  show ?thesis
  proof (cases f)
    case (Inl err)
    with assms f e(1) ops show ?thesis
      by (intro exI [of _ evs]) (auto simp: fetchLocked_def fetchedLive_def)
  next
    case (Inr x)
    obtain payload hdr status name where x: "x = ((payload, hdr, status), name)" by (metis prod.exhaust)
    note up = e(3) [OF Inr [unfolded x]]
    have mono: "upstreamAnswer env (queryHttp env cfg org body accept contentType) (payload, hdr, status) (evs @ more)" for more
      using up by (auto elim: upstreamAnswer_mono)
    show ?thesis
    proof (cases "go_div status 100 = 2")
      case False
      with assms f Inr x have "r = Inr (Inr (payload, hdr, status, ''MISS'', name))" "trace s' = trace s1 @ [CacheResult ''MISS'']"
        by (auto simp: fetchLocked_def metrics_defs)
      with e ops up mono False show ?thesis
        by (intro exI [of _ "evs @ [CacheResult ''MISS'']"]) (auto simp: fetchedLive_def go_div_100_eq_2)
    next
      case True
      obtain stored s2 where st: "run_state (Set env cfg key payload) s1 = (stored, s2)"
        by (cases "run_state (Set env cfg key payload) s1")
      note set = run_Set [OF st]
      show ?thesis
      proof (cases stored)
        case (Inl p)
        with assms f \<open>f = Inr x\<close> x True st have "r = Inl p" "s' = s2" by (auto simp: fetchLocked_def)
        with e ops set Inl show ?thesis by (intro exI [of _ evs]) (auto simp: fetchedLive_def)
      next
        case (Inr err)
        then obtain ttl d where t: "trace s2 = trace s1 @ [RedisSet key payload ttl err, RedisLatency ''set'' (err = None) d]"
          using set by auto
        have "r = Inr (Inr (payload, hdr, status, ''MISS'', name))" "trace s' = trace s2 @ [CacheResult ''MISS'']"
          using assms f \<open>f = Inr x\<close> x True st Inr by (auto simp: fetchLocked_def metrics_defs)
        with e ops up mono True t show ?thesis
          by (intro exI [of _ "evs @ [RedisSet key payload ttl err, RedisLatency ''set'' (err = None) d, CacheResult ''MISS'']"])
             (auto simp: fetchedLive_def go_div_100_eq_2)
      qed
    qed
  qed
qed

section \<open>A fetch as a whole\<close>

text \<open>The ways a fetch can use the lock and the cache.\<close>

definition lockUse :: "Config \<Rightarrow> string \<Rightarrow> go_panic + (string + fetched) \<Rightarrow> event list \<Rightarrow> bool" where
  "lockUse cfg key r evs \<longleftrightarrow>
     lockOps evs = [] \<or>
     (\<exists>tok e. lockOps evs = [RedisSetNX (lockKeyOf key) tok (CacheLockTTL cfg) (Inr True), RedisDel (lockKeyOf key) e]) \<or>
     (\<exists>tok v ttl e e' hdr status name.
        lockOps evs = [RedisSetNX (lockKeyOf key) tok (CacheLockTTL cfg) (Inr True), RedisSet key v ttl e, RedisDel (lockKeyOf key) e'] \<and>
        r = Inr (Inr (v, hdr, status, ''MISS'', name)) \<and> 200 \<le> status \<and> status < 300)"

text \<open>What a fetch returns, by its source.\<close>

definition fetchedFrom :: "'e env \<Rightarrow> Config \<Rightarrow> (http_request \<Rightarrow> bool) \<Rightarrow> string \<Rightarrow> string \<Rightarrow> go_panic + (string + fetched) \<Rightarrow> event list \<Rightarrow> bool" where
  "fetchedFrom env cfg R key accept r evs =
     (case r of
        Inl p \<Rightarrow> 4611686018427387904 \<le> CacheTTLJitter cfg \<and> results evs = []
      | Inr (Inl err) \<Rightarrow> results evs = []
      | Inr (Inr (payload, hdr, status, source, name)) \<Rightarrow>
          results evs = [source] \<and>
          (if source \<in> {''HIT'', ''HIT_WAIT''}
           then cacheable accept \<and> status = 200 \<and> hdr = defaultCachedHeader accept \<and> name = [] \<and>
             RedisGet key (Inr payload) \<in> set evs \<and> (\<forall>req resp. HttpDo req resp \<notin> set evs)
           else source = (if cacheable accept then if lockOps evs = [] then ''MISS_RACE'' else ''MISS'' else ''BYPASS'') \<and>
             upstreamAnswer env R (payload, hdr, status) evs \<and> name \<in> usable cfg))"

lemma fetchedLive_mono:
  assumes "fetchedLive env cfg R src r evs" and "results evs' = results evs" and "set evs \<subseteq> set evs'"
  shows "fetchedLive env cfg R src r evs'"
  using assms upstreamAnswer_mono [of env R _ evs evs'] by (auto simp: fetchedLive_def split: sum.splits prod.splits)

lemma fetchedLive_From:
  assumes "fetchedLive env cfg R src r evs" and "src \<notin> {''HIT'', ''HIT_WAIT''}"
    and "src = (if cacheable accept then if lockOps evs = [] then ''MISS_RACE'' else ''MISS'' else ''BYPASS'')"
  shows "fetchedFrom env cfg R key accept r evs"
  using assms by (auto simp: fetchedLive_def fetchedFrom_def split: sum.splits prod.splits)

lemma fetchOrCache_trace:
  assumes "run_state (fetchOrCache env cfg org sig body accept contentType) s = (r, s')"
  shows "\<exists>evs. trace s' = trace s @ evs \<and> lockUse cfg (Key org sig) r evs \<and>
     fetchedFrom env cfg (queryHttp env cfg org body accept contentType) (Key org sig) accept r evs"
    (is "\<exists>evs. _ \<and> ?U evs \<and> ?F evs")
  using assms
proof (cases rule: fetchOrCache_branches)
  case bypass
  from run_forwardAs [OF bypass(2)] bypass(1) show ?thesis
    by (fastforce simp: lockUse_def intro!: fetchedLive_From)
next
  case (hit cached s1)
  from run_GetAs(2) [OF hit(2) [unfolded Get_def]] obtain d where
    "trace s1 = trace s @ [RedisGet (Key org sig) (Inr cached), RedisLatency ''get'' (getOk (Inr cached)) d]" by blast
  with run_hitAs [OF hit(3)] hit(1) show ?thesis
    by (intro exI [of _ "[RedisGet (Key org sig) (Inr cached), RedisLatency ''get'' (getOk (Inr cached)) d, CacheResult ''HIT'']"])
       (auto simp: lockUse_def fetchedFrom_def)
next
  case (redis_error msg)
  from run_GetAs(2) [OF redis_error(2) [unfolded Get_def]] redis_error(3) show ?thesis
    by (auto simp: lockUse_def fetchedFrom_def)
next
  case (lock_error s1 err lockKey)
  from run_GetAs(2) [OF lock_error(2) [unfolded Get_def]] run_AcquireLock(2) [OF lock_error(3)] lock_error(4)
  show ?thesis by (fastforce simp: lockUse_def fetchedFrom_def)
next
  case (waited s1 s2 s3 lockKey cached)
  from run_GetAs(2) [OF waited(2) [unfolded Get_def]] run_AcquireLock(2) [OF waited(3)]
  obtain d tok d' where "trace s2 = trace s @ [RedisGet (Key org sig) (Inl RedisNil), RedisLatency ''get'' (getOk (Inl RedisNil)) d,
      RedisSetNX (lockKeyOf (Key org sig)) tok (CacheLockTTL cfg) (Inr False), RedisLatency ''setnx'' True d']" (is "_ = _ @ ?e")
    by auto
  moreover obtain evs where "trace s3 = trace s2 @ evs" "list_all (readsOnly (Key org sig)) evs"
    "RedisGet (Key org sig) (Inr cached) \<in> set evs"
    using run_WaitForLock [OF waited(4)] by blast
  ultimately show ?thesis
    using run_hitAs [OF waited(5)] readsOnly_ops [of "Key org sig" evs] waited(1)
    by (intro exI [of _ "?e @ evs @ [CacheResult ''HIT_WAIT'']"]) (auto simp: lockUse_def fetchedFrom_def)
next
  case (race s1 s2 s3 lockKey err)
  from run_GetAs(2) [OF race(2) [unfolded Get_def]] run_AcquireLock(2) [OF race(3)]
  obtain d tok d' where e: "trace s2 = trace s @ [RedisGet (Key org sig) (Inl RedisNil), RedisLatency ''get'' (getOk (Inl RedisNil)) d,
      RedisSetNX (lockKeyOf (Key org sig)) tok (CacheLockTTL cfg) (Inr False), RedisLatency ''setnx'' True d']" (is "_ = _ @ ?e")
    by auto
  obtain evs where w: "trace s3 = trace s2 @ evs" "list_all (readsOnly (Key org sig)) evs"
    using run_WaitForLock [OF race(4)] by blast
  obtain evs' where f: "trace s' = trace s3 @ evs'" "lockOps evs' = []"
    "fetchedLive env cfg (queryHttp env cfg org body accept contentType) ''MISS_RACE'' r evs'"
    using run_forwardAs [OF race(5)] by blast
  have ops: "lockOps (?e @ evs @ evs') = []" "results (?e @ evs @ evs') = results evs'"
    using readsOnly_ops [OF w(2)] f(2) by auto
  then have "?F (?e @ evs @ evs')"
    using race(1) by (intro fetchedLive_From [OF fetchedLive_mono [OF f(3)]]) auto
  with e w(1) f(1) ops show ?thesis
    by (intro exI [of _ "?e @ evs @ evs'"]) (simp add: lockUse_def)
next
  case (locked s1 s2 s3 lockKey err)
  from run_GetAs(2) [OF locked(2) [unfolded Get_def]] run_AcquireLock(2) [OF locked(3)]
  obtain d tok d' where e: "trace s2 = trace s @ [RedisGet (Key org sig) (Inl RedisNil), RedisLatency ''get'' (getOk (Inl RedisNil)) d,
      RedisSetNX (lockKeyOf (Key org sig)) tok (CacheLockTTL cfg) (Inr True), RedisLatency ''setnx'' True d']" (is "_ = _ @ ?e")
    by auto
  from run_fetchLocked [OF locked(4)] obtain evs where f: "trace s3 = trace s2 @ evs"
    "fetchedLive env cfg (queryHttp env cfg org body accept contentType) ''MISS'' r evs"
    "lockOps evs = [] \<or> (\<exists>v ttl e hdr status name. lockOps evs = [RedisSet (Key org sig) v ttl e] \<and>
       r = Inr (Inr (v, hdr, status, ''MISS'', name)) \<and> 200 \<le> status \<and> status < 300)"
    by (elim exE conjE)
  have rel: "trace s' = trace s3 @ [RedisDel (lockKeyOf (Key org sig)) err]"
    using run_ReleaseLock [OF locked(5)] run_AcquireLock(1) [OF locked(3)] by simp
  define all where "all = ?e @ evs @ [RedisDel (lockKeyOf (Key org sig)) err]"
  have "?F all"
    using locked(1) by (intro fetchedLive_From [OF fetchedLive_mono [OF f(2)]]) (auto simp: all_def)
  moreover have "?U all" using f(3) by (auto simp: all_def lockUse_def)
  moreover have "trace s' = trace s @ all" using e f(1) rel by (simp add: all_def)
  ultimately show ?thesis by blast
qed

section \<open>Claims\<close>

text \<open>
  C20: a fetch stores a value only while it holds the lock of its key, stores exactly the
  answer it returns and only if its status is 2xx, and whenever it acquired the lock it deletes
  the lock afterwards, on every path, errors and panics included. A fetch that did not acquire
  the lock neither stores nor deletes anything.
\<close>

theorem fetchOrCache_lock:
  assumes "run_state (fetchOrCache env cfg org sig body accept contentType) s = (r, s')"
  shows "\<exists>evs. trace s' = trace s @ evs \<and>
     (lockOps evs = [] \<or>
      (\<exists>tok e. lockOps evs =
         [RedisSetNX (lockKeyOf (Key org sig)) tok (CacheLockTTL cfg) (Inr True), RedisDel (lockKeyOf (Key org sig)) e]) \<or>
      (\<exists>tok v ttl e e' hdr status name.
         lockOps evs = [RedisSetNX (lockKeyOf (Key org sig)) tok (CacheLockTTL cfg) (Inr True),
           RedisSet (Key org sig) v ttl e, RedisDel (lockKeyOf (Key org sig)) e'] \<and>
         r = Inr (Inr (v, hdr, status, ''MISS'', name)) \<and> 200 \<le> status \<and> status < 300))"
  using fetchOrCache_trace [OF assms] unfolding lockUse_def by blast

theorem fetchOrCache_lock_witness:
  "\<exists>evs. trace (snd (run_state (fetchOrCache worldEnv exampleConfig ''acme'' ''q'' ''q'' [] []) (exampleGw failingOnce))) = evs \<and>
     length (lockOps evs) \<in> {0, 2, 3}"
proof -
  obtain r s' where r: "run_state (fetchOrCache worldEnv exampleConfig ''acme'' ''q'' ''q'' [] []) (exampleGw failingOnce) = (r, s')"
    by (cases "run_state (fetchOrCache worldEnv exampleConfig ''acme'' ''q'' ''q'' [] []) (exampleGw failingOnce)")
  from fetchOrCache_lock [OF r] show ?thesis by (auto simp: r)
qed

text \<open>
  C21: where an answer comes from. A fetch counts its answer once under the source it
  reports, and an error is not counted. A hit, at once or after waiting, is a value that Redis
  returned for the key of this organisation and this query, sent with status 200, and no
  request went upstream; any other answer is what a configured target answered to this very
  request, unchanged, and its source says whether the cache was bypassed, the lock was held or
  the wait for it was in vain. The code panics only for a jitter of at least \<open>2^62\<close> ns.
\<close>

theorem fetchOrCache_source:
  assumes "run_state (fetchOrCache env cfg org sig body accept contentType) s = (r, s')"
  shows "\<exists>evs. trace s' = trace s @ evs \<and>
     (case r of
        Inl p \<Rightarrow> 4611686018427387904 \<le> CacheTTLJitter cfg \<and> results evs = []
      | Inr (Inl err) \<Rightarrow> results evs = []
      | Inr (Inr (payload, hdr, status, source, name)) \<Rightarrow>
          results evs = [source] \<and>
          (if source \<in> {''HIT'', ''HIT_WAIT''}
           then cacheable accept \<and> status = 200 \<and> hdr = defaultCachedHeader accept \<and> name = [] \<and>
             RedisGet (Key org sig) (Inr payload) \<in> set evs \<and> (\<forall>req resp. HttpDo req resp \<notin> set evs)
           else source = (if cacheable accept then if lockOps evs = [] then ''MISS_RACE'' else ''MISS'' else ''BYPASS'') \<and>
             upstreamAnswer env (queryHttp env cfg org body accept contentType) (payload, hdr, status) evs \<and>
             name \<in> usable cfg))"
  using fetchOrCache_trace [OF assms] unfolding fetchedFrom_def by blast

text \<open>An answer that is not cacheable comes from the target.\<close>

theorem fetchOrCache_source_witness:
  "\<exists>evs. results evs = [''BYPASS''] \<and>
     upstreamAnswer worldEnv (queryHttp worldEnv exampleConfig ''acme'' ''q'' ''application/json'' []) (''rows'', [], 200) evs"
proof -
  have run: "fst (run_state (fetchOrCache worldEnv exampleConfig ''acme'' ''q'' ''q'' ''application/json'' []) (exampleGw failingOnce)) =
      Inr (Inr (''rows'', [], 200, ''BYPASS'', ''b''))"
    by code_simp
  then obtain s' where r: "run_state (fetchOrCache worldEnv exampleConfig ''acme'' ''q'' ''q'' ''application/json'' []) (exampleGw failingOnce) =
      (Inr (Inr (''rows'', [], 200, ''BYPASS'', ''b'')), s')"
    by (metis prod.collapse)
  from fetchOrCache_source [OF r] show ?thesis by auto
qed

end
