(* ===== verification/GatewayHandlers.thy ===== *)
theory GatewayHandlers
  imports GatewayFetch
begin

text \<open>
  The handlers: whom they answer, what they send to whom, and what they reply.
\<close>

section \<open>What a query does to the outside\<close>

text \<open>
  The bodies that may go upstream for a request: the body received, or the one built for a half
  of the split query.
\<close>

definition bodiesOf :: "Config \<Rightarrow> string \<Rightarrow> string \<Rightarrow> string set" where
  "bodiesOf cfg contentType body =
     insert body
       {b. \<exists>now cachedQuery liveQuery.
          SplitNowQuery (fst (queryOf contentType body)) (SplitCutoff now (FreshnessWindow cfg)) = Some (cachedQuery, liveQuery) \<and>
          (snd (queryOf contentType body) cachedQuery = Inr b \<or> snd (queryOf contentType body) liveQuery = Inr b)}"

text \<open>Events that concern one organisation and these bodies.\<close>

fun queryEvent :: "'e env \<Rightarrow> Config \<Rightarrow> string \<Rightarrow> string set \<Rightarrow> string \<Rightarrow> string \<Rightarrow> event \<Rightarrow> bool" where
  "queryEvent env cfg org B accept contentType (HttpDo req resp) =
     (\<exists>body \<in> B. queryHttp env cfg org body accept contentType req)"
| "queryEvent env cfg org B accept contentType (RedisGet k r) = (\<exists>body \<in> B. k = Key org body)"
| "queryEvent env cfg org B accept contentType (RedisSet k v ttl e) = (\<exists>body \<in> B. k = Key org body)"
| "queryEvent env cfg org B accept contentType (RedisSetNX k v ttl r) = (\<exists>body \<in> B. k = lockKeyOf (Key org body))"
| "queryEvent env cfg org B accept contentType (RedisDel k e) = (\<exists>body \<in> B. k = lockKeyOf (Key org body))"
| "queryEvent env cfg org B accept contentType (RedisPing e) = False"
| "queryEvent env cfg org B accept contentType ev = True"

lemma observes_queryEvent: "observes (queryEvent env cfg org B accept contentType)"
  unfolding observes_def
proof (intro allI impI)
  fix ev assume "observation ev" then show "queryEvent env cfg org B accept contentType ev" by (cases ev) auto
qed

lemma emits_logCatalog [emits_rules]:
  assumes "observes P"
  shows "emits P (logCatalog env cfg lg status split stage errMsg)"
  unfolding logCatalog_def Let_def by (intro emits_rules assms)

lemma emits_segmentFailed [emits_rules]:
  assumes "observes P"
  shows "emits P (segmentFailed env cfg lg stage phase msg err)"
  unfolding segmentFailed_def by (intro emits_rules assms)

lemma emits_fetch_queryEvent:
  "body \<in> B \<Longrightarrow> emits (queryEvent env cfg org B accept contentType) (fetchOrCache env cfg org body body accept contentType)"
  by (intro emits_fetchOrCache observes_queryEvent) auto

lemma emits_queryWhole:
  assumes "body \<in> B"
  shows "emits (queryEvent env cfg org B accept contentType) (queryWhole env cfg lg org body accept contentType)"
  unfolding queryWhole_def Let_def
  by (intro emits_rules emits_fetch_queryEvent observes_queryEvent assms)

lemma emits_querySplit:
  assumes "cachedBody \<in> B" "liveBody \<in> B"
  shows "emits (queryEvent env cfg org B accept contentType)
           (querySplit env cfg lg org cachedBody liveBody accept contentType)"
proof -
  have "emits (queryEvent env cfg org B accept contentType) (forward env cfg org liveBody accept contentType)"
    by (intro emits_forward observes_queryEvent) (use assms in auto)
  then show ?thesis
    unfolding querySplit_def Let_def
    by (intro emits_rules emits_fetch_queryEvent observes_queryEvent assms)
qed

text \<open>The answer to a request that is refused before its query is looked at.\<close>

definition refusal :: "Config \<Rightarrow> in_request \<Rightarrow> handled option" where
  "refusal cfg r =
     (if in_method r \<noteq> ''POST'' then Some (http_Error ''method not allowed'' 405)
      else if \<not> validGatewayAuth (hdr_Get (in_header r) ''Authorization'') (GatewayToken cfg)
        then Some (http_Error ''unauthorized'' 401)
      else if query_Get (in_rawQuery r) ''org'' = [] then Some (http_Error ''org is required'' 400)
      else if isl (in_body r) then Some (http_Error ''read body failed'' 400)
      else None)"

lemma handleQuery_refused:
  assumes "refusal cfg r = Some h" and "run_state (handleQuery env cfg r) s = (h', s')"
  shows "h' = h" "trace s' = trace s" "mgr s' = mgr s"
  using assms
  by (auto simp: refusal_def handleQuery_def Let_def run_time_Now isl_def split: if_splits)

lemma handleQuery_events:
  assumes "refusal cfg r = None" and "run_state (handleQuery env cfg r) s = (h, s')"
  shows "\<exists>evs. trace s' = trace s @ evs \<and>
    list_all (queryEvent env cfg (query_Get (in_rawQuery r) ''org'') (bodiesOf cfg (hdr_Get (in_header r) ''Content-Type'') (projr (in_body r)))
      (hdr_Get (in_header r) ''Accept'') (hdr_Get (in_header r) ''Content-Type'')) evs"
proof -
  let ?org = "query_Get (in_rawQuery r) ''org''" and ?ct = "hdr_Get (in_header r) ''Content-Type''"
    and ?a = "hdr_Get (in_header r) ''Accept''"
  obtain body where body: "in_body r = Inr body"
    using assms(1) by (cases "in_body r") (auto simp: refusal_def split: if_splits)
  let ?B = "bodiesOf cfg ?ct body"
  obtain query bodyBuilder where q: "queryOf ?ct body = (query, bodyBuilder)" by (cases "queryOf ?ct body")
  have in0: "body \<in> ?B" by (simp add: bodiesOf_def)
  have in1: "b \<in> ?B" if "SplitNowQuery query (SplitCutoff now (FreshnessWindow cfg)) = Some (c, l)"
    "bodyBuilder c = Inr b \<or> bodyBuilder l = Inr b" for now c l b
    using that by (auto simp: bodiesOf_def q)
  have "emits (queryEvent env cfg ?org ?B ?a ?ct) (handleQuery env cfg r)"
    unfolding handleQuery_def Let_def body sum.case q prod.case
    by (intro emits_rules emits_queryWhole in0 emits_querySplit) (auto intro: in1 split: if_splits)
  from emitsD [OF this assms(2)] show ?thesis by (simp add: body)
qed

section \<open>Authentication\<close>

lemma TrimSpace_id_iff: "TrimSpace s = s \<longleftrightarrow> no_outer_space s"
  using TrimSpace_clean [of s] TrimSpace_id by metis

lemma no_outer_space_between:
  assumes "x \<noteq> []" "no_outer_space x" "y \<noteq> []" "no_outer_space y" "w \<noteq> []" "list_all ascii_space w"
  shows "no_outer_space (x @ w @ y)"
proof -
  have w: "ascii_space (hd w)" "ascii_space (last w)" using assms(5,6) by (auto simp: list_all_iff)
  have "enc_len space_encs (x @ w @ y) = enc_len space_encs x"
    by (rule enc_len_ascii_suffix) (use assms w space_encs_shape in auto)
  moreover have "enc_len (map rev space_encs) (rev y @ rev w @ rev x) = enc_len (map rev space_encs) (rev y)"
    by (rule enc_len_ascii_suffix) (use assms w space_encs_shape in \<open>auto simp: hd_rev\<close>)
  ultimately show ?thesis using assms(1-4) by (simp add: no_outer_space_def)
qed



section \<open>Queries\<close>

text \<open>
  C1: a query is refused before anything else happens if it is not a POST (405), carries no
  valid token (401), names no organisation (400) or its body cannot be read (400), in this
  order; nothing is sent to Redis or upstream then and the manager is not touched. A query that
  is not refused only touches cache entries of its own organisation, and every request it causes
  goes to a configured target with that target's own token, asks for that organisation, and
  carries the body received or the one built for a half of the split query.
\<close>

theorem handleQuery_isolation:
  assumes "run_state (handleQuery env cfg r) s = (h, s')" and "org = query_Get (in_rawQuery r) ''org''"
  shows "case refusal cfg r of
     Some h' \<Rightarrow> h = h' \<and> trace s' = trace s \<and> mgr s' = mgr s
   | None \<Rightarrow> in_method r = ''POST'' \<and> org \<noteq> [] \<and>
       validGatewayAuth (hdr_Get (in_header r) ''Authorization'') (GatewayToken cfg) \<and>
       (\<exists>evs. trace s' = trace s @ evs \<and>
          (\<forall>req resp. HttpDo req resp \<in> set evs \<longrightarrow>
             (\<exists>t \<in> set (Targets cfg). \<exists>endpoint q. url_JoinPath env (URL t) ''/api/v2/query'' = Inr endpoint \<and>
                hdr_values (rq_header req) ''Authorization'' = [''Token '' @ Token t] \<and>
                rq_method req = ''POST'' \<and> rq_url req = endpoint @ ''?'' @ q \<and> query_Get q ''org'' = org \<and>
                rq_body req \<in> bodiesOf cfg (hdr_Get (in_header r) ''Content-Type'') (projr (in_body r)))) \<and>
          (\<forall>k res. RedisGet k res \<in> set evs \<longrightarrow> (\<exists>q. k = Key org q)) \<and>
          (\<forall>k v ttl e. RedisSet k v ttl e \<in> set evs \<longrightarrow> (\<exists>q. k = Key org q)) \<and>
          (\<forall>k e. RedisDel k e \<in> set evs \<longrightarrow> (\<exists>q. k = lockKeyOf (Key org q))))"
proof (cases "refusal cfg r")
  case (Some h')
  with handleQuery_refused [OF Some assms(1)] show ?thesis by simp
next
  case None
  let ?B = "bodiesOf cfg (hdr_Get (in_header r) ''Content-Type'') (projr (in_body r))"
    and ?a = "hdr_Get (in_header r) ''Accept''" and ?ct = "hdr_Get (in_header r) ''Content-Type''"
  from handleQuery_events [OF None assms(1)] obtain evs where evs: "trace s' = trace s @ evs"
    "\<And>ev. ev \<in> set evs \<Longrightarrow> queryEvent env cfg org ?B ?a ?ct ev"
    unfolding list_all_iff assms(2) by blast
  have "\<exists>t \<in> set (Targets cfg). \<exists>endpoint q. url_JoinPath env (URL t) ''/api/v2/query'' = Inr endpoint \<and>
      hdr_values (rq_header req) ''Authorization'' = [''Token '' @ Token t] \<and>
      rq_method req = ''POST'' \<and> rq_url req = endpoint @ ''?'' @ q \<and> query_Get q ''org'' = org \<and> rq_body req \<in> ?B"
    if ev: "HttpDo req resp \<in> set evs" for req resp
  proof -
    obtain body t endpoint where b: "body \<in> ?B" "t \<in> set (Targets cfg)"
      "url_JoinPath env (URL t) ''/api/v2/query'' = Inr endpoint" "req = queryRequest org body ?a ?ct t endpoint"
      using evs(2) [OF ev] by (auto simp: queryHttp_def)
    have "CanonicalKey ''Authorization'' \<noteq> CanonicalKey ''Accept''"
      "CanonicalKey ''Authorization'' \<noteq> CanonicalKey ''Content-Type''" by code_simp+
    with b query_Get_escaped [of org] show ?thesis
      by (intro bexI [of _ t] exI [of _ endpoint] exI [of _ "''org='' @ QueryEscape org"])
         (simp_all add: queryRequest_def hdr_values_Set)
  qed
  moreover have "in_method r = ''POST''" "org \<noteq> []"
    "validGatewayAuth (hdr_Get (in_header r) ''Authorization'') (GatewayToken cfg)"
    using None assms(2) by (auto simp: refusal_def split: if_splits)
  moreover have "\<exists>q. k = Key org q" if "RedisGet k res \<in> set evs" for k res
    using evs(2) [OF that] by auto
  moreover have "\<exists>q. k = Key org q" if "RedisSet k v ttl e \<in> set evs" for k v ttl e
    using evs(2) [OF that] by auto
  moreover have "\<exists>q. k = lockKeyOf (Key org q)" if "RedisDel k e \<in> set evs" for k e
    using evs(2) [OF that] by auto
  ultimately show ?thesis
    using None evs(1) by (simp only: option.case) blast
qed

text \<open>In the example a client sends an upstream's token instead of the gateway's.\<close>

definition exampleRequest :: in_request where
  "exampleRequest =
     \<lparr>in_method = ''POST'', in_path = ''/api/v2/query'', in_rawQuery = ''org=acme'',
      in_header = [(''Authorization'', [''Token ta'']), (''Accept'', [''application/json''])],
      in_body = Inr ''from(bucket: \"b\")''\<rparr>"

theorem handleQuery_isolation_witness:
  "trace (snd (run_state (handleQuery worldEnv exampleConfig exampleRequest) (exampleGw failingOnce))) = []"
proof -
  obtain h s' where r: "run_state (handleQuery worldEnv exampleConfig exampleRequest) (exampleGw failingOnce) = (h, s')"
    by (cases "run_state (handleQuery worldEnv exampleConfig exampleRequest) (exampleGw failingOnce)")
  have "refusal exampleConfig exampleRequest = Some (http_Error ''unauthorized'' 401)" by code_simp
  with handleQuery_isolation [OF r refl] show ?thesis by (simp add: r)
qed

section \<open>The read proxy\<close>

definition readHttp :: "'e env \<Rightarrow> Config \<Rightarrow> in_request \<Rightarrow> http_request \<Rightarrow> bool" where
  "readHttp env cfg r req \<longleftrightarrow>
     (\<exists>t \<in> set (Targets cfg). \<exists>endpoint. url_JoinPath env (URL t) (in_path r) = Inr endpoint \<and> req = readRequest r t endpoint)"

lemma forwardReadToTarget_answer:
  assumes "run_state (forwardReadToTarget env r t) s = (Inr ans, s')" and "trace s' = trace s @ evs"
    and "t \<in> set (Targets cfg)"
  shows "upstreamAnswer env (readHttp env cfg r) ans evs"
proof -
  obtain endpoint where e: "url_JoinPath env (URL t) (in_path r) = Inr endpoint"
    "run_state (exchange env (readRequest r t endpoint)) s = (Inr ans, s')"
    using assms(1) by (auto simp: forwardReadToTarget_def Let_def split: sum.splits option.splits)
  then have "readHttp env cfg r (readRequest r t endpoint)"
    using assms(3) unfolding readHttp_def by blast
  with e(2) assms(2) show ?thesis by (rule exchange_answer)
qed

interpretation read: answering "forwardReadToTarget env r" env cfg "readHttp env cfg r" for env cfg r
  by unfold_locales (rule forwardReadToTarget_answer)

fun readEvent :: "'e env \<Rightarrow> Config \<Rightarrow> in_request \<Rightarrow> event \<Rightarrow> bool" where
  "readEvent env cfg r (HttpDo req resp) = readHttp env cfg r req"
| "readEvent env cfg r ev = observation ev"

lemma observes_readEvent: "observes (readEvent env cfg r)"
  unfolding observes_def
proof (intro allI impI)
  fix ev assume "observation ev" then show "readEvent env cfg r ev" by (cases ev) auto
qed

lemma run_forwardRead:
  assumes "run_state (forwardRead env cfg r) s = (a, s')"
  shows "\<exists>evs. trace s' = trace s @ evs \<and> list_all (readEvent env cfg r) evs \<and>
     (\<forall>ans name. a = Inr (ans, name) \<longrightarrow> upstreamAnswer env (readHttp env cfg r) ans evs)"
proof -
  have em: "emits (readEvent env cfg r) (forwardReadToTarget env r t)" if "t \<in> set (Targets cfg)" for t
    unfolding forwardReadToTarget_def Let_def
    by (intro emits_rules) (use that in \<open>auto simp: readHttp_def\<close>)
  have "emits (readEvent env cfg r) (forwardRead env cfg r)"
    unfolding forwardRead_def exhausted_def Let_def by (intro emits_rules emits_tryTargets observes_readEvent em)
  from emitsD [OF this assms] obtain evs where e: "trace s' = trace s @ evs" "list_all (readEvent env cfg r) evs" by blast
  have "upstreamAnswer env (readHttp env cfg r) ans evs" if "a = Inr (ans, name)" for ans name
  proof -
    have "run_state (tryTargets (nat (attemptsOf cfg)) env cfg (attemptsOf cfg) ''upstream_read''
        [(''path'', AStr (in_path r)), (''query'', AStr (in_rawQuery r))] (forwardReadToTarget env r) {} None) s = (Inr (ans, name), s')"
      using assms that by (auto simp: forwardRead_def exhausted_def Let_def split: prod.splits sum.splits)
    from read.tryTargets_answer [OF this] e(1)
    show ?thesis by auto
  qed
  with e show ?thesis by blast
qed

text \<open>What a read sends: the client's request without a body, with the target's token.\<close>

lemma readEvent_request:
  assumes ev: "readEvent env cfg r ev"
  shows "case ev of HttpDo req resp \<Rightarrow>
      (\<exists>t \<in> set (Targets cfg). hdr_values (rq_header req) ''Authorization'' = [''Token '' @ Token t] \<and>
         set (map fst (rq_header req)) \<subseteq> {''Authorization'', ''Accept''} \<and> rq_method req = in_method r \<and> rq_body req = [])
      | _ \<Rightarrow> observation ev"
proof (cases ev)
  case (HttpDo rq resp)
  with ev obtain t endpoint where t: "t \<in> set (Targets cfg)" "rq = readRequest r t endpoint"
    by (auto simp: readHttp_def)
  have "CanonicalKey ''Authorization'' = ''Authorization''" "CanonicalKey ''Accept'' = ''Accept''" by code_simp+
  then have "hdr_values (rq_header rq) ''Authorization'' = [''Token '' @ Token t]"
    "set (map fst (rq_header rq)) \<subseteq> {''Authorization'', ''Accept''}" "rq_method rq = in_method r" "rq_body rq = []"
    by (simp_all add: t(2) readRequest_def Let_def hdr_values_Set hdr_Set_def hdr_values_def map_of_hdr_put)
  with HttpDo t(1) show ?thesis by auto
qed (use ev in auto)



end
