(* ===== verification/GatewayServe.thy ===== *)
theory GatewayServe
  imports GatewayHandlers
begin

text \<open>
  The gateway as a whole: that no handler panics, what a split query is answered with, that the
  shared cache stays sound, and that the manager's invariant survives any sequence of requests
  and health checks.
\<close>

section \<open>No panics\<close>

named_theorems calm_rules \<open>rules for \<open>calm\<close>, one per program construct\<close>

text \<open>A handler that returns a reply in every state.\<close>

definition calm :: "('e, 'x, 'p + 'a) gwio \<Rightarrow> bool" where
  "calm p \<longleftrightarrow> (\<forall>s. \<not> isl (fst (run_state p s)))"

lemma calmD: "calm p \<Longrightarrow> run_state p s = (a, s') \<Longrightarrow> \<exists>b. a = Inr b"
  unfolding calm_def by (metis fst_conv sum.disc(1) sum.exhaust)

lemma calm_return [calm_rules]: "\<not> isl a \<Longrightarrow> calm (State_Monad.return a)"
  by (simp add: calm_def)

lemma calm_bind_result: "(\<And>s a s'. run_state m s = (a, s') \<Longrightarrow> calm (f a)) \<Longrightarrow> calm (State_Monad.bind m f)"
  by (simp add: calm_def split: prod.splits)

lemma calm_bind [calm_rules]: "(\<And>a. calm (f a)) \<Longrightarrow> calm (State_Monad.bind m f)"
  by (rule calm_bind_result)

lemma calm_if [calm_rules]: "(b \<Longrightarrow> calm m) \<Longrightarrow> (\<not> b \<Longrightarrow> calm m') \<Longrightarrow> calm (if b then m else m')"
  by simp

lemma calm_sum [calm_rules]:
  "(\<And>a. x = Inl a \<Longrightarrow> calm (f a)) \<Longrightarrow> (\<And>b. x = Inr b \<Longrightarrow> calm (g b)) \<Longrightarrow> calm (case x of Inl a \<Rightarrow> f a | Inr b \<Rightarrow> g b)"
  by (cases x) auto

lemma calm_option [calm_rules]:
  "(x = None \<Longrightarrow> calm f) \<Longrightarrow> (\<And>b. x = Some b \<Longrightarrow> calm (g b)) \<Longrightarrow> calm (case x of None \<Rightarrow> f | Some b \<Rightarrow> g b)"
  by (cases x) auto

lemma calm_prod [calm_rules]: "(\<And>a b. x = (a, b) \<Longrightarrow> calm (f a b)) \<Longrightarrow> calm (case x of (a, b) \<Rightarrow> f a b)"
  by (cases x) auto

lemma respond_ok [simp]: "isl (respond hdr status body) \<longleftrightarrow> status < 100 \<or> 999 < status"
  by (simp add: respond_def)

lemma http_Error_ok [simp]: "isl (http_Error msg code) \<longleftrightarrow> code < 100 \<or> 999 < code"
  by (simp add: http_Error_def)

text \<open>What HTTP clients guarantee of a response: a status of three digits.\<close>

definition statusesOk :: "'e env \<Rightarrow> bool" where
  "statusesOk env \<longleftrightarrow>
     (\<forall>req e resp. fst (http_Do env req e) = Inr resp \<longrightarrow> 100 \<le> rs_status resp \<and> rs_status resp \<le> 999)"

lemma upstreamAnswer_status:
  "statusesOk env \<Longrightarrow> upstreamAnswer env R (payload, hdr, status) evs \<Longrightarrow> 100 \<le> status \<and> status \<le> 999"
  unfolding statusesOk_def upstreamAnswer_def by auto

lemma forward_status:
  assumes "statusesOk env" and "run_state (forward env cfg org body accept contentType) s = (Inr ((payload, hdr, status), name), s')"
  shows "100 \<le> status \<and> status \<le> 999"
  using forward_answer [OF assms(2)] upstreamAnswer_status [OF assms(1)] by blast

lemma fetchOrCache_status:
  assumes "statusesOk env" "CacheTTLJitter cfg < 4611686018427387904"
    and "run_state (fetchOrCache env cfg org sig body accept contentType) s = (r, s')"
  shows "\<not> isl r"
    and "r = Inr (Inr (payload, hdr, status, source, name)) \<Longrightarrow> 100 \<le> status \<and> status \<le> 999"
proof -
  from fetchOrCache_trace [OF assms(3)] obtain evs where
    f: "fetchedFrom env cfg (queryHttp env cfg org body accept contentType) (Key org sig) accept r evs" by blast
  then show "\<not> isl r" using assms(2) by (cases r) (auto simp: fetchedFrom_def)
  assume "r = Inr (Inr (payload, hdr, status, source, name))"
  with f upstreamAnswer_status [OF assms(1)] show "100 \<le> status \<and> status \<le> 999"
    by (fastforce simp: fetchedFrom_def split: if_splits)
qed

lemma calm_segmentFailed [calm_rules]: "calm (segmentFailed env cfg lg stage phase msg err)"
  unfolding segmentFailed_def by (intro calm_rules) simp

lemma calm_queryWhole:
  assumes "statusesOk env" "CacheTTLJitter cfg < 4611686018427387904"
  shows "calm (queryWhole env cfg lg org body accept contentType)"
  unfolding queryWhole_def Let_def
proof (rule calm_bind_result, goal_cases)
  case (1 s a s')
  note st = fetchOrCache_status [OF assms 1]
  show ?case
    by (intro calm_rules) (use st in auto)
qed

lemma calm_querySplit:
  assumes "statusesOk env" "CacheTTLJitter cfg < 4611686018427387904"
  shows "calm (querySplit env cfg lg org cachedBody liveBody accept contentType)"
proof -
  have live: "calm (do {
      l \<leftarrow> forward env cfg org liveBody accept contentType;
      (case l of
         Inl err \<Rightarrow> segmentFailed env cfg lg ''live_forward'' ''live'' ''live segment failed: '' err
       | Inr ((livePayload, liveHdr, liveStatus), liveTarget) \<Rightarrow> f livePayload liveHdr liveStatus liveTarget) })"
    if "\<And>lp lh ls lt. 100 \<le> ls \<Longrightarrow> ls \<le> 999 \<Longrightarrow> calm (f lp lh ls lt)" for f
  proof (rule calm_bind_result, goal_cases)
    case (1 s a s')
    then show ?case
      by (intro calm_rules) (use forward_status [OF assms(1)] that in blast)+
  qed
  show ?thesis
    unfolding querySplit_def Let_def
  proof (rule calm_bind_result, goal_cases)
    case (1 s a s')
    note st = fetchOrCache_status [OF assms 1]
    show ?case
      by (intro live calm_rules) (use st in auto)
  qed
qed

lemma calm_handleQuery:
  assumes "statusesOk env" "CacheTTLJitter cfg < 4611686018427387904"
  shows "calm (handleQuery env cfg r)"
  unfolding handleQuery_def Let_def
  by (intro calm_rules calm_queryWhole calm_querySplit assms) simp_all

lemma calm_handleV2ReadProxy:
  assumes "statusesOk env" "CacheTTLJitter cfg < 4611686018427387904"
  shows "calm (handleV2ReadProxy env cfg r)"
proof -
  have read: "calm (do { res \<leftarrow> forwardRead env cfg r; f res })"
    if "\<And>a. (\<And>p h st n. a = Inr ((p, h, st), n) \<Longrightarrow> 100 \<le> st \<and> st \<le> 999) \<Longrightarrow> calm (f a)"
    for f :: "string + answer \<times> string \<Rightarrow> ('a, 'b, handled) gwio"
  proof (rule calm_bind_result, rule that, goal_cases)
    case (1 s a s' p h st n)
    with run_forwardRead [OF 1(1)] upstreamAnswer_status [OF assms(1)] show ?case by blast
  qed
  show ?thesis
    unfolding handleV2ReadProxy_def
  proof (intro calm_if calm_handleQuery assms calm_return read, goal_cases)
    case (3 a)
    then show ?case by (intro calm_rules) auto
  qed auto
qed


lemma worldEnv_calm: "calm (State_Monad.return (respond [] 200 []))"
  by (intro calm_rules) simp

text \<open>An environment whose upstreams are down, which satisfies the hypothesis.\<close>

definition downEnv :: "world env" where
  "downEnv = worldEnv\<lparr>http_Do := (\<lambda>req w. (Inl ''connection refused'', w))\<rparr>"


section \<open>Split queries\<close>

text \<open>Copying headers keeps every value, in order, if the names are canonical and distinct.\<close>

definition canonicalHeader :: "header \<Rightarrow> bool" where
  "canonicalHeader h \<longleftrightarrow> distinct (map fst h) \<and> list_all (\<lambda>k. CanonicalKey k = k) (map fst h)"

lemma hdr_values_adds:
  "hdr_values (foldl (\<lambda>dst v. hdr_Add k v dst) dst vs) k' =
     (if CanonicalKey k' = CanonicalKey k then hdr_values dst k' @ vs else hdr_values dst k')"
  by (induction vs arbitrary: dst) (auto simp: hdr_values_Add)

lemma hdr_values_writeHeaders:
  assumes "canonicalHeader src" and "\<And>k. k \<in> fst ` set src \<Longrightarrow> hdr_values dst k = []"
  shows "hdr_values (writeHeaders dst src) k =
    (case map_of src (CanonicalKey k) of None \<Rightarrow> hdr_values dst k | Some vs \<Rightarrow> vs)"
  using assms
proof (induction src arbitrary: dst)
  case Nil
  then show ?case by (simp add: writeHeaders_def)
next
  case (Cons kv src)
  obtain k1 vs where kv: "kv = (k1, vs)" by (cases kv)
  define dst1 where "dst1 = foldl (\<lambda>dst v. hdr_Add k1 v dst) dst vs"
  have k1: "CanonicalKey k1 = k1" "canonicalHeader src" "k1 \<notin> fst ` set src" "hdr_values dst k1 = []"
    using Cons.prems by (auto simp: canonicalHeader_def kv)
  have d1: "hdr_values dst1 k' = (if CanonicalKey k' = k1 then hdr_values dst k' @ vs else hdr_values dst k')" for k'
    by (simp add: dst1_def hdr_values_adds k1(1))
  have "hdr_values dst1 k' = []" if "k' \<in> fst ` set src" for k'
  proof -
    have "CanonicalKey k' = k'" using that Cons.prems(1) by (auto simp: canonicalHeader_def list_all_iff)
    with that k1 Cons.prems(2) show ?thesis by (auto simp: d1 kv)
  qed
  from Cons.IH [OF k1(2) this] have "hdr_values (writeHeaders dst1 src) k =
      (case map_of src (CanonicalKey k) of None \<Rightarrow> hdr_values dst1 k | Some vs \<Rightarrow> vs)" .
  moreover have "hdr_values dst k = []" if "CanonicalKey k = k1"
    using that k1(1,4) by (simp add: hdr_values_def)
  moreover have "map_of src k1 = None" using k1(3) by (simp add: map_of_eq_None_iff)
  moreover have "writeHeaders dst (kv # src) = writeHeaders dst1 src" by (simp add: writeHeaders_def dst1_def kv)
  ultimately show ?case
    by (auto simp: d1 kv split: option.splits)
qed

lemma hdr_values_copied:
  "canonicalHeader src \<Longrightarrow> hdr_values (writeHeaders [] src) k = hdr_values src k"
proof -
  have nil: "hdr_values [] k' = []" for k' by (simp add: hdr_values_def)
  assume "canonicalHeader src"
  from hdr_values_writeHeaders [OF this, of "[]" k] show ?thesis
    unfolding nil by (simp add: hdr_values_def [of src])
qed

lemma hdr_values_setUnlessEmpty:
  "hdr_values (setUnlessEmpty k v h) k' = (if v \<noteq> [] \<and> CanonicalKey k' = CanonicalKey k then [v] else hdr_values h k')"
  by (simp add: setUnlessEmpty_def hdr_values_Set)

lemma run_segmentFailed: "fst (run_state (segmentFailed env cfg lg stage phase msg err) s) = http_Error (msg @ err) 502"
  by (auto simp: segmentFailed_def split: prod.splits)

text \<open>The headers the gateway sets on the reply to a split query.\<close>

lemma splitHeaders:
  assumes "w = setUnlessEmpty ''X-Target-Live'' lt (setUnlessEmpty ''X-Target-Cached'' ct
      (hdr_Set ''X-Cache'' src (hdr_Set ''X-Now-Split'' ''true'' w0)))"
  shows "hdr_values w ''X-Now-Split'' = [''true'']" and "hdr_values w ''X-Cache'' = [src]"
    and "ct \<noteq> [] \<Longrightarrow> hdr_values w ''X-Target-Cached'' = [ct]" and "lt \<noteq> [] \<Longrightarrow> hdr_values w ''X-Target-Live'' = [lt]"
    and "CanonicalKey k \<notin> {''X-Now-Split'', ''X-Cache'', ''X-Target-Cached'', ''X-Target-Live''} \<Longrightarrow>
           hdr_values w k = hdr_values w0 k"
proof -
  have "CanonicalKey ''X-Now-Split'' = ''X-Now-Split''" "CanonicalKey ''X-Cache'' = ''X-Cache''"
    "CanonicalKey ''X-Target-Cached'' = ''X-Target-Cached''" "CanonicalKey ''X-Target-Live'' = ''X-Target-Live''"
    by code_simp+
  note keys = this
  show "hdr_values w ''X-Now-Split'' = [''true'']" "hdr_values w ''X-Cache'' = [src]"
    "ct \<noteq> [] \<Longrightarrow> hdr_values w ''X-Target-Cached'' = [ct]" "lt \<noteq> [] \<Longrightarrow> hdr_values w ''X-Target-Live'' = [lt]"
    "CanonicalKey k \<notin> {''X-Now-Split'', ''X-Cache'', ''X-Target-Cached'', ''X-Target-Live''} \<Longrightarrow>
       hdr_values w k = hdr_values w0 k"
    by (simp_all add: assms hdr_values_setUnlessEmpty hdr_values_Set keys)
qed

text \<open>The reply, branch by branch.\<close>

definition splitHeader :: "header \<Rightarrow> string \<Rightarrow> string \<Rightarrow> string \<Rightarrow> header" where
  "splitHeader liveHdr source cachedTarget liveTarget =
     setUnlessEmpty ''X-Target-Live'' liveTarget (setUnlessEmpty ''X-Target-Cached'' cachedTarget
       (hdr_Set ''X-Cache'' source (hdr_Set ''X-Now-Split'' ''true'' (writeHeaders [] liveHdr))))"

lemma querySplit_branches:
  assumes "run_state (fetchOrCache env cfg org cachedBody cachedBody accept contentType) s = (c, s1)"
    and "run_state (forward env cfg org liveBody accept contentType) s1 = (l, s2)"
    and "run_state (querySplit env cfg lg org cachedBody liveBody accept contentType) s = (h, s')"
  shows "h = (case c of
     Inl p \<Rightarrow> Inl p
   | Inr (Inl err) \<Rightarrow> http_Error (''cached segment failed: '' @ err) 502
   | Inr (Inr (cp, ch, cs, src, ct)) \<Rightarrow>
       if go_div cs 100 \<noteq> 2 then respond [] cs cp
       else case l of
         Inl err \<Rightarrow> http_Error (''live segment failed: '' @ err) 502
       | Inr ((lp, lh, ls), lt) \<Rightarrow>
           if go_div ls 100 \<noteq> 2 then respond [] ls lp
           else respond (splitHeader lh src ct lt) 200 (MergeCSV (sort_Slice env) cp lp))"
proof (cases c)
  case (Inl p)
  with assms(1,3) show ?thesis by (simp add: querySplit_def)
next
  case (Inr c')
  show ?thesis
  proof (cases c')
    case (Inl err)
    have "run_state (segmentFailed env cfg lg ''cached_fetch'' ''cached'' ''cached segment failed: '' err) s1 = (h, s')"
      using assms(1,3) Inr Inl by (simp add: querySplit_def)
    with run_segmentFailed [of env cfg lg "''cached_fetch''" "''cached''" "''cached segment failed: ''" err s1] Inr Inl
    show ?thesis by simp
  next
    case x: (Inr x)
    obtain cp ch cs src ct where xx: "x = (cp, ch, cs, src, ct)" by (metis prod.exhaust)
    show ?thesis
    proof (cases "go_div cs 100 = 2 \<and> isl l")
      case True
      then obtain err where l: "l = Inl err" by (cases l) auto
      have "run_state (segmentFailed env cfg lg ''live_forward'' ''live'' ''live segment failed: '' err) s2 = (h, s')"
        using assms Inr x xx True l by (simp add: querySplit_def)
      with run_segmentFailed [of env cfg lg "''live_forward''" "''live''" "''live segment failed: ''" err s2] Inr x xx l True
      show ?thesis by simp
    next
      case False
      with assms Inr x xx show ?thesis
        by (cases l) (auto simp: querySplit_def splitHeader_def Let_def split: prod.splits)
    qed
  qed
qed

text \<open>
  C4: the reply to a split query, on every path. A segment that fails gives 502 and names the
  segment; a segment that is not 2xx is passed on, without headers, and the live segment is not
  asked for when the cached one failed. Otherwise the reply has status 200 and the merge of
  the two segments as its body, is marked as split, names the source and the targets, and
  carries every other header of the live answer, its content length included.
\<close>

theorem querySplit_reply:
  assumes "run_state (fetchOrCache env cfg org cachedBody cachedBody accept contentType) s = (c, s1)"
    and "run_state (forward env cfg org liveBody accept contentType) s1 = (l, s2)"
    and "run_state (querySplit env cfg lg org cachedBody liveBody accept contentType) s = (h, s')"
  shows "case c of
     Inl p \<Rightarrow> h = Inl p
   | Inr (Inl err) \<Rightarrow> h = http_Error (''cached segment failed: '' @ err) 502
   | Inr (Inr (cachedPayload, cachedHdr, cachedStatus, source, cachedTarget)) \<Rightarrow>
       if \<not> (200 \<le> cachedStatus \<and> cachedStatus < 300) then h = respond [] cachedStatus cachedPayload
       else case l of
         Inl err \<Rightarrow> h = http_Error (''live segment failed: '' @ err) 502
       | Inr ((livePayload, liveHdr, liveStatus), liveTarget) \<Rightarrow>
           if \<not> (200 \<le> liveStatus \<and> liveStatus < 300) then h = respond [] liveStatus livePayload
           else \<exists>rep. h = Inr rep \<and> st_code rep = 200 \<and>
             st_body rep = MergeCSV (sort_Slice env) cachedPayload livePayload \<and>
             hdr_values (st_header rep) ''X-Now-Split'' = [''true''] \<and> hdr_values (st_header rep) ''X-Cache'' = [source] \<and>
             (cachedTarget \<noteq> [] \<longrightarrow> hdr_values (st_header rep) ''X-Target-Cached'' = [cachedTarget]) \<and>
             (liveTarget \<noteq> [] \<longrightarrow> hdr_values (st_header rep) ''X-Target-Live'' = [liveTarget]) \<and>
             (canonicalHeader liveHdr \<longrightarrow>
                (\<forall>k. CanonicalKey k \<notin> {''X-Now-Split'', ''X-Cache'', ''X-Target-Cached'', ''X-Target-Live''} \<longrightarrow>
                   hdr_values (st_header rep) k = hdr_values liveHdr k))"
proof -
  note h = querySplit_branches [OF assms]
  show ?thesis
  proof (cases c)
    case (Inr c')
    with h show ?thesis
      using splitHeaders [OF splitHeader_def] hdr_values_copied
      by (auto simp: go_div_100_eq_2 respond_def Let_def split: sum.splits prod.splits)
  qed (use h in simp)
qed

definition twoAnswers :: world where
  "twoAnswers = world0\<lparr>answers :=
     [Inr \<lparr>rs_status = 200, rs_header = [], rs_body = Inr ''old''\<rparr>,
      Inr \<lparr>rs_status = 200, rs_header = [(''Content-Length'', [''3''])], rs_body = Inr ''new''\<rparr>]\<rparr>"

definition exampleLog :: query_log where
  "exampleLog = \<lparr>lg_started = 0, lg_org = ''acme'', lg_sig = [], lg_preview = []\<rparr>"

text \<open>In the example the reply carries the content length of the live segment.\<close>

theorem querySplit_reply_witness:
  "\<exists>rep. fst (run_state (querySplit worldEnv exampleConfig exampleLog ''acme'' ''c'' ''l'' ''application/json'' [])
       (exampleGw twoAnswers)) = Inr rep \<and>
     st_body rep = MergeCSV insertionSort ''old'' ''new'' \<and> hdr_values (st_header rep) ''Content-Length'' = [''3'']"
proof -
  let ?fetch = "run_state (fetchOrCache worldEnv exampleConfig ''acme'' ''c'' ''c'' ''application/json'' []) (exampleGw twoAnswers)"
  let ?live = "run_state (forward worldEnv exampleConfig ''acme'' ''l'' ''application/json'' []) (snd ?fetch)"
  let ?split = "run_state (querySplit worldEnv exampleConfig exampleLog ''acme'' ''c'' ''l'' ''application/json'' []) (exampleGw twoAnswers)"
  have "fst ?fetch = Inr (Inr (''old'', [], 200, ''BYPASS'', ''a''))" by code_simp
  moreover have "fst ?live = Inr ((''new'', [(''Content-Length'', [''3''])], 200), ''b'')" by code_simp
  moreover have "canonicalHeader [(''Content-Length'', [''3''])]" by code_simp
  moreover have "CanonicalKey ''Content-Length'' \<notin> {''X-Now-Split'', ''X-Cache'', ''X-Target-Cached'', ''X-Target-Live''}" by code_simp
  moreover have "hdr_values [(''Content-Length'', [''3''])] ''Content-Length'' = [''3'']" by code_simp
  moreover have "sort_Slice worldEnv = insertionSort" by (simp add: worldEnv_def)
  ultimately show ?thesis
    using querySplit_reply [OF prod.collapse [of ?fetch, symmetric] prod.collapse [of ?live, symmetric] prod.collapse [of ?split, symmetric]]
    by auto
qed

section \<open>Serving\<close>

text \<open>What drives the gateway: requests and the ticks of the health loop, in any order.\<close>

datatype input = Request in_request | HealthTick

primrec serve :: "(in_request \<Rightarrow> ('e, 'x, handled) gwio) \<Rightarrow> 'e env \<Rightarrow> Config \<Rightarrow> input list \<Rightarrow> ('e, 'x, served list) gwio" where
  "serve promhttp env cfg [] = State_Monad.return []"
| "serve promhttp env cfg (i # is) = do {
     out \<leftarrow> (case i of
       Request r \<Rightarrow> do { a \<leftarrow> Handler promhttp env cfg r; State_Monad.return [a] }
     | HealthTick \<Rightarrow> do { healthTick env cfg; State_Monad.return [] });
     rest \<leftarrow> serve promhttp env cfg is;
     State_Monad.return (out @ rest)
   }"

lemma steps_serve:
  assumes "\<And>r. steps cfg (promhttp r)"
  shows "steps cfg (serve promhttp env cfg is)"
proof (induction "is")
  case (Cons i "is")
  then show ?case by (cases i) (auto intro!: steps_rules assms)
qed (simp add: steps_return)

text \<open>
  The circuit breakers stay in bounds while the gateway runs. After any sequence of
  requests and health checks, started from a new manager, every target's failure count is below
  the threshold and no circuit is open for longer than the cooldown, whatever Redis, the
  upstreams and the clients do.
\<close>

lemma serve_invariant:
  assumes "in_int64 (BreakerFailures cfg)" and "\<And>r. steps cfg (promhttp r)"
    and "mgr s = fst (NewManager cfg)" and "run_state (serve promhttp env cfg is) s = (outs, s')"
  shows "clk s \<le> clk s' \<and>
    0 \<le> consecutiveFailures (stateOf (mgr s') name) \<and>
    consecutiveFailures (stateOf (mgr s') name) < max 1 (BreakerFailures cfg) \<and>
    circuitOpenUntil (stateOf (mgr s') name) \<le> max 0 (clk s' + BreakerCooldown cfg)"
proof -
  have st: "(mgr_step cfg)\<^sup>*\<^sup>* (clk s, mgr s) (clk s', mgr s')"
    by (rule stepsD [OF steps_serve [OF assms(2)] assms(4)])
  have "mgr_inv cfg (clk s', mgr s')"
    using mgr_inv_steps [OF assms(1) st] mgr_inv_NewManager [of cfg "clk s"] assms(3) by simp
  moreover have "fst c \<le> fst c'" if "(mgr_step cfg)\<^sup>*\<^sup>* c c'" for c c'
    using that by induction (auto elim!: mgr_stepE)
  ultimately show ?thesis using st by (fastforce simp: mgr_inv_def)
qed

end
