(* ===== verification/CacheSound.thy ===== *)
theory CacheSound
  imports GatewayServe
begin

text \<open>
  The shared cache stays sound: whatever the gateways store is what an upstream answered to the
  query of that key. The lemmas are proved from the contract of Redis, the locale
  \<open>redis_rely\<close>, for any number of other clients that keep to the same rule.
\<close>

section \<open>Programs that keep the cache sound\<close>

context redis_rely
begin

abbreviation sound :: "('e, 'x) host_scheme \<Rightarrow> bool" where
  "sound \<equiv> cacheSound entries Good"

lemma keeps_basic [preserves_rules]:
  "preserves sound (emit ev)" "preserves sound (time_Now env)" "preserves sound (time_Since env t)"
  unfolding preserves_def by (rule sound_emit sound_time_Now sound_time_Since)+

lemma keeps_metrics [preserves_rules]:
  "preserves sound (IncCacheResult r)" "preserves sound (ObserveUpstream t st d)"
  unfolding metrics_defs by (rule keeps_basic)+

lemma keeps_mgr [preserves_rules]: "preserves sound get_mgr" "preserves sound (modify_mgr f)"
  by (simp_all add: preserves_def triple_def cacheSound_def)

lemma keeps_client_Do [preserves_rules]: "preserves sound (client_Do env req)"
  unfolding client_Do_def
  by (intro preserves_rules) (unfold preserves_def, intro sound_external http_entries)

lemma keeps_manager [preserves_rules]:
  "preserves sound (PickTarget env cfg ex)" "preserves sound (RecordSuccess name)" "preserves sound (RecordFailure env cfg name)"
  unfolding PickTarget_def RecordSuccess_def RecordFailure_def Let_def by (intro preserves_rules)+

lemma keeps_forwardToTarget [preserves_rules]:
  "preserves sound (forwardToTarget env org body accept contentType t)" "preserves sound (forwardReadToTarget env r t)"
  unfolding forwardToTarget_def forwardReadToTarget_def exchange_def Let_def by (intro preserves_rules)+

lemma keeps_tryTargets [preserves_rules]:
  assumes "\<And>t. preserves sound (attempt t)"
  shows "preserves sound (tryTargets n env cfg attempts kind logAttrs attempt tried lastErr)"
proof (induction n arbitrary: tried lastErr)
  case (Suc n)
  have "preserves sound (tryTarget n env cfg attempts kind logAttrs attempt t)" for t
    unfolding tryTarget_def Let_def by (intro preserves_rules assms)
  with Suc show ?case
    unfolding tryTargets.simps by (intro preserves_rules)
qed (simp add: preserves_return)

lemma keeps_forward [preserves_rules]:
  "preserves sound (forward env cfg org body accept contentType)" "preserves sound (forwardRead env cfg r)"
  unfolding forward_def forwardRead_def exhausted_def Let_def by (intro preserves_rules)+

lemma keeps_hitAs [preserves_rules]: "preserves sound (hitAs src accept cached)"
  unfolding hitAs_def by (intro preserves_rules)

lemma fetchLocked_keeps:
  assumes live: "\<And>payload hdr status evs. upstreamAnswer env (queryHttp env cfg org body accept contentType) (payload, hdr, status) evs \<Longrightarrow>
      200 \<le> status \<Longrightarrow> status < 300 \<Longrightarrow> (key, payload) \<in> Good"
    and s: "sound s" and run: "run_state (fetchLocked env cfg key org body accept contentType) s = (r, s')"
  shows "sound s'"
proof -
  obtain f s1 where f: "run_state (forward env cfg org body accept contentType) s = (f, s1)"
    by (cases "run_state (forward env cfg org body accept contentType) s")
  have s1: "sound s1" by (rule preservesD [OF keeps_forward(1) s f])
  show ?thesis
  proof (cases f)
    case (Inl err)
    with run f s1 show ?thesis by (simp add: fetchLocked_def)
  next
    case (Inr x)
    obtain payload hdr status name where x: "x = ((payload, hdr, status), name)" by (metis prod.exhaust)
    have "preserves sound (Set env cfg key payload)" if "go_div status 100 = 2"
      using live [of payload hdr status] run_forward [OF f] Inr x that
      unfolding preserves_def go_div_100_eq_2 by (intro sound_Set) blast
    then have "preserves sound (do {
        stored \<leftarrow> (if go_div status 100 = 2 then Set env cfg key payload else State_Monad.return (Inr None));
        (case stored of
           Inl p \<Rightarrow> State_Monad.return (Inl p)
         | Inr _ \<Rightarrow> do { IncCacheResult ''MISS''; State_Monad.return (Inr (Inr (payload, hdr, status, ''MISS'', name))) }) })"
      by (intro preserves_rules)
    from preservesD [OF this s1] run f Inr x show ?thesis by (simp add: fetchLocked_def)
  qed
qed

text \<open>A fetch keeps the cache sound and answers with a good value, if the upstreams do.\<close>

lemma fetchOrCache_keeps:
  assumes up: "\<And>accept req e resp payload. queryHttp env cfg org body accept contentType req \<Longrightarrow>
      fst (http_Do env req e) = Inr resp \<Longrightarrow> 200 \<le> rs_status resp \<Longrightarrow> rs_status resp < 300 \<Longrightarrow>
      rs_body resp = Inr payload \<Longrightarrow> (Key org body, payload) \<in> Good"
    and s: "sound s" and run: "run_state (fetchOrCache env cfg org body body accept contentType) s = (r, s')"
  shows "sound s' \<and> (\<forall>payload hdr status source name.
     r = Inr (Inr (payload, hdr, status, source, name)) \<longrightarrow> 200 \<le> status \<longrightarrow> status < 300 \<longrightarrow> (Key org body, payload) \<in> Good)"
proof -
  have live: "(Key org body, payload) \<in> Good"
    if "upstreamAnswer env (queryHttp env cfg org body accept contentType) (payload, hdr, status) evs" "200 \<le> status" "status < 300"
    for payload hdr status evs
    using that up by (auto simp: upstreamAnswer_def)
  have as: "sound s2 \<and> (\<forall>payload hdr status source name. a = Inr (Inr (payload, hdr, status, source, name)) \<longrightarrow>
      200 \<le> status \<longrightarrow> status < 300 \<longrightarrow> (Key org body, payload) \<in> Good)"
    if "sound s1" "run_state (forwardAs src env cfg org body accept contentType) s1 = (a, s2)" for src s1 a s2
  proof -
    have "preserves sound (forwardAs src env cfg org body accept contentType)"
      unfolding forwardAs_def by (intro preserves_rules)
    from preservesD [OF this that] run_forwardAs [OF that(2)] live show ?thesis
      by (fastforce simp: fetchedLive_def)
  qed
  have get: "sound s1 \<and> (\<forall>v. g = Inr v \<longrightarrow> (Key org body, v) \<in> Good)"
    if "run_state (Get env (Key org body)) s = (g, s1)" for g s1
    using tripleD [OF sound_Get [OF Key_not_lock] s that [unfolded Get_def]] .
  from run show ?thesis
  proof (cases rule: fetchOrCache_branches)
    case bypass
    from as [OF s bypass(2)] show ?thesis .
  next
    case (hit cached s1)
    from get [OF hit(2)] run_hitAs [OF hit(3)] preservesD [OF keeps_hitAs _ hit(3)] show ?thesis by simp
  next
    case (redis_error msg)
    from get [OF redis_error(2)] redis_error(3) show ?thesis by simp
  next
    case (lock_error s1 err lockKey)
    from tripleD [OF sound_AcquireLock _ lock_error(3)] get [OF lock_error(2)] lock_error(4) show ?thesis by simp
  next
    case (waited s1 s2 s3 lockKey cached)
    from tripleD [OF sound_AcquireLock _ waited(3)] get [OF waited(2)] have "sound s2" by simp
    from tripleD [OF sound_WaitForLock [OF Key_not_lock] this waited(4)] run_hitAs [OF waited(5)]
      preservesD [OF keeps_hitAs _ waited(5)] show ?thesis by simp
  next
    case (race s1 s2 s3 lockKey err)
    from tripleD [OF sound_AcquireLock _ race(3)] get [OF race(2)] have "sound s2" by simp
    from tripleD [OF sound_WaitForLock [OF Key_not_lock] this race(4)] have "sound s3" by simp
    from as [OF this race(5)] show ?thesis .
  next
    case (locked s1 s2 s3 lockKey err)
    from tripleD [OF sound_AcquireLock _ locked(3)] get [OF locked(2)] have s2: "sound s2" by simp
    have s3: "sound s3" by (rule fetchLocked_keeps [OF live s2 locked(4)])
    from tripleD [OF sound_ReleaseLock s3 locked(5)] run_fetchLocked [OF locked(4)] live show ?thesis
      by (fastforce simp: fetchedLive_def)
  qed
qed

end

section \<open>Claims\<close>

text \<open>
  C2: what the cache serves. Let \<open>Good\<close> hold the pairs of a key and a payload that an upstream
  gave with a 2xx status as its answer to the query of that key, and let Redis return only what
  was stored. If every entry of the cache is good when a query arrives, every entry is good
  when the fetch is over, and a 2xx answer, cached or not, is a good one for this organisation
  and this query; the other gateways may store good entries at any time.
\<close>

theorem fetchOrCache_sound:
  assumes "redis_rely env entries Good"
    and "\<And>accept req e resp payload. queryHttp env cfg org body accept contentType req \<Longrightarrow>
      fst (http_Do env req e) = Inr resp \<Longrightarrow> 200 \<le> rs_status resp \<Longrightarrow> rs_status resp < 300 \<Longrightarrow>
      rs_body resp = Inr payload \<Longrightarrow> (Key org body, payload) \<in> Good"
    and "cacheSound entries Good s"
    and "run_state (fetchOrCache env cfg org body body accept contentType) s = (r, s')"
  shows "cacheSound entries Good s' \<and> (\<forall>payload hdr status source name.
     r = Inr (Inr (payload, hdr, status, source, name)) \<longrightarrow> 200 \<le> status \<longrightarrow> status < 300 \<longrightarrow> (Key org body, payload) \<in> Good)"
  by (rule redis_rely.fetchOrCache_keeps [OF assms(1)]) (use assms in \<open>blast+\<close>)

text \<open>Upstreams that always answer the same rows, in front of the concrete Redis.\<close>

definition rowsEnv :: "world env" where
  "rowsEnv = worldEnv\<lparr>http_Do := (\<lambda>req w. (Inr \<lparr>rs_status = 200, rs_header = [], rs_body = Inr ''rows''\<rparr>, w))\<rparr>"

interpretation rows_redis: redis_rely rowsEnv worldEntries Good for Good
  using world_redis.redis_rely_axioms [where Good = Good] by (simp add: redis_rely_def rowsEnv_def)

theorem fetchOrCache_sound_witness:
  "{v. (Key ''acme'' ''q'', v) \<in>
     worldEntries (ext (snd (run_state (fetchOrCache rowsEnv exampleConfig ''acme'' ''q'' ''q'' [] []) (exampleGw world0))))} \<subseteq>
   {''rows''}"
proof -
  define Good where "Good = {(Key org q, ''rows'') | org q. True}"
  obtain r s' where r: "run_state (fetchOrCache rowsEnv exampleConfig ''acme'' ''q'' ''q'' [] []) (exampleGw world0) = (r, s')"
    by (cases "run_state (fetchOrCache rowsEnv exampleConfig ''acme'' ''q'' ''q'' [] []) (exampleGw world0)")
  have "cacheSound worldEntries Good s'"
  proof (rule conjunct1 [OF fetchOrCache_sound [OF rows_redis.redis_rely_axioms _ _ r]])
    show "cacheSound worldEntries Good (exampleGw world0)"
      by (simp add: cacheSound_def worldEntries_def world0_def)
  qed (auto simp: rowsEnv_def Good_def)
  then show ?thesis
    using Key_not_lock by (auto simp: r cacheSound_def Good_def)
qed

end
