(* ===== verification/Stampede.thy ===== *)
theory Stampede
  imports CacheSound
begin

text \<open>
  Many requests for one cold key at once. The commands one request sends to Redis and upstream
  follow a small automaton (\<open>reqNext\<close>), which \<open>fetchOrCache\<close> is proved to refine; the system is any
  interleaving of such automata over one Redis, with time passing and entries expiring. The
  lock admits one request at a time as long as no holder outlives its expiry; if one does, the
  unconditional release of the lock lets several in.
\<close>

section \<open>The automaton of a request\<close>

datatype rpc = RStart | RMissed | RFetching | RStored | RWaiting | RRacing | RDone

text \<open>Events that are not part of the protocol.\<close>

fun silent :: "event \<Rightarrow> bool" where
  "silent (CacheResult r) = True"
| "silent ev = observation ev"

fun reqCommand :: "string \<Rightarrow> rpc \<Rightarrow> event \<Rightarrow> rpc option" where
  "reqCommand key RStart (RedisGet k r) =
     (if k \<noteq> key then None else Some (if r = Inl RedisNil then RMissed else RDone))"
| "reqCommand key RMissed (RedisSetNX k tok ttl r) =
     (if k \<noteq> lockKeyOf key then None
      else Some (case r of Inl err \<Rightarrow> RDone | Inr True \<Rightarrow> RFetching | Inr False \<Rightarrow> RWaiting))"
| "reqCommand key RWaiting (RedisGet k r) =
     (if k \<noteq> key then None
      else Some (case r of Inr v \<Rightarrow> RDone | Inl err \<Rightarrow> if err = RedisNil then RWaiting else RRacing))"
| "reqCommand key RWaiting (HttpDo req resp) = Some RRacing"
| "reqCommand key RRacing (HttpDo req resp) = Some RRacing"
| "reqCommand key RFetching (HttpDo req resp) = Some RFetching"
| "reqCommand key RFetching (RedisSet k v ttl e) = (if k \<noteq> key then None else Some RStored)"
| "reqCommand key RFetching (RedisDel k e) = (if k \<noteq> lockKeyOf key then None else Some RDone)"
| "reqCommand key RStored (RedisDel k e) = (if k \<noteq> lockKeyOf key then None else Some RDone)"
| "reqCommand key p ev = None"

definition reqNext :: "string \<Rightarrow> rpc \<Rightarrow> event \<Rightarrow> rpc option" where
  "reqNext key p ev = (if silent ev then Some p else reqCommand key p ev)"

fun reqRun :: "string \<Rightarrow> rpc \<Rightarrow> event list \<Rightarrow> rpc option" where
  "reqRun key p [] = Some p"
| "reqRun key p (ev # evs) = (case reqNext key p ev of None \<Rightarrow> None | Some p' \<Rightarrow> reqRun key p' evs)"

lemma reqRun_append: "reqRun key p (evs @ evs') = (case reqRun key p evs of None \<Rightarrow> None | Some p' \<Rightarrow> reqRun key p' evs')"
  by (induction key p evs rule: reqRun.induct) (auto split: option.splits)

lemma reqNext_simps [simp]:
  "reqNext key p (CacheResult r) = Some p" "reqNext key p (RedisLatency op ok d) = Some p"
  "reqNext key p (UpLatency t st d) = Some p" "reqNext key p (Slog l m a) = Some p"
  "reqNext key p (RedisGet k g) = reqCommand key p (RedisGet k g)"
  "reqNext key p (RedisSet k v ttl e) = reqCommand key p (RedisSet k v ttl e)"
  "reqNext key p (RedisSetNX k tok ttl b) = reqCommand key p (RedisSetNX k tok ttl b)"
  "reqNext key p (RedisDel k e) = reqCommand key p (RedisDel k e)"
  "reqNext key p (HttpDo req resp) = reqCommand key p (HttpDo req resp)"
  "reqNext key p (RedisPing e) = None"
  by (simp_all add: reqNext_def)

section \<open>The cached fetch follows the automaton\<close>

text \<open>Events that touch neither the cache nor the lock.\<close>

fun unlocked :: "event \<Rightarrow> bool" where
  "unlocked (HttpDo req resp) = True"
| "unlocked ev = silent ev"

lemma unlocked_upstream: "list_all upstreamOnly evs \<Longrightarrow> list_all unlocked evs"
proof (induction evs)
  case (Cons ev evs)
  then show ?case by (cases ev) auto
qed simp

lemma reqRun_unlocked:
  assumes "list_all unlocked evs"
  shows "p \<in> {RFetching, RStored, RRacing} \<Longrightarrow> p \<noteq> RStored \<or> list_all silent evs \<Longrightarrow> reqRun key p evs = Some p"
    and "\<exists>p \<in> {RWaiting, RRacing}. reqRun key RWaiting evs = Some p"
proof -
  have racing: "reqRun key p es = Some p" if "list_all unlocked es" "p \<in> {RFetching, RRacing}" for p es
    using that by (induction es) (auto elim!: unlocked.elims silent.elims observation.elims)
  show "\<exists>p \<in> {RWaiting, RRacing}. reqRun key RWaiting evs = Some p"
    using assms
  proof (induction evs)
    case (Cons ev evs)
    then show ?case
      using racing [of evs RRacing] by (cases ev) auto
  qed simp
  show "reqRun key p evs = Some p" if "p \<in> {RFetching, RStored, RRacing}" "p \<noteq> RStored \<or> list_all silent evs"
  proof (cases "p = RStored")
    case False
    with that(1) racing [OF assms] show ?thesis by auto
  next
    case True
    with that(2) have "list_all silent evs" by simp
    then show ?thesis by (induction evs) (auto simp: reqNext_def)
  qed
qed

lemma reqRun_waitLoop:
  "waitLoop env key deadline s = (r, s') \<Longrightarrow>
     \<exists>evs. trace s' = trace s @ evs \<and>
       reqRun key RWaiting evs = Some (case r of Inr v \<Rightarrow> RDone | Inl err \<Rightarrow> if err = RedisNil then RWaiting else RRacing)"
proof (induction s rule: waitLoop_induct [where env = env and key = key and deadline = deadline])
  case (1 s)
  obtain now s1 where t: "run_state (time_Now env) s = (now, s1)" by (cases "run_state (time_Now env) s")
  obtain r2 s2 where g: "run_state (GetAs ''get_wait'' env key) s1 = (r2, s2)"
    by (cases "run_state (GetAs ''get_wait'' env key) s1")
  obtain d where d: "trace s2 = trace s @ [RedisGet key r2, RedisLatency ''get_wait'' (getOk r2) d]"
    using run_GetAs(2) [OF g] t by (auto simp: run_time_Now)
  have s1: "trace s1 = trace s" using t by (auto simp: run_time_Now)
  consider (late) "\<not> now < deadline" | (again) "now < deadline" "r2 = Inl RedisNil" | (over) "now < deadline" "r2 \<noteq> Inl RedisNil"
    by blast
  then show ?case
  proof cases
    case late
    with "1.prems" s1 show ?thesis by (auto simp: waitLoop_cases [OF t g])
  next
    case again
    then have "waitLoop env key deadline (snd (run_state (time_Sleep (30 * millisecond)) s2)) = (r, s')"
      using "1.prems" by (simp add: waitLoop_cases [OF t g])
    from "1.IH" [OF t again(1) _ this] g again(2) obtain evs where
      "trace s' = trace s2 @ evs"
      "reqRun key RWaiting evs = Some (case r of Inr v \<Rightarrow> RDone | Inl err \<Rightarrow> if err = RedisNil then RWaiting else RRacing)"
      by auto
    with d again(2) show ?thesis
      by (intro exI [of _ "[RedisGet key r2, RedisLatency ''get_wait'' (getOk r2) d] @ evs"]) simp
  next
    case over
    with "1.prems" have "r = r2" "s' = s2" by (simp_all add: waitLoop_cases [OF t g])
    with d over(2) show ?thesis
      by (intro exI [of _ "[RedisGet key r2, RedisLatency ''get_wait'' (getOk r2) d]"]) (simp split: sum.splits)
  qed
qed

lemma reqRun_WaitForLock:
  assumes "run_state (WaitForLock env cfg key) s = (r, s')"
  shows "\<exists>evs. trace s' = trace s @ evs \<and>
    reqRun key RWaiting evs = Some (case r of Inr v \<Rightarrow> RDone | Inl err \<Rightarrow> if err = RedisNil then RWaiting else RRacing)"
proof -
  obtain now s1 where t: "run_state (time_Now env) s = (now, s1)" by (cases "run_state (time_Now env) s")
  have "waitLoop env key (now + CacheLockWait cfg) s1 = (r, s')" and "trace s1 = trace s"
    using assms t by (auto simp: WaitForLock_def run_time_Now)
  with reqRun_waitLoop [of env key "now + CacheLockWait cfg" s1 r s'] show ?thesis by auto
qed

lemma forwardAs_unlocked:
  assumes "run_state (forwardAs src env cfg org body accept contentType) s = (r, s')"
  shows "\<exists>evs. trace s' = trace s @ evs \<and> list_all unlocked evs"
proof -
  obtain f s1 where f: "run_state (forward env cfg org body accept contentType) s = (f, s1)"
    by (cases "run_state (forward env cfg org body accept contentType) s")
  from run_forward [OF f] obtain evs where e: "trace s1 = trace s @ evs" "list_all upstreamOnly evs" by blast
  have "trace s' = trace s1 \<or> trace s' = trace s1 @ [CacheResult src]"
    using assms f by (auto simp: forwardAs_def metrics_defs split: sum.splits prod.splits)
  with e unlocked_upstream [OF e(2)] show ?thesis
    by (elim disjE) (intro exI [of _ evs] exI [of _ "evs @ [CacheResult src]"], simp)+
qed

lemma reqRun_fetchLocked:
  assumes "run_state (fetchLocked env cfg key org body accept contentType) s = (r, s')"
  shows "\<exists>evs p. trace s' = trace s @ evs \<and> reqRun key RFetching evs = Some p \<and> p \<in> {RFetching, RStored}"
proof -
  obtain f s1 where f: "run_state (forward env cfg org body accept contentType) s = (f, s1)"
    by (cases "run_state (forward env cfg org body accept contentType) s")
  from run_forward [OF f] obtain evs where e: "trace s1 = trace s @ evs" "list_all upstreamOnly evs" by blast
  have run: "reqRun key RFetching evs = Some RFetching"
    using reqRun_unlocked(1) [OF unlocked_upstream [OF e(2)]] by simp
  consider "trace s' = trace s1 \<or> trace s' = trace s1 @ [CacheResult ''MISS'']"
    | payload ttl err d where "trace s' = trace s1 @ [RedisSet key payload ttl err, RedisLatency ''set'' (err = None) d, CacheResult ''MISS'']"
  proof (cases f)
    case (Inl err)
    with assms f that(1) show ?thesis by (simp add: fetchLocked_def)
  next
    case (Inr x)
    obtain payload hdr status name where x: "x = ((payload, hdr, status), name)" by (metis prod.exhaust)
    show ?thesis
    proof (cases "go_div status 100 = 2")
      case False
      with assms f Inr x that(1) show ?thesis by (auto simp: fetchLocked_def metrics_defs)
    next
      case True
      obtain stored s2 where st: "run_state (Set env cfg key payload) s1 = (stored, s2)"
        by (cases "run_state (Set env cfg key payload) s1")
      from run_Set [OF st] assms f Inr x True st that show ?thesis
        by (cases stored) (auto simp: fetchLocked_def metrics_defs)
    qed
  qed
  then show ?thesis
  proof cases
    case 1
    with e(1) run show ?thesis
      by (elim disjE) (rule exI [of _ evs] exI [of _ "evs @ [CacheResult ''MISS'']"], simp add: reqRun_append)+
  next
    case 2
    with e(1) run show ?thesis
      by (intro exI [of _ "evs @ [RedisSet key payload ttl err, RedisLatency ''set'' (err = None) d, CacheResult ''MISS'']"])
         (simp add: reqRun_append)
  qed
qed

text \<open>
  A cacheable fetch is a run of the automaton that ends outside the critical section: with the
  lock released, or having gone upstream without it.
\<close>

lemma fetchOrCache_reqRun:
  assumes "run_state (fetchOrCache env cfg org sig body accept contentType) s = (r, s')" and "cacheable accept"
  shows "\<exists>evs p. trace s' = trace s @ evs \<and> reqRun (Key org sig) RStart evs = Some p \<and> p \<in> {RDone, RRacing, RWaiting}"
  using assms(1)
proof (cases rule: fetchOrCache_branches)
  case bypass
  with assms(2) show ?thesis by simp
next
  case (hit cached s1)
  from run_GetAs(2) [OF hit(2) [unfolded Get_def]] obtain d where
    "trace s1 = trace s @ [RedisGet (Key org sig) (Inr cached), RedisLatency ''get'' (getOk (Inr cached)) d]" by blast
  with run_hitAs [OF hit(3)] show ?thesis by simp
next
  case (redis_error msg)
  from run_GetAs(2) [OF redis_error(2) [unfolded Get_def]] show ?thesis by auto
next
  case (lock_error s1 err lockKey)
  from run_GetAs(2) [OF lock_error(2) [unfolded Get_def]] run_AcquireLock(2) [OF lock_error(3)]
  show ?thesis by auto
next
  case (waited s1 s2 s3 lockKey cached)
  from run_GetAs(2) [OF waited(2) [unfolded Get_def]] run_AcquireLock(2) [OF waited(3)]
    reqRun_WaitForLock [OF waited(4)] run_hitAs [OF waited(5)]
  show ?thesis by (auto simp: reqRun_append)
next
  case (race s1 s2 s3 lockKey err)
  from forwardAs_unlocked [OF race(5)] obtain evs where evs: "trace s' = trace s3 @ evs" "list_all unlocked evs" by blast
  obtain p where "reqRun (Key org sig) (if err = RedisNil then RWaiting else RRacing) evs = Some p" "p \<in> {RRacing, RWaiting}"
    using reqRun_unlocked(1) [OF evs(2), of RRacing "Key org sig"] reqRun_unlocked(2) [OF evs(2), of "Key org sig"]
    by (cases "err = RedisNil") auto
  with run_GetAs(2) [OF race(2) [unfolded Get_def]] run_AcquireLock(2) [OF race(3)]
    reqRun_WaitForLock [OF race(4)] evs(1)
  show ?thesis by (auto simp: reqRun_append)
next
  case (locked s1 s2 s3 lockKey err)
  from reqRun_fetchLocked [OF locked(4)] obtain evs p where evs: "trace s3 = trace s2 @ evs"
    "reqRun (Key org sig) RFetching evs = Some p" "p \<in> {RFetching, RStored}" by blast
  with run_GetAs(2) [OF locked(2) [unfolded Get_def]] run_AcquireLock [OF locked(3)] run_ReleaseLock [OF locked(5)]
  show ?thesis by (auto simp: reqRun_append)
qed

section \<open>Many requests over one Redis\<close>

text \<open>
  The lock (with its expiry) and the cached value of one key, and for every request the events
  so far and the expiry of the lock it asked for.
\<close>

record stampede =
  snow :: instant
  slock :: "instant option option"
  sval :: "string option"
  hist :: "nat \<Rightarrow> event list"
  expiry :: "nat \<Rightarrow> instant option"

definition lockFree :: "instant \<Rightarrow> instant option option \<Rightarrow> bool" where
  "lockFree now l = (case l of None \<Rightarrow> True | Some u \<Rightarrow> \<not> alive now u)"

text \<open>
  What Redis may do on a command that was answered as the event says: the states it can be in
  afterwards. A command whose reply is an error may or may not have been carried out.
\<close>

fun redisOutcomes :: "string \<Rightarrow> instant \<Rightarrow> event \<Rightarrow> instant option option \<times> string option \<Rightarrow>
    (instant option option \<times> string option) list" where
  "redisOutcomes key now (RedisGet k r) (l, v) =
     (if k = key then
        (case r of Inr x \<Rightarrow> if v = Some x then [(l, v)] else []
         | Inl RedisNil \<Rightarrow> if v = None then [(l, v)] else []
         | Inl (RedisErr msg) \<Rightarrow> [(l, v)])
      else [(l, v)])"
| "redisOutcomes key now (RedisSetNX k tok ttl r) (l, v) =
     (if k = lockKeyOf key then
        (case r of
           Inr True \<Rightarrow> if lockFree now l then [(Some (expiresAt now ttl), v)] else []
         | Inr False \<Rightarrow> if lockFree now l then [] else [(l, v)]
         | Inl err \<Rightarrow> (l, v) # (if lockFree now l then [(Some (expiresAt now ttl), v)] else []))
      else [(l, v)])"
| "redisOutcomes key now (RedisSet k x ttl e) (l, v) =
     (if k = key then (l, Some x) # (if e = None then [] else [(l, v)]) else [(l, v)])"
| "redisOutcomes key now (RedisDel k e) (l, v) =
     (if k = lockKeyOf key then (None, v) # (if e = None then [] else [(l, v)]) else [(l, v)])"
| "redisOutcomes key now ev (l, v) = [(l, v)]"

text \<open>The events can be the beginning of a cacheable fetch, whatever its environment answers.\<close>

definition fetchBegins :: "'e env \<Rightarrow> Config \<Rightarrow> string \<Rightarrow> string \<Rightarrow> event list \<Rightarrow> bool" where
  "fetchBegins env cfg org sig evs \<longleftrightarrow>
     (\<exists>body accept contentType r rest. \<exists>s s' :: 'e gw. cacheable accept \<and>
        run_state (fetchOrCache env cfg org sig body accept contentType) s = (r, s') \<and> trace s' = trace s @ evs @ rest)"

fun newExpiry :: "instant \<Rightarrow> event \<Rightarrow> instant option \<Rightarrow> instant option" where
  "newExpiry now (RedisSetNX k tok ttl r) u = expiresAt now ttl"
| "newExpiry now ev u = u"

text \<open>
  A request \<open>i\<close> performs its next event, which its code (\<open>runs\<close>: the possible histories) allows, time passes, or the cached value expires. The lock
  expires with time, by \<open>alive\<close>.
\<close>

inductive stampedeStep :: "string \<Rightarrow> (event list \<Rightarrow> bool) \<Rightarrow> stampede \<Rightarrow> stampede \<Rightarrow> bool" for key runs where
  act: "runs (hist s i @ [ev]) \<Longrightarrow>
    (l, v) \<in> set (redisOutcomes key (snow s) ev (slock s, sval s)) \<Longrightarrow>
    stampedeStep key runs s (s\<lparr>slock := l, sval := v, hist := (hist s)(i := hist s i @ [ev]),
      expiry := (expiry s)(i := newExpiry (snow s) ev (expiry s i))\<rparr>)"
| tick: "0 \<le> d \<Longrightarrow> stampedeStep key runs s (s\<lparr>snow := snow s + d\<rparr>)"
| expire: "stampedeStep key runs s (s\<lparr>sval := None\<rparr>)"

text \<open>The system of concurrent fetches for one organisation and query.\<close>

abbreviation fetchStep :: "'e env \<Rightarrow> Config \<Rightarrow> string \<Rightarrow> string \<Rightarrow> stampede \<Rightarrow> stampede \<Rightarrow> bool" where
  "fetchStep env cfg org sig \<equiv> stampedeStep (Key org sig) (fetchBegins env cfg org sig)"

definition coldStart :: "instant \<Rightarrow> stampede" where
  "coldStart now = \<lparr>snow = now, slock = None, sval = None, hist = (\<lambda>i. []), expiry = (\<lambda>i. None)\<rparr>"

text \<open>A request holds the lock from its successful \<open>SETNX\<close> until its \<open>DEL\<close>.\<close>

fun holdsAfter :: "event \<Rightarrow> bool \<Rightarrow> bool" where
  "holdsAfter (RedisSetNX k tok ttl r) h = (r = Inr True \<or> h)"
| "holdsAfter (RedisDel k e) h = False"
| "holdsAfter ev h = h"

definition holdsLock :: "event list \<Rightarrow> bool" where
  "holdsLock evs = fold holdsAfter evs False"

text \<open>No holder has outlived the expiry of its lock.\<close>

definition onTime :: "stampede \<Rightarrow> bool" where
  "onTime s \<longleftrightarrow> (\<forall>i. holdsLock (hist s i) \<longrightarrow> alive (snow s) (expiry s i))"

section \<open>Mutual exclusion\<close>

lemma holdsLock_snoc: "holdsLock (evs @ [ev]) = holdsAfter ev (holdsLock evs)"
  by (simp add: holdsLock_def)

text \<open>
  While every holder is on time, the lock in Redis is the one of its only holder.
\<close>

definition stampedeInv :: "stampede \<Rightarrow> bool" where
  "stampedeInv s \<longleftrightarrow> onTime s \<and> (\<forall>i. holdsLock (hist s i) \<longrightarrow> slock s = Some (expiry s i)) \<and>
     (\<forall>i j. holdsLock (hist s i) \<longrightarrow> holdsLock (hist s j) \<longrightarrow> i = j)"

text \<open>
  The contract of a request towards the lock, which is all that mutual exclusion needs: it
  deletes the lock only while holding it and asks for it, under its key, only while not holding it.
\<close>

locale lock_client =
  fixes key :: string and runs :: "event list \<Rightarrow> bool"
  assumes del_holds: "runs (evs @ [ev]) \<Longrightarrow> ev = RedisDel k e \<Longrightarrow> holdsLock evs"
    and setnx_free: "runs (evs @ [ev]) \<Longrightarrow> ev = RedisSetNX k tok ttl r \<Longrightarrow> k = lockKeyOf key \<and> \<not> holdsLock evs"
begin

lemma stampedeInv_act:
  assumes inv: "stampedeInv s" and run: "runs (hist s i @ [ev])"
    and out: "(l, v) \<in> set (redisOutcomes key (snow s) ev (slock s, sval s))"
    and s': "s' = s\<lparr>slock := l, sval := v, hist := (hist s)(i := hist s i @ [ev]),
      expiry := (expiry s)(i := newExpiry (snow s) ev (expiry s i))\<rparr>"
    and time: "onTime s'"
  shows "stampedeInv s'"
proof -
  note facts = holdsLock_snoc [of "hist s i" ev] del_holds [OF run] setnx_free [OF run]
  have lock: "slock s = Some (expiry s j)" "\<not> lockFree (snow s) (slock s)" "holdsLock (hist s k) \<Longrightarrow> k = j"
    if "holdsLock (hist s j)" for j k
    using inv that by (auto simp: stampedeInv_def onTime_def lockFree_def)
  have split: "(\<exists>k tok ttl r. ev = RedisSetNX k tok ttl r) \<or> (\<exists>k e. ev = RedisDel k e) \<or>
      l = slock s \<and> (\<forall>u. newExpiry (snow s) ev u = u) \<and> (\<forall>h. holdsAfter ev h = h)"
    using out by (cases ev) (auto split: if_splits sum.splits redis_error.splits)
  have holds': "holdsLock (hist s' k) = (if k = i then holdsAfter ev (holdsLock (hist s i)) else holdsLock (hist s k))" for k
    using facts(1) by (simp add: s')
  have state': "slock s' = l" "expiry s' k = (if k = i then newExpiry (snow s) ev (expiry s i) else expiry s k)" for k
    by (simp_all add: s')
  have only: "stampedeInv s'" if "\<And>k. holdsLock (hist s' k) \<Longrightarrow> k = j \<and> slock s' = Some (expiry s' j)" for j
    using time that unfolding stampedeInv_def by blast
  from split consider (setnx) k tok ttl r where "ev = RedisSetNX k tok ttl r" | (del) k e where "ev = RedisDel k e"
    | (other) "l = slock s" "\<And>u. newExpiry (snow s) ev u = u" "\<And>h. holdsAfter ev h = h" by blast
  then show ?thesis
  proof cases
    case setnx
    with facts(3) have k: "k = lockKeyOf key" and i: "\<not> holdsLock (hist s i)" by auto
    show ?thesis
    proof (cases "\<exists>j. holdsLock (hist s j)")
      case True
      then obtain j where j: "holdsLock (hist s j)" ..
      then have "l = slock s" "r \<noteq> Inr True" "j \<noteq> i"
        using out lock(2) [OF j] i by (auto simp: setnx k split: sum.splits bool.splits if_splits)
      with lock(1,3) [OF j] i show ?thesis
        by (intro only [of j]) (simp add: holds' state' setnx split: if_splits)
    next
      case False
      with out show ?thesis
        by (intro only [of i]) (auto simp: holds' state' setnx k split: sum.splits bool.splits if_splits)
    qed
  next
    case del
    with facts(2) have "holdsLock (hist s i)" by auto
    with lock show ?thesis by (intro only [of i]) (auto simp: holds' state' del split: if_splits)
  next
    case other
    then have "holdsLock (hist s' k) = holdsLock (hist s k)" "expiry s' k = expiry s k" for k
      by (simp_all add: holds' state')
    with time inv state'(1) other(1) show ?thesis unfolding stampedeInv_def by simp
  qed
qed

lemma stampedeInv_step:
  assumes "stampedeStep key runs s s'" and "stampedeInv s" and "onTime s'"
  shows "stampedeInv s'"
  using assms(1)
proof cases
  case (act i ev l v)
  show ?thesis by (rule stampedeInv_act [OF assms(2) act(2,3,1) assms(3)])
next
  case (tick d)
  with assms(2,3) show ?thesis by (simp add: stampedeInv_def)
next
  case expire
  with assms(2,3) show ?thesis by (simp add: stampedeInv_def)
qed

lemma stampedeInv_reachable:
  assumes "(\<lambda>s s'. stampedeStep key runs s s' \<and> onTime s')\<^sup>*\<^sup>* (coldStart now) s"
  shows "stampedeInv s"
  using assms
proof induction
  case base
  show ?case by (simp add: stampedeInv_def onTime_def coldStart_def holdsLock_def)
qed (blast intro: stampedeInv_step)

lemma mutex:
  assumes "(\<lambda>s s'. stampedeStep key runs s s' \<and> onTime s')\<^sup>*\<^sup>* (coldStart now) s"
    and "holdsLock (hist s i)" and "holdsLock (hist s j)"
  shows "i = j \<and> slock s = Some (expiry s i)"
  using stampedeInv_reachable [OF assms(1)] assms(2,3) by (auto simp: stampedeInv_def)

end

text \<open>The cached fetch keeps the contract, because it follows the automaton.\<close>

lemma fetchBegins_reqRun:
  assumes "fetchBegins env cfg org sig evs"
  shows "\<exists>p. reqRun (Key org sig) RStart evs = Some p"
proof -
  obtain rest p where "reqRun (Key org sig) RStart (evs @ rest) = Some p"
    using assms fetchOrCache_reqRun unfolding fetchBegins_def by (metis same_append_eq)
  then show ?thesis by (auto simp: reqRun_append split: option.splits)
qed

lemma reqNext_holds:
  assumes "reqNext key p ev = Some p'"
  shows "p' \<in> {RFetching, RStored} \<longleftrightarrow> holdsAfter ev (p \<in> {RFetching, RStored})"
  using assms by (cases p; cases ev) (auto split: if_splits sum.splits bool.splits)

lemma holdsLock_reqRun:
  "reqRun key RStart evs = Some p \<Longrightarrow> holdsLock evs \<longleftrightarrow> p \<in> {RFetching, RStored}"
proof (induction evs arbitrary: p rule: rev_induct)
  case (snoc ev evs)
  then obtain p0 where "reqRun key RStart evs = Some p0" "reqNext key p0 ev = Some p"
    by (auto simp: reqRun_append split: option.splits)
  with snoc.IH reqNext_holds [of key p0 ev p] show ?case by (simp add: holdsLock_def)
qed (simp add: holdsLock_def)

interpretation fetch: lock_client "Key org sig" "fetchBegins env cfg org sig" for env cfg org sig
proof
  fix evs ev
  assume run: "fetchBegins env cfg org sig (evs @ [ev])"
  obtain p p' where p: "reqRun (Key org sig) RStart evs = Some p" "reqNext (Key org sig) p ev = Some p'"
    using fetchBegins_reqRun [OF run] by (auto simp: reqRun_append split: option.splits)
  note holds = holdsLock_reqRun [OF p(1)]
  show "holdsLock evs" if "ev = RedisDel k e" for k e
    using p(2) holds that by (cases p) auto
  show "k = lockKeyOf (Key org sig) \<and> \<not> holdsLock evs" if "ev = RedisSetNX k tok ttl r" for k tok ttl r
    using p(2) holds that by (cases p) (auto split: if_splits)
qed

section \<open>A run\<close>

lemma fetchBegins_prefix: "fetchBegins env cfg org sig (evs @ evs') \<Longrightarrow> fetchBegins env cfg org sig evs"
  unfolding fetchBegins_def by (metis append.assoc)

text \<open>A Redis in which the key is always missing and the lock always free.\<close>

definition freeEnv :: "world env" where
  "freeEnv = worldEnv\<lparr>redis_Get := (\<lambda>k w. (Inl RedisNil, w)), redis_SetNX := (\<lambda>k v ttl w. (Inr True, w)),
     redis_Del := (\<lambda>k w. (None, w))\<rparr>"

definition beginEvents :: "string \<Rightarrow> duration \<Rightarrow> string \<Rightarrow> duration \<Rightarrow> duration \<Rightarrow> event list" where
  "beginEvents key ttl tok d d' =
     [RedisGet key (Inl RedisNil), RedisLatency ''get'' (getOk (Inl RedisNil)) d,
      RedisSetNX (lockKeyOf key) tok ttl (Inr True), RedisLatency ''setnx'' (\<not> isl (Inr True :: redis_error + bool)) d']"

text \<open>What a request does between taking and releasing the lock.\<close>

fun keepsLock :: "event \<Rightarrow> bool" where
  "keepsLock (RedisSet k v ttl e) = True"
| "keepsLock ev = unlocked ev"

lemma keepsLock_reqRun:
  "reqRun key p evs = Some p' \<Longrightarrow> p \<in> {RFetching, RStored} \<Longrightarrow> p' \<in> {RFetching, RStored} \<Longrightarrow> list_all keepsLock evs"
proof (induction evs arbitrary: p)
  case (Cons ev evs)
  have stuck: "reqRun key RDone es = Some q \<Longrightarrow> q = RDone" for es q
    by (induction es) (auto simp: reqNext_def split: option.splits if_splits)
  from Cons.prems(1) obtain p1 where p1: "reqNext key p ev = Some p1" "reqRun key p1 evs = Some p'"
    by (auto split: option.splits)
  then have "p1 \<noteq> RDone" using stuck [of evs p'] Cons.prems(3) by auto
  with p1(1) Cons.prems(2) have "keepsLock ev" "p1 \<in> {RFetching, RStored}"
    by (cases ev; auto split: if_splits)+
  with Cons.IH [OF p1(2)] Cons.prems(3) show ?case by simp
qed simp

lemma lockedRun:
  "\<exists>tok d d' evs. list_all keepsLock evs \<and> fetchBegins freeEnv cfg org sig
     (beginEvents (Key org sig) (CacheLockTTL cfg) tok d d' @ evs @ [RedisDel (lockKeyOf (Key org sig)) None])"
proof -
  obtain r and s' :: "world gw" where run: "run_state (fetchOrCache freeEnv cfg org sig [] [] []) (exampleGw world0) = (r, s')"
    by (cases "run_state (fetchOrCache freeEnv cfg org sig [] [] []) (exampleGw world0)")
  have c: "cacheable []" by (simp add: cacheable_def)
  have get: "g = Inl RedisNil" if "run_state (Get freeEnv k) s = (g, s1)" for k g and s s1 :: "world gw"
    using run_GetAs(3) [OF that [unfolded Get_def]] by (auto simp: freeEnv_def)
  have lock: "l = Inr True" if "run_state (AcquireLock freeEnv cfg k) s = ((l, lk), s1)" for k l lk and s s1 :: "world gw"
    using that by (auto simp: AcquireLock_def freeEnv_def metrics_defs Let_def run_external time_Since_def run_time_Now)
  have del: "e = None" if "run_state (ReleaseLock freeEnv k) s = (e, s1)" for k e and s s1 :: "world gw"
    using that by (auto simp: ReleaseLock_def freeEnv_def run_external)
  from run show ?thesis
  proof (cases rule: fetchOrCache_branches)
    case (locked s1 s2 s3 lockKey err)
    from reqRun_fetchLocked [OF locked(4)] obtain evs where evs: "trace s3 = trace s2 @ evs" "list_all keepsLock evs"
      by (meson keepsLock_reqRun insertI1)
    with run_GetAs(2) [OF locked(2) [unfolded Get_def]] run_AcquireLock [OF locked(3)] run_ReleaseLock [OF locked(5)] del [OF locked(5)]
    obtain tok d d' where "trace s' = trace (exampleGw world0) @ beginEvents (Key org sig) (CacheLockTTL cfg) tok d d' @ evs @
        [RedisDel (lockKeyOf (Key org sig)) None] @ []"
      by (auto simp: beginEvents_def)
    with run c have "fetchBegins freeEnv cfg org sig (beginEvents (Key org sig) (CacheLockTTL cfg) tok d d' @ evs @
        [RedisDel (lockKeyOf (Key org sig)) None])"
      unfolding fetchBegins_def by (metis append.assoc)
    with evs(2) show ?thesis by blast
  qed (use c get lock in \<open>fastforce+\<close>)
qed

lemma rtranclp_chain:
  assumes "\<And>k. k < n \<Longrightarrow> R (f k) (f (Suc k))"
  shows "R\<^sup>*\<^sup>* (f 0) (f n)"
  using assms
proof (induction n)
  case (Suc n)
  then have "R\<^sup>*\<^sup>* (f 0) (f n)" "R (f n) (f (Suc n))" by simp_all
  then show ?case by (rule rtranclp.rtrancl_into_rtrancl)
qed simp

text \<open>A request takes a free lock: four events, after which it holds the lock for its expiry.\<close>

lemma acquire:
  assumes "fetchBegins env cfg org sig (beginEvents (Key org sig) ttl tok d d')" and "0 < ttl"
    and "hist s i = []" "sval s = None" "lockFree (snow s) (slock s)"
    and "s' = s\<lparr>slock := Some (Some (snow s + ttl)), hist := (hist s)(i := beginEvents (Key org sig) ttl tok d d'),
      expiry := (expiry s)(i := Some (snow s + ttl))\<rparr>"
  shows "(fetchStep env cfg org sig)\<^sup>*\<^sup>* s s'"
    and "onTime s \<Longrightarrow> (\<lambda>s s'. fetchStep env cfg org sig s s' \<and> onTime s')\<^sup>*\<^sup>* s s'"
proof -
  define evs where "evs = beginEvents (Key org sig) ttl tok d d'"
  define at where "at n = s\<lparr>slock := (if n < 3 then slock s else slock s'), hist := (hist s)(i := take n evs),
    expiry := (if n < 3 then expiry s else expiry s')\<rparr>" for n
  have len: "length evs = 4" by (simp add: evs_def beginEvents_def)
  have step: "fetchStep env cfg org sig (at n) (at (Suc n))" if "n < 4" for n
  proof -
    have "fetchBegins env cfg org sig (take n evs @ [evs ! n])"
      using assms(1) that len fetchBegins_prefix [of env cfg org sig "take (Suc n) evs" "drop (Suc n) evs"]
      unfolding append_take_drop_id evs_def [symmetric] by (simp add: take_Suc_conv_app_nth)
    then have "fetchBegins env cfg org sig (hist (at n) i @ [evs ! n])" by (simp add: at_def)
    moreover have "(slock (at (Suc n)), sval s) \<in> set (redisOutcomes (Key org sig) (snow (at n)) (evs ! n) (slock (at n), sval (at n)))"
      using that assms(2-6) by (auto simp: less_Suc_eq numeral_eq_Suc at_def evs_def beginEvents_def expiresAt_def)
    moreover have "at (Suc n) = (at n)\<lparr>slock := slock (at (Suc n)), sval := sval s, hist := (hist (at n))(i := hist (at n) i @ [evs ! n]),
        expiry := (expiry (at n))(i := newExpiry (snow (at n)) (evs ! n) (expiry (at n) i))\<rparr>"
      using that assms(2-6) len
      by (auto simp: less_Suc_eq numeral_eq_Suc at_def evs_def beginEvents_def expiresAt_def fun_eq_iff)
    ultimately show ?thesis using stampedeStep.act [of "fetchBegins env cfg org sig" "at n" i "evs ! n"] by metis
  qed
  have "onTime s \<Longrightarrow> onTime (at n)" if "n \<le> 4" for n
    using that assms(2,3,6)
    by (auto simp: onTime_def less_Suc_eq le_Suc_eq numeral_eq_Suc at_def evs_def beginEvents_def holdsLock_def alive_def)
  note ontime = this
  have ends: "at 0 = s" "at 4 = s'"
    using assms(3,4,6) len by (auto simp: at_def evs_def fun_eq_iff)
  show "(fetchStep env cfg org sig)\<^sup>*\<^sup>* s s'"
    using rtranclp_chain [of 4 "fetchStep env cfg org sig" at] step by (simp add: ends)
  show "(\<lambda>s s'. fetchStep env cfg org sig s s' \<and> onTime s')\<^sup>*\<^sup>* s s'" if "onTime s"
    using rtranclp_chain [of 4 "\<lambda>s s'. fetchStep env cfg org sig s s' \<and> onTime s'" at] step ontime that
    by (simp add: ends)
qed

text \<open>A request works while it holds the lock.\<close>

lemma perform:
  assumes "list_all keepsLock evs" and "fetchBegins env cfg org sig (hist s i @ evs)"
  shows "\<exists>v. (fetchStep env cfg org sig)\<^sup>*\<^sup>* s (s\<lparr>sval := v, hist := (hist s)(i := hist s i @ evs)\<rparr>)"
  using assms
proof (induction evs arbitrary: s)
  case (Cons ev evs)
  have "fetchBegins env cfg org sig (hist s i @ [ev])"
    using Cons.prems(2) fetchBegins_prefix [of env cfg org sig "hist s i @ [ev]" evs] by simp
  moreover have "\<exists>v. (slock s, v) \<in> set (redisOutcomes (Key org sig) (snow s) ev (slock s, sval s))"
    using Cons.prems(1) by (cases ev) auto
  then obtain v where "(slock s, v) \<in> set (redisOutcomes (Key org sig) (snow s) ev (slock s, sval s))" ..
  moreover have "newExpiry (snow s) ev (expiry s i) = expiry s i" using Cons.prems(1) by (cases ev) auto
  ultimately have step: "fetchStep env cfg org sig s (s\<lparr>sval := v, hist := (hist s)(i := hist s i @ [ev])\<rparr>)"
    using stampedeStep.act [of "fetchBegins env cfg org sig" s i ev "slock s" v] by simp
  from Cons.IH [of "s\<lparr>sval := v, hist := (hist s)(i := hist s i @ [ev])\<rparr>"] Cons.prems obtain v' where
    "(fetchStep env cfg org sig)\<^sup>*\<^sup>* (s\<lparr>sval := v, hist := (hist s)(i := hist s i @ [ev])\<rparr>)
       (s\<lparr>sval := v', hist := (hist s)(i := hist s i @ ev # evs)\<rparr>)"
    by (auto simp: fun_upd_def cong: if_cong)
  with step show ?case by (meson converse_rtranclp_into_rtranclp)
next
  case Nil
  then show ?case by (intro exI [of _ "sval s"]) simp
qed

text \<open>A request releases a lock, be it its own or not.\<close>

lemma release:
  assumes "list_all keepsLock evs" and "fetchBegins env cfg org sig (hist s i @ evs @ [RedisDel (lockKeyOf (Key org sig)) None])"
  shows "(fetchStep env cfg org sig)\<^sup>*\<^sup>* s (s\<lparr>slock := None, sval := None,
    hist := (hist s)(i := hist s i @ evs @ [RedisDel (lockKeyOf (Key org sig)) None])\<rparr>)" (is "?step\<^sup>*\<^sup>* s ?s'")
proof -
  let ?del = "RedisDel (lockKeyOf (Key org sig)) None"
  have "fetchBegins env cfg org sig (hist s i @ evs)"
    using assms(2) fetchBegins_prefix [of env cfg org sig "hist s i @ evs" "[?del]"] by simp
  from perform [OF assms(1) this] obtain v where
    v: "?step\<^sup>*\<^sup>* s (s\<lparr>sval := v, hist := (hist s)(i := hist s i @ evs)\<rparr>)" ..
  define s1 where "s1 = s\<lparr>sval := v, hist := (hist s)(i := hist s i @ evs)\<rparr>"
  define s2 where "s2 = s1\<lparr>slock := None, sval := v, hist := (hist s1)(i := hist s1 i @ [?del])\<rparr>"
  have "?step s1 s2"
    using stampedeStep.act [of "fetchBegins env cfg org sig" s1 i ?del None v] assms(2) by (simp add: s1_def s2_def)
  moreover have "?step s2 (s2\<lparr>sval := None\<rparr>)" by (rule stampedeStep.expire)
  ultimately have "?step\<^sup>*\<^sup>* s (s2\<lparr>sval := None\<rparr>)"
    using v [folded s1_def] by (meson rtranclp.rtrancl_into_rtrancl)
  moreover have "s2\<lparr>sval := None\<rparr> = ?s'" by (simp add: s2_def s1_def)
  ultimately show ?thesis by simp
qed

section \<open>Claims\<close>

text \<open>
  C22: a cacheable fetch follows the cache protocol. Its commands to Redis and its requests
  upstream are a run of the automaton \<open>reqNext\<close>: look the value up; on a miss try the lock; with
  the lock, go upstream, store at most once, release; without it, poll the value and then at
  worst go upstream without touching cache or lock. It never ends inside the critical section.
\<close>

theorem fetchOrCache_protocol:
  assumes "run_state (fetchOrCache env cfg org sig body accept contentType) s = (r, s')" and "cacheable accept"
  shows "\<exists>evs p. trace s' = trace s @ evs \<and> reqRun (Key org sig) RStart evs = Some p \<and>
    p \<in> {RDone, RRacing, RWaiting}"
  using assms by (rule fetchOrCache_reqRun)

theorem fetchOrCache_protocol_witness:
  "\<exists>evs p. trace (snd (run_state (fetchOrCache worldEnv exampleConfig ''acme'' ''q'' ''q'' ''text/csv'' []) (exampleGw failingOnce))) = evs \<and>
     reqRun (Key ''acme'' ''q'') RStart evs = Some p"
proof -
  obtain r s' where r: "run_state (fetchOrCache worldEnv exampleConfig ''acme'' ''q'' ''q'' ''text/csv'' []) (exampleGw failingOnce) = (r, s')"
    by (cases "run_state (fetchOrCache worldEnv exampleConfig ''acme'' ''q'' ''q'' ''text/csv'' []) (exampleGw failingOnce)")
  have "cacheable ''text/csv''" by code_simp
  from fetchOrCache_protocol [OF r this] show ?thesis by (auto simp: r)
qed

text \<open>
  C3: one fetch at a time. However many requests for the same organisation and query run
  concurrently, in whatever order their commands reach Redis and whichever commands fail, at
  most one of them is between taking and releasing the lock, as long as no holder outlives the
  expiry of its lock.
\<close>

theorem stampede_mutex:
  assumes "(\<lambda>s s'. fetchStep env cfg org sig s s' \<and> onTime s')\<^sup>*\<^sup>* (coldStart now) s"
    and "holdsLock (hist s i)" and "holdsLock (hist s j)"
  shows "i = j \<and> slock s = Some (expiry s i)"
  using assms by (rule fetch.mutex)

text \<open>A request that got the lock is the only holder.\<close>

theorem stampede_mutex_witness:
  "\<exists>s. (\<lambda>s s'. fetchStep freeEnv exampleConfig ''acme'' ''q'' s s' \<and> onTime s')\<^sup>*\<^sup>* (coldStart 0) s \<and>
     holdsLock (hist s 7) \<and> {i. holdsLock (hist s i)} \<subseteq> {7}"
proof -
  let ?ttl = "CacheLockTTL exampleConfig"
  obtain tok d d' where begins: "fetchBegins freeEnv exampleConfig ''acme'' ''q'' (beginEvents (Key ''acme'' ''q'') ?ttl tok d d')"
    using lockedRun [of exampleConfig "''acme''" "''q''"] by (blast intro: fetchBegins_prefix)
  define s where "s = (coldStart 0)\<lparr>slock := Some (Some (snow (coldStart 0) + ?ttl)),
    hist := (hist (coldStart 0))(7 := beginEvents (Key ''acme'' ''q'') ?ttl tok d d'),
    expiry := (expiry (coldStart 0))(7 := Some (snow (coldStart 0) + ?ttl))\<rparr>"
  have run: "(\<lambda>s s'. fetchStep freeEnv exampleConfig ''acme'' ''q'' s s' \<and> onTime s')\<^sup>*\<^sup>* (coldStart 0) s"
    by (rule acquire(2) [OF begins _ _ _ _ s_def])
       (simp_all add: coldStart_def lockFree_def onTime_def holdsLock_def exampleConfig_def)
  moreover have h: "holdsLock (hist s 7)" by (simp add: s_def beginEvents_def holdsLock_def)
  moreover have "{i. holdsLock (hist s i)} \<subseteq> {7}" using stampede_mutex [OF run _ h] by blast
  ultimately show ?thesis by blast
qed

text \<open>
  C23: the expiry matters. With the default configuration (lock expiry five seconds, upstream
  timeout sixty) a holder whose upstream answers after six seconds deletes a lock that is no
  longer its own, since releasing does not compare the token; from then on two requests hold
  the lock at the same time, both within its expiry.
\<close>

theorem stampede_overrun:
  "\<exists>s. (fetchStep freeEnv exampleConfig ''acme'' ''q'')\<^sup>*\<^sup>* (coldStart 0) s \<and> snow s < UpstreamTimeout exampleConfig \<and>
     holdsLock (hist s 1) \<and> alive (snow s) (expiry s 1) \<and> holdsLock (hist s 2) \<and> alive (snow s) (expiry s 2)"
proof -
  let ?ttl = "CacheLockTTL exampleConfig"
  let ?key = "Key ''acme'' ''q''"
  let ?step = "fetchStep freeEnv exampleConfig ''acme'' ''q''"
  obtain tok d d' evs where evs: "list_all keepsLock evs"
    and run: "fetchBegins freeEnv exampleConfig ''acme'' ''q''
      (beginEvents ?key ?ttl tok d d' @ evs @ [RedisDel (lockKeyOf ?key) None])"
    using lockedRun [of exampleConfig "''acme''" "''q''"] by blast
  let ?b = "beginEvents ?key ?ttl tok d d'"
  have ttl: "?ttl = 5 * second" "0 < second" by (simp_all add: exampleConfig_def)
  note begins = fetchBegins_prefix [OF run]
  define s1 where "s1 = (coldStart 0)\<lparr>slock := Some (Some (snow (coldStart 0) + ?ttl)), hist := (hist (coldStart 0))(0 := ?b),
    expiry := (expiry (coldStart 0))(0 := Some (snow (coldStart 0) + ?ttl))\<rparr>"
  define s2 where "s2 = s1\<lparr>snow := snow s1 + 6 * second\<rparr>"
  define s3 where "s3 = s2\<lparr>slock := Some (Some (snow s2 + ?ttl)), hist := (hist s2)(1 := ?b),
    expiry := (expiry s2)(1 := Some (snow s2 + ?ttl))\<rparr>"
  have r1: "?step\<^sup>*\<^sup>* (coldStart 0) s1"
    by (rule acquire(1) [OF begins _ _ _ _ s1_def]) (simp_all add: coldStart_def lockFree_def ttl)
  have r2: "?step s1 s2" unfolding s2_def by (rule stampedeStep.tick) (simp add: ttl(2) less_imp_le)
  have r3: "?step\<^sup>*\<^sup>* s2 s3"
    by (rule acquire(1) [OF begins _ _ _ _ s3_def]) (simp_all add: s2_def s1_def coldStart_def lockFree_def alive_def ttl)
  have "hist s3 0 = ?b" by (simp add: s3_def s2_def s1_def)
  with release [OF evs, of freeEnv exampleConfig "''acme''" "''q''" s3 0] run
  have r4: "?step\<^sup>*\<^sup>* s3 (s3\<lparr>slock := None, sval := None, hist := (hist s3)(0 := ?b @ evs @ [RedisDel (lockKeyOf ?key) None])\<rparr>)"
    by simp
  define s4 where "s4 = s3\<lparr>slock := None, sval := None, hist := (hist s3)(0 := ?b @ evs @ [RedisDel (lockKeyOf ?key) None])\<rparr>"
  define s5 where "s5 = s4\<lparr>slock := Some (Some (snow s4 + ?ttl)), hist := (hist s4)(2 := ?b),
    expiry := (expiry s4)(2 := Some (snow s4 + ?ttl))\<rparr>"
  note defs = s5_def s4_def s3_def s2_def s1_def coldStart_def
  have r5: "?step\<^sup>*\<^sup>* s4 s5"
    by (rule acquire(1) [OF begins _ _ _ _ s5_def]) (simp_all add: defs lockFree_def ttl)
  have "?step\<^sup>*\<^sup>* (coldStart 0) s5"
    using r1 r2 r3 r4 [folded s4_def] r5 by (meson rtranclp_trans r_into_rtranclp)
  moreover have "holdsLock ?b" by (simp add: beginEvents_def holdsLock_def)
  moreover have "UpstreamTimeout exampleConfig = 60 * second" by (simp add: exampleConfig_def)
  ultimately show ?thesis
    using ttl by (intro exI [of _ s5]) (simp add: defs alive_def)
qed

end
