(* ===== verification/GoFloat.thy ===== *)
theory GoFloat
  imports Complex_Main "HOL-Library.Log_Nat"
begin

text \<open>
  \<open>float64\<close> for the numbers the programs compute with: rational numbers rounded to 53
  significant bits, to nearest with ties to even, as IEEE 754 does where the result is neither
  subnormal nor too large (latencies, counts, ratios). Zero is exact; infinities and NaN do not
  arise.
\<close>

section \<open>Rounding\<close>

definition round_half_even :: "rat \<Rightarrow> int" where
  "round_half_even x =
     (let f = \<lfloor>x\<rfloor>; d = x - of_int f
      in if d < 1 / 2 then f else if d > 1 / 2 then f + 1 else if even f then f else f + 1)"

definition pow2 :: "int \<Rightarrow> rat" where
  "pow2 k = (if 0 \<le> k then 2 ^ nat k else 1 / 2 ^ nat (- k))"

text \<open>The exponent \<open>k\<close> with \<open>2^52 \<le> x / 2^k < 2^53\<close>.\<close>

definition exponentOf :: "rat \<Rightarrow> int" where
  "exponentOf x =
     (case quotient_of x of (n, d) \<Rightarrow>
        let k = bitlen n - bitlen d - 53 in if x < 2 ^ 53 * pow2 k then k else k + 1)"

definition round64 :: "rat \<Rightarrow> rat" where
  "round64 x =
     (if x = 0 then 0
      else sgn x * (let k = exponentOf \<bar>x\<bar> in of_int (round_half_even (\<bar>x\<bar> / pow2 k)) * pow2 k))"

definition f64_of_int :: "int \<Rightarrow> rat" where "f64_of_int i = round64 (of_int i)"
definition f64_add :: "rat \<Rightarrow> rat \<Rightarrow> rat" where "f64_add x y = round64 (x + y)"
definition f64_mul :: "rat \<Rightarrow> rat \<Rightarrow> rat" where "f64_mul x y = round64 (x * y)"
definition f64_div :: "rat \<Rightarrow> rat \<Rightarrow> rat" where "f64_div x y = round64 (x / y)"

section \<open>Facts\<close>

lemma round_half_even_near:
  "\<bar>of_int (round_half_even x) - x\<bar> \<le> 1 / 2"
proof -
  define f where "f = \<lfloor>x\<rfloor>"
  have "of_int f \<le> x" "x < of_int f + 1" unfolding f_def by linarith+
  then show ?thesis
    by (auto simp: round_half_even_def Let_def f_def [symmetric] abs_le_iff field_simps)
qed

lemma round_half_even_unique:
  assumes "\<bar>x - of_int m\<bar> < 1 / 2"
  shows "round_half_even x = m"
proof -
  have "\<bar>of_int (round_half_even x) - (of_int m :: rat)\<bar> < 1"
    using round_half_even_near [of x] assms by linarith
  then show ?thesis by (simp add: of_int_diff [symmetric] del: of_int_diff)
qed

lemma round_half_even_bounds:
  "of_int m \<le> x \<Longrightarrow> m \<le> round_half_even x" "x \<le> of_int m \<Longrightarrow> round_half_even x \<le> m"
proof -
  have *: "\<bar>of_int (round_half_even x) - x\<bar> \<le> 1 / 2" by (rule round_half_even_near)
  show "m \<le> round_half_even x" if "of_int m \<le> x"
  proof (rule ccontr)
    assume "\<not> m \<le> round_half_even x"
    then have "of_int (round_half_even x) + 1 \<le> (of_int m :: rat)" by (metis not_le of_int_1 of_int_add of_int_le_iff zless_iff_Suc_zadd add1_zle_eq)
    with * that show False by (simp add: abs_le_iff)
  qed
  show "round_half_even x \<le> m" if "x \<le> of_int m"
  proof (rule ccontr)
    assume "\<not> round_half_even x \<le> m"
    then have "(of_int m :: rat) + 1 \<le> of_int (round_half_even x)" by (metis not_le of_int_1 of_int_add of_int_le_iff add1_zle_eq)
    with * that show False by (simp add: abs_le_iff)
  qed
qed

lemma pow2_pos [simp]: "0 < pow2 k" "0 \<le> pow2 k" by (simp_all add: pow2_def)

lemma pow2_add_nat: "pow2 (k + int n) = pow2 k * 2 ^ n"
proof (cases "0 \<le> k")
  case True
  then show ?thesis by (simp add: pow2_def nat_add_distrib power_add)
next
  case False
  show ?thesis
  proof (cases "0 \<le> k + int n")
    case True
    then have "n = nat (k + int n) + nat (- k)" using False by simp
    then have "(2 :: rat) ^ n = 2 ^ nat (k + int n) * 2 ^ nat (- k)" by (metis power_add)
    with True False show ?thesis by (simp add: pow2_def)
  next
    case f: False
    then have "nat (- k) = nat (- (k + int n)) + n" by simp
    then have "(2 :: rat) ^ nat (- k) = 2 ^ nat (- (k + int n)) * 2 ^ n" by (metis power_add)
    with f False show ?thesis by (simp add: pow2_def)
  qed
qed

lemma exponentOf_bounds:
  assumes "0 < x"
  shows "2 ^ 52 * pow2 (exponentOf x) \<le> x" and "x < 2 ^ 53 * pow2 (exponentOf x)"
proof -
  obtain n d where q: "quotient_of x = (n, d)" by (cases "quotient_of x")
  have d: "0 < d" using quotient_of_denom_pos [OF q] .
  have x: "x = of_int n / of_int d" using quotient_of_div [OF q] .
  have n: "0 < n" using assms x d by (simp add: zero_less_divide_iff)
  define k where "k = bitlen n - bitlen d - 53"
  have bn: "2 ^ nat (bitlen n - 1) \<le> n" "n < 2 ^ nat (bitlen n)" using bitlen_bounds [OF n] by auto
  have bd: "2 ^ nat (bitlen d - 1) \<le> d" "d < 2 ^ nat (bitlen d)" using bitlen_bounds [OF d] by auto
  have pos: "1 \<le> bitlen n" "1 \<le> bitlen d"
    using n d bitlen_nonneg [of n] bitlen_nonneg [of d] bitlen_eq_zero_iff [of n] bitlen_eq_zero_iff [of d] by linarith+
  have eq: "pow2 (bitlen n - 1) = pow2 k * 2 ^ 52 * 2 ^ nat (bitlen d)" "pow2 (bitlen n) = pow2 k * 2 ^ 54 * 2 ^ nat (bitlen d - 1)"
    using pow2_add_nat [of k "52 + nat (bitlen d)"] pow2_add_nat [of k "54 + nat (bitlen d - 1)"] pos
    by (simp_all add: k_def power_add algebra_simps)
  have up: "pow2 (bitlen n - 1) \<le> of_int n" "of_int n < pow2 (bitlen n)"
    "of_int d < (2 :: rat) ^ nat (bitlen d)" "(2 :: rat) ^ nat (bitlen d - 1) \<le> of_int d"
    using bn bd pos by (simp_all add: pow2_def)
  have "pow2 k * 2 ^ 52 * of_int d \<le> pow2 k * 2 ^ 52 * 2 ^ nat (bitlen d)"
    using up(3) by (intro mult_left_mono) auto
  also have "\<dots> \<le> of_int n" using up(1) unfolding eq(1) .
  finally have lo: "2 ^ 52 * pow2 k \<le> x"
    using d by (simp add: x pos_le_divide_eq mult.commute mult.left_commute)
  have "of_int n < pow2 k * 2 ^ 54 * 2 ^ nat (bitlen d - 1)" using up(2) unfolding eq(2) .
  also have "\<dots> \<le> pow2 k * 2 ^ 54 * of_int d"
    using up(4) by (intro mult_left_mono) auto
  finally have hi: "x < 2 ^ 54 * pow2 k"
    using d by (simp add: x pos_divide_less_eq mult.commute mult.left_commute)
  have k1: "pow2 (k + 1) = 2 * pow2 k" using pow2_add_nat [of k 1] by simp
  have e: "exponentOf x = (if x < 2 ^ 53 * pow2 k then k else k + 1)"
    by (simp add: exponentOf_def q k_def Let_def)
  show "2 ^ 52 * pow2 (exponentOf x) \<le> x" "x < 2 ^ 53 * pow2 (exponentOf x)"
    using lo hi by (auto simp: e k1)
qed

lemma round64_pos: "0 < x \<Longrightarrow> round64 x = of_int (round_half_even (x / pow2 (exponentOf x))) * pow2 (exponentOf x)"
  by (simp add: round64_def Let_def)

text \<open>Relative error at most \<open>2^-53\<close>.\<close>

lemma round64_error:
  assumes "0 < x"
  shows "\<bar>round64 x - x\<bar> \<le> x / 2 ^ 53"
proof -
  define u where "u = pow2 (exponentOf x)"
  have u: "0 < u" "2 ^ 52 * u \<le> x" using exponentOf_bounds(1) [OF assms] by (simp_all add: u_def)
  have "\<bar>of_int (round_half_even (x / u)) - x / u\<bar> * u \<le> 1 / 2 * u"
    using round_half_even_near [of "x / u"] u(1) by (intro mult_right_mono) auto
  moreover have "\<bar>of_int (round_half_even (x / u)) - x / u\<bar> * u = \<bar>of_int (round_half_even (x / u)) * u - x\<bar>"
    using u(1) by (simp add: abs_mult_pos left_diff_distrib)
  ultimately show ?thesis
    using u(2) round64_pos [OF assms] by (simp add: u_def [symmetric])
qed

text \<open>Below \<open>2^52\<close> the last place is at most one, so whole numbers are representable.\<close>

lemma exponentOf_neg:
  assumes "0 < x" "x < 2 ^ 52"
  shows "exponentOf x < 0"
proof (rule ccontr)
  assume "\<not> exponentOf x < 0"
  then have "1 \<le> pow2 (exponentOf x)" by (simp add: pow2_def)
  with exponentOf_bounds(1) [OF assms(1)] assms(2) show False by simp
qed

lemma of_int_scaled:
  assumes "k < 0"
  shows "of_int m / pow2 k = of_int (m * 2 ^ nat (- k))"
  using assms by (simp add: pow2_def)

lemma round64_whole_bounds:
  assumes "0 < x" "x < 2 ^ 52"
  shows "x \<le> of_int c \<Longrightarrow> round64 x \<le> of_int c" and "of_int c \<le> x \<Longrightarrow> of_int c \<le> round64 x"
proof -
  define k where "k = exponentOf x"
  have k: "k < 0" "0 < pow2 k" using exponentOf_neg [OF assms] by (simp_all add: k_def)
  have r: "round64 x = of_int (round_half_even (x / pow2 k)) * pow2 k" using round64_pos [OF assms(1)] by (simp add: k_def)
  note s = of_int_scaled [OF k(1), of c]
  show "round64 x \<le> of_int c" if "x \<le> of_int c"
  proof -
    have "x / pow2 k \<le> of_int (c * 2 ^ nat (- k))"
      unfolding s [symmetric] using that k(2) by (intro divide_right_mono) auto
    then have "(of_int (round_half_even (x / pow2 k)) :: rat) \<le> of_int c / pow2 k"
      unfolding s of_int_le_iff by (rule round_half_even_bounds)
    then show ?thesis using k(2) by (simp add: r pos_le_divide_eq)
  qed
  show "of_int c \<le> round64 x" if "of_int c \<le> x"
  proof -
    have "of_int (c * 2 ^ nat (- k)) \<le> x / pow2 k"
      unfolding s [symmetric] using that k(2) by (intro divide_right_mono) auto
    then have "of_int c / pow2 k \<le> (of_int (round_half_even (x / pow2 k)) :: rat)"
      unfolding s of_int_le_iff by (rule round_half_even_bounds)
    then show ?thesis using k(2) by (simp add: r pos_divide_le_eq)
  qed
qed

lemma round64_whole: "0 \<le> m \<Longrightarrow> m < 2 ^ 52 \<Longrightarrow> round64 (of_int m) = of_int m"
proof (cases "m = 0")
  case False
  assume "0 \<le> m" "m < 2 ^ 52"
  then have "(0 :: rat) < of_int m" "(of_int m :: rat) < 2 ^ 52"
    using False of_int_less_iff [of m "2 ^ 52", where ?'a = rat] by simp_all
  from round64_whole_bounds [OF this, of m] show ?thesis by (simp add: order_antisym)
qed (simp add: round64_def)

text \<open>A number that differs from a whole one by less than half a last place is rounded to it.\<close>

lemma round64_near_whole:
  assumes "0 < y" "y < 2 ^ 52" and "\<bar>y - of_int m\<bar> \<le> y / (2 * 10 ^ 16)"
  shows "round64 y = of_int m"
proof -
  define k where "k = exponentOf y"
  have k: "k < 0" "0 < pow2 k" using exponentOf_neg [OF assms(1,2)] by (simp_all add: k_def)
  have "y < 2 ^ 53 * pow2 k" using exponentOf_bounds(2) [OF assms(1)] by (simp add: k_def)
  moreover have "a < u / 2" if "y < 2 ^ 53 * u" "a \<le> y / (2 * 10 ^ 16)" "0 < u" for a u :: rat
    using that by (simp add: divide_simps)
  ultimately have "\<bar>y - of_int m\<bar> < pow2 k / 2" using assms(3) k(2) by blast
  then have "\<bar>y - of_int m\<bar> / pow2 k < 1 / 2" using k(2) by (simp add: pos_divide_less_eq)
  then have "\<bar>y / pow2 k - of_int (m * 2 ^ nat (- k))\<bar> < 1 / 2"
    unfolding of_int_scaled [OF k(1), symmetric] diff_divide_distrib [symmetric] using k(2) by simp
  from round_half_even_unique [OF this] show ?thesis
    using round64_pos [OF assms(1)] of_int_scaled [OF k(1), of m] k(2) by (simp add: k_def [symmetric] field_simps)
qed

lemma round64_nonneg: "0 \<le> x \<Longrightarrow> 0 \<le> round64 x"
proof (cases "x = 0")
  case False
  assume "0 \<le> x"
  with False have x: "0 < x" by simp
  have "x / 2 ^ 53 \<le> x" using x by simp
  with round64_error [OF x] show ?thesis by linarith
qed (simp add: round64_def)

end
