(* ===== verification/GoFormat.thy ===== *)
theory GoFormat
  imports GoTime GoFloat
begin

text \<open>
  Numbers and durations as the commands print them: the verbs \<open>%.1f\<close> and \<open>%.2f\<close>, the methods
  \<open>Seconds\<close>, \<open>Round\<close> and \<open>String\<close> of \<open>time.Duration\<close>.
\<close>

section \<open>Fixed point\<close>

text \<open>
  The verb \<open>%.<n>f\<close>: the exact value of the \<open>float64\<close>, rounded to \<open>n\<close> decimals with ties to even.
\<close>

definition fixed :: "nat \<Rightarrow> rat \<Rightarrow> string" where
  "fixed n x =
     (let m = round_half_even (\<bar>x\<bar> * 10 ^ n)
      in (if x < 0 then ''-'' else []) @ Itoa (m div 10 ^ n) @ (if n = 0 then [] else ''.'' @ fixdig n (m mod 10 ^ n)))"

section \<open>Durations\<close>

text \<open>\<open>Duration.Seconds\<close>: whole seconds and the rest, added as \<open>float64\<close>.\<close>

definition secondsOf :: "duration \<Rightarrow> rat" where
  "secondsOf d =
     f64_add (f64_of_int (go_div d second)) (f64_div (f64_of_int (d - go_div d second * second)) (10 ^ 9))"

text \<open>
  \<open>Duration.Round\<close>: to the nearest multiple, halves away from zero; a result outside the range
  of a duration is replaced by its end.
\<close>

definition Duration_Round :: "duration \<Rightarrow> duration \<Rightarrow> duration" where
  "Duration_Round d m =
     (if m \<le> 0 then d
      else
        (let r = \<bar>d\<bar> mod m; down = \<bar>d\<bar> - r
         in if r + r < m then sgn d * down
            else if d < 0 then max min_int64 (- (down + m)) else min max_int64 (down + m)))"

text \<open>\<open>fmtFrac\<close>: \<open>v / 10^n\<close> without trailing zeros in the fraction, and no point before an empty one.\<close>

definition fmtFrac :: "nat \<Rightarrow> int \<Rightarrow> string" where
  "fmtFrac n v = Itoa (v div 10 ^ n) @ (case strip_zeros (fixdig n (v mod 10 ^ n)) of [] \<Rightarrow> [] | ds \<Rightarrow> ''.'' @ ds)"

text \<open>\<open>Duration.String\<close> of a duration that is not negative.\<close>

definition durationDigits :: "duration \<Rightarrow> string" where
  "durationDigits u =
     (if u = 0 then ''0s''
      else if u < 1000 then fmtFrac 0 u @ ''ns''
      else if u < millisecond then fmtFrac 3 u @ [CHR 0xC2, CHR 0xB5, CHR ''s'']
      else if u < second then fmtFrac 6 u @ ''ms''
      else
        (let s = u div second; m = s div 60; h = m div 60
         in (if h > 0 then Itoa h @ ''h'' else []) @ (if m > 0 then Itoa (m mod 60) @ ''m'' else []) @
            fmtFrac 9 (s mod 60 * second + u mod second) @ ''s''))"

definition Duration_String :: "duration \<Rightarrow> string" where
  "Duration_String d = (if d < 0 then ''-'' @ durationDigits (- d) else durationDigits d)"

section \<open>Facts\<close>

lemma Duration_Round_near:
  assumes "in_int64 d" "in_int64 (\<bar>d\<bar> + m)" "0 < m"
  shows "m dvd Duration_Round d m" and "2 * \<bar>Duration_Round d m - d\<bar> \<le> m"
proof -
  define r where "r = \<bar>d\<bar> mod m"
  have r: "0 \<le> r" "r < m" "r \<le> \<bar>d\<bar>" "m dvd \<bar>d\<bar> - r"
    using assms(3) by (auto simp: r_def dvd_minus_mod zmod_le_nonneg_dividend)
  have up: "m dvd \<bar>d\<bar> - r + m" using r(4) by simp
  consider "r + r < m" "Duration_Round d m = sgn d * (\<bar>d\<bar> - r)"
    | "\<not> r + r < m" "Duration_Round d m = (if d < 0 then -1 else 1) * (\<bar>d\<bar> - r + m)"
  proof (cases "r + r < m")
    case True
    with that(1) assms(3) show ?thesis by (simp add: Duration_Round_def Let_def r_def)
  next
    case False
    have "\<bar>d\<bar> - r + m \<le> max_int64" "min_int64 \<le> - (\<bar>d\<bar> - r + m)"
      using assms(2) r(1) by (simp_all add: in_int64_def)
    then have "Duration_Round d m = (if d < 0 then -1 else 1) * (\<bar>d\<bar> - r + m)"
      using False assms(3) by (simp add: Duration_Round_def Let_def r_def [symmetric])
    with False that(2) show ?thesis by blast
  qed
  note round = this
  from round show "m dvd Duration_Round d m"
    by cases (simp_all only: dvd_mult r(4) up)
  from round show "2 * \<bar>Duration_Round d m - d\<bar> \<le> m"
  proof cases
    case 1
    then have "\<bar>Duration_Round d m - d\<bar> = r" using r by (simp add: sgn_if abs_if split: if_splits)
    with 1(1) show ?thesis by simp
  next
    case 2
    then have "\<bar>Duration_Round d m - d\<bar> = m - r" using r by (simp add: abs_if split: if_splits)
    with 2(1) show ?thesis by simp
  qed
qed

text \<open>Reading a printed number of digits back.\<close>

lemma fixed_reads_back:
  assumes "0 \<le> x"
  shows "\<exists>m. fixed n x = Itoa (m div 10 ^ n) @ (if n = 0 then [] else ''.'' @ fixdig n (m mod 10 ^ n)) \<and>
    0 \<le> m \<and> \<bar>of_int m / 10 ^ n - x\<bar> \<le> 1 / (2 * 10 ^ n)"
proof -
  define m where "m = round_half_even (x * 10 ^ n)"
  have "0 \<le> x * 10 ^ n" using assms by simp
  then have m: "0 \<le> m" using round_half_even_bounds(1) [of 0] by (simp add: m_def)
  have "of_int m / 10 ^ n - x = (of_int m - x * 10 ^ n) / 10 ^ n" by (simp add: field_simps)
  then have "\<bar>of_int m / 10 ^ n - x\<bar> = \<bar>of_int m - x * 10 ^ n\<bar> / 10 ^ n" by simp
  also have "\<dots> \<le> 1 / 2 / 10 ^ n" unfolding m_def by (intro divide_right_mono round_half_even_near) simp
  finally have "\<bar>of_int m / 10 ^ n - x\<bar> \<le> 1 / (2 * 10 ^ n)" by simp
  with m show ?thesis using assms by (intro exI [of _ m]) (simp add: fixed_def Let_def m_def)
qed

end
