(* ===== verification/Assembly.thy ===== *)
theory Assembly
  imports GatewayServe GoFormat
begin

text \<open>
  How \<open>main\<close> puts the gateway together: the collectors of \<open>internal/metrics\<close>, the tracer of
  \<open>internal/telemetry\<close>, \<open>NewService\<close> and \<open>NewServer\<close>. What Prometheus, OpenTelemetry and the
  Redis instrumentation do with their arguments is a parameter.
\<close>

section \<open>Collectors\<close>

datatype collector =
    CounterVec string string "string list"  \<comment> \<open>name, help, labels\<close>
  | HistogramVec string string "rat list" "string list"  \<comment> \<open>name, help, buckets, labels\<close>

fun collectorName :: "collector \<Rightarrow> string" where
  "collectorName (CounterVec name help labels) = name"
| "collectorName (HistogramVec name help buckets labels) = name"

fun collectorLabels :: "collector \<Rightarrow> string list" where
  "collectorLabels (CounterVec name help labels) = labels"
| "collectorLabels (HistogramVec name help buckets labels) = labels"

record metrics =
  m_cacheResults :: collector
  m_redisLatency :: collector
  m_upLatency :: collector

text \<open>
  \<open>MustRegister\<close> is the registry's method; it panics (\<open>None\<close>) on collectors it does not accept.
\<close>

definition NewMetrics :: "(collector list \<Rightarrow> 'reg \<Rightarrow> 'reg option) \<Rightarrow> 'reg \<Rightarrow> (metrics \<times> 'reg) option" where
  "NewMetrics MustRegister reg =
     (let m = \<lparr>
        m_cacheResults =
          CounterVec ''influx_gateway_cache_results_total'' ''Count of cache outcomes in gateway read path.'' [''result''],
        m_redisLatency =
          HistogramVec ''influx_gateway_redis_latency_seconds'' ''Redis operation latency in seconds.''
            [5 / 10000, 1 / 1000, 2 / 1000, 5 / 1000, 1 / 100, 25 / 1000, 5 / 100, 1 / 10, 25 / 100] [''op'', ''ok''],
        m_upLatency =
          HistogramVec ''influx_gateway_upstream_latency_seconds'' ''Upstream Influx query latency in seconds.''
            [5 / 1000, 1 / 100, 25 / 1000, 5 / 100, 1 / 10, 25 / 100, 5 / 10, 1, 25 / 10, 5, 10, 30, 60] [''target'', ''status'']\<rparr>
      in map_option (Pair m) (MustRegister [m_cacheResults m, m_redisLatency m, m_upLatency m] reg))"

text \<open>\<open>strconv.FormatBool\<close>.\<close>

definition FormatBool :: "bool \<Rightarrow> string" where
  "FormatBool b = (if b then ''true'' else ''false'')"

text \<open>
  What an event of the trace means for the collectors: the vector, the values given to
  \<open>WithLabelValues\<close>, and the observed number, in seconds (\<open>None\<close>: the counter is incremented).
\<close>

fun sample :: "metrics \<Rightarrow> event \<Rightarrow> (collector \<times> string list \<times> rat option) option" where
  "sample m (CacheResult result) = Some (m_cacheResults m, [result], None)"
| "sample m (RedisLatency op ok dur) = Some (m_redisLatency m, [op, FormatBool ok], Some (secondsOf dur))"
| "sample m (UpLatency target status dur) = Some (m_upLatency m, [target, status], Some (secondsOf dur))"
| "sample m ev = None"

section \<open>Tracing\<close>

datatype propagator = TraceContext | Baggage

record ('p, 'r) otel =
  otel_provider :: "('p \<times> 'r) option"
  otel_propagators :: "propagator list"

text \<open>
  \<open>InitTracer\<close>: \<open>newExporter\<close> and \<open>mergeResource\<close> are the results of \<open>stdouttrace.New\<close> and of
  \<open>resource.Merge\<close> for a service name; a tracer provider is the pair of an exporter and a
  resource, and stands for its method \<open>Shutdown\<close>. The global provider and propagators are state.
\<close>

definition InitTracer :: "string + 'p \<Rightarrow> (string \<Rightarrow> string + 'r) \<Rightarrow> string \<Rightarrow> ('p, 'r) otel \<Rightarrow>
    (string + 'p \<times> 'r) \<times> ('p, 'r) otel" where
  "InitTracer newExporter mergeResource serviceName g =
     (case newExporter of
        Inl err \<Rightarrow> (Inl (''failed to create stdout exporter: '' @ err), g)
      | Inr exporter \<Rightarrow>
          (case mergeResource serviceName of
             Inl err \<Rightarrow> (Inl (''failed to create resource: '' @ err), g)
           | Inr res \<Rightarrow>
               (Inr (exporter, res),
                g\<lparr>otel_provider := Some (exporter, res), otel_propagators := [TraceContext, Baggage]\<rparr>)))"

section \<open>The server\<close>

record cacheService =
  redis_Addr :: string
  cache_cfg :: Config
  cache_metrics :: metrics

text \<open>
  \<open>NewService\<close>, with what it prints: an error of \<open>redisotel.InstrumentTracing\<close> is not returned.
\<close>

definition NewService :: "string option \<Rightarrow> Config \<Rightarrow> metrics \<Rightarrow> cacheService \<times> string" where
  "NewService instrumentErr cfg m =
     (\<lparr>redis_Addr = RedisAddr cfg, cache_cfg = cfg, cache_metrics = m\<rparr>,
      case instrumentErr of None \<Rightarrow> [] | Some err \<Rightarrow> ''failed to instrument redis tracing: '' @ err @ [newline])"

record httpClient =
  client_Timeout :: duration
  span_Name :: "string \<Rightarrow> string \<Rightarrow> string"  \<comment> \<open>of the method and the host of a request\<close>

record server =
  srv_cfg :: Config
  srv_cache :: cacheService
  srv_upstream :: manager
  srv_client :: httpClient
  srv_metrics :: metrics

text \<open>
  \<open>NewServer\<close>: the server, whether the health loop runs, what is printed, and the registry;
  \<open>None\<close> for a panic.
\<close>

definition NewServer :: "(collector list \<Rightarrow> 'reg \<Rightarrow> 'reg option) \<Rightarrow> string option \<Rightarrow> Config \<Rightarrow> 'reg \<Rightarrow>
    (server \<times> bool \<times> string \<times> 'reg) option" where
  "NewServer MustRegister instrumentErr cfg reg =
     (case NewMetrics MustRegister reg of
        None \<Rightarrow> None
      | Some (m, reg') \<Rightarrow>
          (let client = \<lparr>client_Timeout = UpstreamTimeout cfg, span_Name = (\<lambda>verb host. ''upstream '' @ verb @ '' '' @ host)\<rparr>;
               (cache, printed) = NewService instrumentErr cfg m;
               (upstream, healthLoop) = NewManager cfg
           in Some (\<lparr>srv_cfg = cfg, srv_cache = cache, srv_upstream = upstream, srv_client = client, srv_metrics = m\<rparr>,
                healthLoop, printed, reg')))"

section \<open>What Prometheus accepts\<close>

text \<open>
  The documented conditions under which building and registering collectors does not panic:
  distinct names, and buckets in strictly increasing order; and under which \<open>WithLabelValues\<close>
  does not: one value for each label.
\<close>

fun increasing :: "rat list \<Rightarrow> bool" where
  "increasing (a # b # xs) \<longleftrightarrow> a < b \<and> increasing (b # xs)"
| "increasing xs \<longleftrightarrow> True"

fun bucketsOk :: "collector \<Rightarrow> bool" where
  "bucketsOk (CounterVec name help labels) \<longleftrightarrow> True"
| "bucketsOk (HistogramVec name help buckets labels) \<longleftrightarrow> increasing buckets"

definition acceptable :: "collector list \<Rightarrow> bool" where
  "acceptable cs \<longleftrightarrow> distinct (map collectorName cs) \<and> list_all bucketsOk cs"

definition registers :: "(collector list \<Rightarrow> 'reg \<Rightarrow> 'reg option) \<Rightarrow> 'reg \<Rightarrow> bool" where
  "registers MustRegister reg \<longleftrightarrow> (\<forall>cs. acceptable cs \<longrightarrow> MustRegister cs reg \<noteq> None)"

lemma NewMetrics_acceptable:
  assumes "registers MustRegister reg"
  shows "\<exists>m reg'. NewMetrics MustRegister reg = Some (m, reg')"
proof -
  have "acceptable [CounterVec ''influx_gateway_cache_results_total'' h l,
      HistogramVec ''influx_gateway_redis_latency_seconds'' h'
        [5 / 10000, 1 / 1000, 2 / 1000, 5 / 1000, 1 / 100, 25 / 1000, 5 / 100, 1 / 10, 25 / 100] l',
      HistogramVec ''influx_gateway_upstream_latency_seconds'' h''
        [5 / 1000, 1 / 100, 25 / 1000, 5 / 100, 1 / 10, 25 / 100, 5 / 10, 1, 25 / 10, 5, 10, 30, 60] l'']" for h l h' l' h'' l''
    by (simp add: acceptable_def)
  with assms show ?thesis by (auto simp: registers_def NewMetrics_def Let_def)
qed

text \<open>Every observation of the gateway has one value for each label of its vector.\<close>

lemma sample_labels:
  assumes "NewMetrics MustRegister reg = Some (m, reg')" and "sample m ev = Some (c, vals, x)"
  shows "length vals = length (collectorLabels c) \<and> c \<in> {m_cacheResults m, m_redisLatency m, m_upLatency m}"
  using assms by (cases ev) (auto simp: NewMetrics_def Let_def)

text \<open>\<open>NewServer\<close> only wires its parts together.\<close>

lemma NewServer_parts:
  assumes "NewServer MustRegister instrumentErr cfg reg = Some (srv, healthLoop, printed, reg')"
  shows "srv_cfg srv = cfg" "cache_cfg (srv_cache srv) = cfg" "redis_Addr (srv_cache srv) = RedisAddr cfg"
    "(srv_upstream srv, healthLoop) = NewManager cfg" "client_Timeout (srv_client srv) = UpstreamTimeout cfg"
    "cache_metrics (srv_cache srv) = srv_metrics srv" "NewMetrics MustRegister reg = Some (srv_metrics srv, reg')"
  using assms by (auto simp: NewServer_def NewService_def Let_def split: option.splits prod.splits)

lemma NewServer_acceptable:
  assumes "registers MustRegister reg"
  shows "\<exists>srv printed reg'. NewServer MustRegister instrumentErr cfg reg = Some (srv, snd (NewManager cfg), printed, reg')"
  using NewMetrics_acceptable [OF assms]
  by (auto simp: NewServer_def Let_def split: prod.splits)

end
