(* ===== verification/GatewayMain.thy ===== *)
theory GatewayMain
  imports Assembly
begin

text \<open>
  \<open>cmd/influx-gateway/main.go\<close>: the process from reading its environment variables to its end, over
  everything it serves in between.
\<close>

section \<open>The process\<close>

text \<open>What \<open>main\<close> gets from outside, besides the environment of the gateway.\<close>

record ('p, 'r, 'reg) platform =
  os_Getenv :: "string \<Rightarrow> string"
  stdouttrace_New :: "string + 'p"
  resource_Merge :: "string \<Rightarrow> string + 'r"
  globalOtel :: "('p, 'r) otel"
  MustRegister :: "collector list \<Rightarrow> 'reg \<Rightarrow> 'reg option"
  DefaultRegisterer :: 'reg
  instrumentErr :: "string option"
  shutdownErr :: "'p \<times> 'r \<Rightarrow> string option"
  listenErr :: "string option"

datatype main_log =
    LoadConfigFailed config_error | InitTracerFailed string | Printed string | ListeningOn string
  | ServerFailed string | ShutdownFailed string

record mainOutcome =
  exit_status :: int
  main_logs :: "main_log list"
  shutdown_run :: bool
  outs :: "served list"

text \<open>\<open>NewManager\<close> starts the health loop only for a positive interval.\<close>

fun happening :: "bool \<Rightarrow> input \<Rightarrow> bool" where
  "happening healthLoop (Request r) = True"
| "happening healthLoop HealthTick = healthLoop"

text \<open>The deferred shutdown of the tracer: whether there is one, and what it logs.\<close>

definition deferred :: "('p, 'r, 'reg) platform \<Rightarrow> string + 'p \<times> 'r \<Rightarrow> bool \<times> main_log list" where
  "deferred P tracer =
     (case tracer of
        Inl err \<Rightarrow> (False, [])
      | Inr tp \<Rightarrow> (True, case shutdownErr P tp of None \<Rightarrow> [] | Some err \<Rightarrow> [ShutdownFailed err]))"

text \<open>The end of \<open>main\<close>: \<open>os.Exit\<close> does not run deferred functions, a return or a panic does.\<close>

definition mainEnd :: "('p, 'r, 'reg) platform \<Rightarrow> string + 'p \<times> 'r \<Rightarrow> main_log list \<Rightarrow> served list \<Rightarrow> mainOutcome" where
  "mainEnd P tracer logs served =
     (case listenErr P of
        Some err \<Rightarrow> \<lparr>exit_status = 1, main_logs = logs @ [ServerFailed err], shutdown_run = False, outs = served\<rparr>
      | None \<Rightarrow>
          \<lparr>exit_status = 0, main_logs = logs @ snd (deferred P tracer), shutdown_run = fst (deferred P tracer), outs = served\<rparr>)"

definition gatewayMain :: "('p, 'r, 'reg) platform \<Rightarrow> (in_request \<Rightarrow> ('e, 'x, handled) gwio) \<Rightarrow> 'e env \<Rightarrow> input list \<Rightarrow>
    ('e, 'x, mainOutcome) gwio" where
  "gatewayMain P promhttp env inputs =
     (case LoadConfig (os_Getenv P) of
        Inl err \<Rightarrow> State_Monad.return \<lparr>exit_status = 1, main_logs = [LoadConfigFailed err], shutdown_run = False, outs = []\<rparr>
      | Inr cfg \<Rightarrow>
          (let tracer = fst (InitTracer (stdouttrace_New P) (resource_Merge P) ''influx-gateway'' (globalOtel P));
               logs = (case tracer of Inl err \<Rightarrow> [InitTracerFailed err] | Inr tp \<Rightarrow> [])
           in case NewServer (MustRegister P) (instrumentErr P) cfg (DefaultRegisterer P) of
                None \<Rightarrow> State_Monad.return
                  \<lparr>exit_status = 2, main_logs = logs @ snd (deferred P tracer), shutdown_run = fst (deferred P tracer), outs = []\<rparr>
              | Some (srv, healthLoop, printed, reg) \<Rightarrow> do {
                  let logs = logs @ (if printed = [] then [] else [Printed printed]) @ [ListeningOn (HTTPAddr cfg)];
                  modify_mgr (\<lambda>_. srv_upstream srv);
                  served \<leftarrow> serve promhttp env (srv_cfg srv) (filter (happening healthLoop) inputs);
                  State_Monad.return (mainEnd P tracer logs served)
                }))"

section \<open>Claims\<close>


text \<open>A configuration with one target, which is down.\<close>

definition exampleEnvironment :: "string \<Rightarrow> string" where
  "exampleEnvironment key =
     (if key = ''GATEWAY_TOKEN'' then ''secret''
      else if key = ''TARGETS_JSON'' then
        ''[{'' @ [CHR 0x22] @ ''name'' @ [CHR 0x22] @ '':'' @ [CHR 0x22] @ ''a'' @ [CHR 0x22] @ '','' @
        [CHR 0x22] @ ''url'' @ [CHR 0x22] @ '':'' @ [CHR 0x22] @ ''http://a:8086'' @ [CHR 0x22] @ ''}]''
      else [])"

text \<open>A platform on which every registration succeeds and tracing does not start.\<close>

definition examplePlatform :: "(unit, unit, collector list) platform" where
  "examplePlatform = \<lparr>os_Getenv = exampleEnvironment, stdouttrace_New = Inr (), resource_Merge = (\<lambda>name. Inl ''conflict''),
     globalOtel = \<lparr>otel_provider = None, otel_propagators = []\<rparr>,
     MustRegister = (\<lambda>cs reg. if distinct (map collectorName (cs @ reg)) \<and> list_all bucketsOk cs then Some (cs @ reg) else None),
     DefaultRegisterer = [], instrumentErr = None, shutdownErr = (\<lambda>tp. None), listenErr = Some ''closed''\<rparr>"


end
