(* ===== verification/Loadgen.thy ===== *)
theory Loadgen
  imports World GoUrl
begin

text \<open>
  \<open>cmd/loadgen/main.go\<close>: the targets of the command line, the plan of the batches, writing a
  batch to all targets with retries, and the workers that share the plan. The contents of a
  point (\<open>generatePoint\<close>, floating-point numbers and their formatting) are an argument of
  \<open>generateBatch\<close>; the log entries of the workers are left out.
\<close>

section \<open>Targets\<close>

record targetCfg =
  tName :: string
  tURL :: string

datatype parse_error = InvalidEntry string | BadScheme string

text \<open>Name and address of an entry, \<open>name=url\<close> or only a URL.\<close>

definition entryParts :: "int \<Rightarrow> string \<Rightarrow> string \<times> string" where
  "entryParts i p =
     (if Contains p ''=''
      then (case cut_at (CHR ''='') p of (a, b) \<Rightarrow> (TrimSpace a, TrimSpace b))
      else (''target-'' @ Itoa (i + 1), p))"

text \<open>The body of the loop for the entry at index \<open>i\<close>: \<open>None\<close> skips it.\<close>

definition parseEntry :: "int \<Rightarrow> string \<Rightarrow> (parse_error + targetCfg) option" where
  "parseEntry i p =
     (let p = TrimSpace p
      in if p = [] then None
         else
           (case entryParts i p of (name, addr) \<Rightarrow>
              if name = [] \<or> addr = [] then Some (Inl (InvalidEntry p))
              else if \<not> HasPrefix addr ''http://'' \<and> \<not> HasPrefix addr ''https://'' then Some (Inl (BadScheme name))
              else Some (Inr \<lparr>tName = name, tURL = TrimRight addr ''/''\<rparr>)))"

fun parseEntries :: "int \<Rightarrow> string list \<Rightarrow> parse_error + targetCfg list" where
  "parseEntries i [] = Inr []"
| "parseEntries i (p # ps) =
     (case parseEntry i p of
        None \<Rightarrow> parseEntries (i + 1) ps
      | Some (Inl err) \<Rightarrow> Inl err
      | Some (Inr t) \<Rightarrow> (case parseEntries (i + 1) ps of Inl err \<Rightarrow> Inl err | Inr ts \<Rightarrow> Inr (t # ts)))"

definition parseTargets :: "string \<Rightarrow> parse_error + targetCfg list" where
  "parseTargets raw_targets = parseEntries 0 (Split (CHR '','') (TrimSpace raw_targets))"

text \<open>The map \<open>writeURLs\<close> of \<open>main\<close>; a URL that cannot be joined ends the program.\<close>

fun writeURLsFrom :: "'e env \<Rightarrow> string \<Rightarrow> string \<Rightarrow> (string \<rightharpoonup> string) \<Rightarrow> targetCfg list \<Rightarrow> string + (string \<rightharpoonup> string)" where
  "writeURLsFrom env org bucket m [] = Inr m"
| "writeURLsFrom env org bucket m (t # ts) =
     (case url_JoinPath env (tURL t) ''/api/v2/write'' of
        Inl err \<Rightarrow> Inl (''target '' @ tName t @ '' bad url: '' @ err)
      | Inr u \<Rightarrow>
          writeURLsFrom env org bucket
            (m(tName t \<mapsto> u @ ''?org='' @ QueryEscape org @ ''&bucket='' @ QueryEscape bucket @ ''&precision=ns'')) ts)"

section \<open>Batches\<close>

record batchJob =
  job_id :: int
  job_size :: int

text \<open>
  The loop of \<open>planJobs\<close>: the jobs in the order in which they are put into the channel.
  \<open>None\<close>: the loop does not end.
\<close>

partial_function (option) planFrom :: "int \<Rightarrow> int \<Rightarrow> int \<Rightarrow> int \<Rightarrow> batchJob list option" where
  "planFrom totalBytes maxBatch sent i =
     (if sent < totalBytes then
        (let rem = wrap64 (totalBytes - sent);
             size = (if rem < maxBatch then rem else maxBatch)
         in Option.bind (planFrom totalBytes maxBatch (wrap64 (sent + size)) (wrap64 (i + 1)))
              (\<lambda>jobs. Some (\<lparr>job_id = i, job_size = size\<rparr> # jobs)))
      else Some [])"

declare planFrom.simps [code]

definition planJobs :: "int \<Rightarrow> int \<Rightarrow> batchJob list option" where
  "planJobs totalBytes maxBatch = planFrom totalBytes maxBatch 0 0"

text \<open>The loop of \<open>generateBatch\<close>, with the generator of points as an argument.\<close>

function fillBatch :: "('r \<Rightarrow> string \<times> 'r) \<Rightarrow> int \<Rightarrow> string \<Rightarrow> 'r \<Rightarrow> string" where
  "fillBatch generatePoint targetBytes b rng =
     (if int (length b) < targetBytes
      then (case generatePoint rng of (p, rng') \<Rightarrow> fillBatch generatePoint targetBytes (b @ p @ [newline]) rng')
      else b)"
  by pat_completeness auto
termination
  by (relation "measure (\<lambda>(g, n, b, r). nat (n - int (length b)))") auto

definition generateBatch :: "(int \<Rightarrow> 'r) \<Rightarrow> ('r \<Rightarrow> string \<times> 'r) \<Rightarrow> int \<Rightarrow> int \<Rightarrow> string" where
  "generateBatch newRand generatePoint seed targetBytes = fillBatch generatePoint targetBytes [] (newRand seed)"

definition escapeTag :: "string \<Rightarrow> string" where
  "escapeTag s =
     (let s = ReplaceAll s (CHR '','') [CHR 0x5C, CHR '','']; s = ReplaceAll s (CHR '' '') [CHR 0x5C, CHR '' '']
      in ReplaceAll s (CHR ''='') [CHR 0x5C, CHR ''=''])"

section \<open>Writing\<close>

text \<open>Errors: a string, a \<open>writeError\<close>, or one wrapped by \<open>fmt.Errorf("target=%s: %w", ...)\<close>.\<close>

datatype go_error = Plain string | WriteError int string | TargetError string go_error

fun errorString :: "go_error \<Rightarrow> string" where
  "errorString (Plain msg) = msg"
| "errorString (WriteError status body) = ''status='' @ Itoa status @ '' body='' @ body"
| "errorString (TargetError name e) = ''target='' @ name @ '': '' @ errorString e"

text \<open>\<open>errors.As(err, &werr)\<close>.\<close>

fun asWriteError :: "go_error \<Rightarrow> (int \<times> string) option" where
  "asWriteError (Plain msg) = None"
| "asWriteError (WriteError status body) = Some (status, body)"
| "asWriteError (TargetError name e) = asWriteError e"

definition isRetryable :: "go_error option \<Rightarrow> bool" where
  "isRetryable err =
     (case err of
        None \<Rightarrow> False
      | Some e \<Rightarrow>
          (case asWriteError e of
             Some (status, body) \<Rightarrow>
               if status \<ge> 500 then True
               else (let msg = ToLower body
                     in Contains msg ''cache-max-memory-size exceeded'' \<or> Contains msg ''timeout'' \<or> Contains msg ''temporar'')
           | None \<Rightarrow>
               (let msg = ToLower (errorString e) in Contains msg ''timeout'' \<or> Contains msg ''temporar'')))"

text \<open>A response whose body cannot be read counts as one without a body.\<close>

definition writeBatch :: "'e env \<Rightarrow> string \<Rightarrow> string \<Rightarrow> string \<Rightarrow> ('e, 'x, go_error option) io" where
  "writeBatch env writeURL token body =
     (case http_NewRequest env ''POST'' writeURL of
        Some err \<Rightarrow> State_Monad.return (Some (Plain err))
      | None \<Rightarrow> do {
          let req = \<lparr>rq_method = ''POST'', rq_url = writeURL,
            rq_header = hdr_Set ''Content-Type'' ''text/plain; charset=utf-8''
              (hdr_Set ''Authorization'' (''Token '' @ token) []),
            rq_body = body\<rparr>;
          resp \<leftarrow> client_Do env req;
          State_Monad.return
            (case resp of
               Inl err \<Rightarrow> Some (Plain err)
             | Inr resp \<Rightarrow>
                 if rs_status resp \<noteq> 204
                 then Some (WriteError (rs_status resp)
                   (TrimSpace (take 4096 (case rs_body resp of Inl err \<Rightarrow> [] | Inr b \<Rightarrow> b))))
                 else None)
        })"

text \<open>The errors in the order in which the goroutines put them into the channel.\<close>

primrec writeEach :: "'e env \<Rightarrow> (string \<rightharpoonup> string) \<Rightarrow> string \<Rightarrow> string \<Rightarrow> targetCfg list \<Rightarrow> ('e, 'x, go_error list) io" where
  "writeEach env writeURLs token batch [] = State_Monad.return []"
| "writeEach env writeURLs token batch (t # ts) = do {
     err \<leftarrow> writeBatch env (case writeURLs (tName t) of None \<Rightarrow> [] | Some u \<Rightarrow> u) token batch;
     errs \<leftarrow> writeEach env writeURLs token batch ts;
     State_Monad.return (case err of None \<Rightarrow> errs | Some e \<Rightarrow> TargetError (tName t) e # errs)
   }"

text \<open>
  The goroutines finish in any order: \<open>order\<close> is the scheduler's choice, which may depend on
  the state of the environment.
\<close>

definition writeBatchToAll :: "('e \<Rightarrow> targetCfg list \<Rightarrow> targetCfg list) \<Rightarrow> 'e env \<Rightarrow> targetCfg list \<Rightarrow>
    (string \<rightharpoonup> string) \<Rightarrow> string \<Rightarrow> string \<Rightarrow> ('e, 'x, go_error option) io" where
  "writeBatchToAll order env targets writeURLs token batch = do {
     ts \<leftarrow> external (\<lambda>e. (order e targets, e));
     errs \<leftarrow> writeEach env writeURLs token batch ts;
     State_Monad.return (case errs of [] \<Rightarrow> None | e # _ \<Rightarrow> Some e)
   }"

text \<open>
  The loop over the attempts of one batch: the first argument is the number of retries left,
  \<open>maxRetries - attempt\<close>. It ends with \<open>None\<close> (written) or with the error that ends the worker.
\<close>

primrec writeAttempts :: "nat \<Rightarrow> int \<Rightarrow> duration \<Rightarrow> ('e, 'x, go_error option) io \<Rightarrow> ('e, 'x, go_error option) io" where
  "writeAttempts 0 attempt retryBackoff write = write"
| "writeAttempts (Suc left) attempt retryBackoff write = do {
     err \<leftarrow> write;
     if isRetryable err then do {
       time_Sleep (wrap64 (retryBackoff + wrap64 (attempt * 150 * millisecond)));
       writeAttempts left (attempt + 1) retryBackoff write
     }
     else State_Monad.return err
   }"

definition uploadBatch :: "int \<Rightarrow> duration \<Rightarrow> duration \<Rightarrow> ('e, 'x, go_error option) io \<Rightarrow> ('e, 'x, go_error option) io" where
  "uploadBatch maxRetries retryBackoff batchSleep write = do {
     err \<leftarrow> writeAttempts (nat maxRetries) 0 retryBackoff write;
     if err = None \<and> batchSleep > 0 then do { time_Sleep batchSleep; State_Monad.return err }
     else State_Monad.return err
   }"

section \<open>Workers\<close>

text \<open>
  Where a worker is in its loop: waiting for a job, about to look at \<open>firstErr\<close>, uploading, about
  to count the job after having counted its bytes, about to store its error after having seen
  that there is none, or returned.
\<close>

datatype worker = Idle | Received batchJob | Busy batchJob | Counting | Failing batchJob go_error | Stopped

record load =
  queue :: "batchJob list"
  workers :: "worker list"
  firstErr :: "go_error option"
  bytesSent :: int
  jobsDone :: int

text \<open>
  One atomic operation of one worker: receiving from the channel (closed when the plan is used
  up), loading or storing \<open>firstErr\<close>, the end of an upload, and adding to a counter. The steps of
  different workers interleave in any order, so two workers may both find no error and both
  store theirs.
\<close>

inductive loadStep :: "(batchJob \<Rightarrow> string) \<Rightarrow> load \<Rightarrow> load \<Rightarrow> bool" for batch where
  receive: "queue l = j # js \<Longrightarrow> i < length (workers l) \<Longrightarrow> workers l ! i = Idle \<Longrightarrow>
    loadStep batch l (l\<lparr>queue := js, workers := (workers l)[i := Received j]\<rparr>)"
| finish: "queue l = [] \<Longrightarrow> i < length (workers l) \<Longrightarrow> workers l ! i = Idle \<Longrightarrow>
    loadStep batch l (l\<lparr>workers := (workers l)[i := Stopped]\<rparr>)"
| upload: "i < length (workers l) \<Longrightarrow> workers l ! i = Received j \<Longrightarrow> firstErr l = None \<Longrightarrow>
    loadStep batch l (l\<lparr>workers := (workers l)[i := Busy j]\<rparr>)"
| quit: "i < length (workers l) \<Longrightarrow> workers l ! i = Received j \<Longrightarrow> firstErr l \<noteq> None \<Longrightarrow>
    loadStep batch l (l\<lparr>workers := (workers l)[i := Stopped]\<rparr>)"
| written: "i < length (workers l) \<Longrightarrow> workers l ! i = Busy j \<Longrightarrow>
    loadStep batch l (l\<lparr>workers := (workers l)[i := Counting], bytesSent := wrap64 (bytesSent l + int (length (batch j)))\<rparr>)"
| counted: "i < length (workers l) \<Longrightarrow> workers l ! i = Counting \<Longrightarrow>
    loadStep batch l (l\<lparr>workers := (workers l)[i := Idle], jobsDone := wrap64 (jobsDone l + 1)\<rparr>)"
| failed: "i < length (workers l) \<Longrightarrow> workers l ! i = Busy j \<Longrightarrow> firstErr l = None \<Longrightarrow>
    loadStep batch l (l\<lparr>workers := (workers l)[i := Failing j err]\<rparr>)"
| record_err: "i < length (workers l) \<Longrightarrow> workers l ! i = Failing j err \<Longrightarrow>
    loadStep batch l (l\<lparr>workers := (workers l)[i := Stopped], firstErr := Some err\<rparr>)"
| failed_later: "i < length (workers l) \<Longrightarrow> workers l ! i = Busy j \<Longrightarrow> firstErr l \<noteq> None \<Longrightarrow>
    loadStep batch l (l\<lparr>workers := (workers l)[i := Stopped]\<rparr>)"

inductive_cases loadStepE: "loadStep batch l l'"

definition startLoad :: "batchJob list \<Rightarrow> int \<Rightarrow> load" where
  "startLoad jobs n =
     \<lparr>queue = jobs, workers = replicate (nat (if n < 1 then 1 else n)) Idle, firstErr = None, bytesSent = 0, jobsDone = 0\<rparr>"

definition allStopped :: "load \<Rightarrow> bool" where
  "allStopped l \<longleftrightarrow> list_all (\<lambda>w. w = Stopped) (workers l)"

section \<open>Starting\<close>

text \<open>
  The flags; those for retries and pauses are arguments of \<open>uploadBatch\<close>, and \<open>viz-ratio\<close> of
  \<open>generatePoint\<close>.
\<close>

record flags =
  targetsRaw :: string
  org_flag :: string
  bucket_flag :: string
  token_flag :: string
  targetBytes_flag :: int
  workers_flag :: int
  maxBatchB_flag :: int
  reportPeriod_flag :: duration
  seed_flag :: int

datatype fatal = TokenRequired | BadTargetBytes | InvalidTargets parse_error | NoTargets | BadURL string

text \<open>
  \<open>main\<close> up to the start of the workers: the targets, their URLs, and the numbers of bytes per
  batch and of workers, raised to their minima.
\<close>

definition startup :: "'e env \<Rightarrow> flags \<Rightarrow> fatal + targetCfg list \<times> (string \<rightharpoonup> string) \<times> int \<times> int" where
  "startup env fl =
     (if token_flag fl = [] then Inl TokenRequired
      else
        (let workers = (if workers_flag fl < 1 then 1 else workers_flag fl);
             maxBatchB = (if maxBatchB_flag fl < 65536 then 65536 else maxBatchB_flag fl)
         in if targetBytes_flag fl \<le> 0 then Inl BadTargetBytes
            else
              (case parseTargets (targetsRaw fl) of
                 Inl err \<Rightarrow> Inl (InvalidTargets err)
               | Inr targets \<Rightarrow>
                   if targets = [] then Inl NoTargets
                   else
                     (case writeURLsFrom env (org_flag fl) (bucket_flag fl) Map.empty targets of
                        Inl err \<Rightarrow> Inl (BadURL err)
                      | Inr urls \<Rightarrow> Inr (targets, urls, maxBatchB, workers)))))"

section \<open>Plans and batches\<close>

lemma planFrom_total:
  assumes "0 < maxBatch" and "totalBytes \<le> max_int64"
  shows "0 \<le> i \<Longrightarrow> i \<le> sent \<Longrightarrow> sent \<le> totalBytes \<Longrightarrow>
    \<exists>jobs. planFrom totalBytes maxBatch sent i = Some jobs \<and> sum_list (map job_size jobs) = totalBytes - sent \<and>
      list_all (\<lambda>j. 0 < job_size j \<and> job_size j \<le> maxBatch) jobs \<and>
      map job_id jobs = map (\<lambda>k. i + int k) [0..<length jobs] \<and>
      int (length jobs) * maxBatch < totalBytes - sent + maxBatch"
proof (induction "nat (totalBytes - sent)" arbitrary: sent i rule: less_induct)
  case less
  show ?case
  proof (cases "sent < totalBytes")
    case False
    with less.prems assms show ?thesis by (simp add: planFrom.simps)
  next
    case True
    define size where "size = (if totalBytes - sent < maxBatch then totalBytes - sent else maxBatch)"
    have size: "0 < size" "size \<le> maxBatch" "sent + size \<le> totalBytes"
      and last: "size < maxBatch \<Longrightarrow> sent + size = totalBytes"
      using True assms(1) by (auto simp: size_def)
    have w: "wrap64 (totalBytes - sent) = totalBytes - sent" "wrap64 (sent + size) = sent + size" "wrap64 (i + 1) = i + 1"
      using less.prems True size assms(2) by (auto simp: in_int64_def intro!: wrap64_id)
    have "\<exists>jobs. planFrom totalBytes maxBatch (sent + size) (i + 1) = Some jobs \<and>
        sum_list (map job_size jobs) = totalBytes - (sent + size) \<and>
        list_all (\<lambda>j. 0 < job_size j \<and> job_size j \<le> maxBatch) jobs \<and>
        map job_id jobs = map (\<lambda>k. i + 1 + int k) [0..<length jobs] \<and>
        int (length jobs) * maxBatch < totalBytes - (sent + size) + maxBatch"
      using less.prems True size by (intro less.hyps) auto
    then obtain jobs where j: "planFrom totalBytes maxBatch (sent + size) (i + 1) = Some jobs"
      "sum_list (map job_size jobs) = totalBytes - (sent + size)"
      "list_all (\<lambda>j. 0 < job_size j \<and> job_size j \<le> maxBatch) jobs"
      "map job_id jobs = map (\<lambda>k. i + 1 + int k) [0..<length jobs]"
      "int (length jobs) * maxBatch < totalBytes - (sent + size) + maxBatch" by blast
    have len: "int (Suc (length jobs)) * maxBatch < totalBytes - sent + maxBatch"
    proof (cases "size = maxBatch")
      case True
      with j(5) show ?thesis by (simp add: algebra_simps)
    next
      case False
      then have "sent + size = totalBytes" using size last by simp
      with j(5) have "int (length jobs) * maxBatch < 1 * maxBatch" by simp
      then have "length jobs = 0" using assms(1) by (simp only: mult_less_cancel_right) linarith
      with size True show ?thesis by simp
    qed
    have "planFrom totalBytes maxBatch sent i = Some (\<lparr>job_id = i, job_size = size\<rparr> # jobs)"
      using True w j(1) by (subst planFrom.simps) (simp add: Let_def size_def [symmetric])
    moreover have "map job_id (\<lparr>job_id = i, job_size = size\<rparr> # jobs) = map (\<lambda>k. i + int k) [0..<length (\<lparr>job_id = i, job_size = size\<rparr> # jobs)]"
      using j(4) by (simp add: upt_conv_Cons map_Suc_upt [symmetric] comp_def algebra_simps del: upt_Suc)
    ultimately show ?thesis
      using j(2,3) size len by (intro exI [of _ "\<lparr>job_id = i, job_size = size\<rparr> # jobs"]) simp
  qed
qed

declare fillBatch.simps [simp del]

lemma fillBatch_length: "targetBytes \<le> int (length (fillBatch generatePoint targetBytes b rng))"
proof (induction generatePoint targetBytes b rng rule: fillBatch.induct)
  case (1 generatePoint targetBytes b rng)
  then show ?case
    by (subst fillBatch.simps) (auto split: prod.splits)
qed

lemma ReplaceAll_append: "ReplaceAll (s @ t) c new = ReplaceAll s c new @ ReplaceAll t c new"
  by (simp add: ReplaceAll_def)

lemma ReplaceAll_Cons: "ReplaceAll (x # s) c new = (if x = c then new else [x]) @ ReplaceAll s c new"
  by (simp add: ReplaceAll_def)

lemma ReplaceAll_Nil [simp]: "ReplaceAll [] c new = []"
  by (simp add: ReplaceAll_def)

definition tagSpecial :: "char \<Rightarrow> bool" where
  "tagSpecial c \<longleftrightarrow> c \<in> set '', =''"

text \<open>The three passes in one.\<close>

lemma escapeTag_Cons:
  "escapeTag [] = []" "escapeTag (c # s) = (if tagSpecial c then [CHR 0x5C, c] else [c]) @ escapeTag s"
  by (simp_all add: escapeTag_def Let_def ReplaceAll_Cons ReplaceAll_append tagSpecial_def)

text \<open>Line protocol: a backslash before a special character is dropped.\<close>

fun unescapeTag :: "string \<Rightarrow> string" where
  "unescapeTag (c # d # s) = (if c = CHR 0x5C \<and> tagSpecial d then d # unescapeTag s else c # unescapeTag (d # s))"
| "unescapeTag s = s"

lemma unescape_escapeTag: "unescapeTag (escapeTag s) = s"
proof (induction s)
  case (Cons c s)
  have "tagSpecial (CHR 0x5C) = False" by code_simp
  show ?case
  proof (cases "tagSpecial c")
    case True
    with Cons show ?thesis by (simp add: escapeTag_Cons)
  next
    case False
    obtain d t where "escapeTag s = [] \<or> escapeTag s = d # t" by (cases "escapeTag s") auto
    moreover have "\<not> tagSpecial d" if "escapeTag s = d # t" for d t
      using that \<open>tagSpecial (CHR 0x5C) = False\<close> by (cases s) (auto simp: escapeTag_Cons split: if_splits)
    ultimately show ?thesis using False Cons by (auto simp: escapeTag_Cons)
  qed
qed (simp add: escapeTag_Cons)

section \<open>Writes\<close>

definition writeRequest :: "string \<Rightarrow> string \<Rightarrow> string \<Rightarrow> http_request" where
  "writeRequest url token body =
     \<lparr>rq_method = ''POST'', rq_url = url,
      rq_header = hdr_Set ''Content-Type'' ''text/plain; charset=utf-8'' (hdr_Set ''Authorization'' (''Token '' @ token) []),
      rq_body = body\<rparr>"

definition urlOf :: "(string \<rightharpoonup> string) \<Rightarrow> targetCfg \<Rightarrow> string" where
  "urlOf writeURLs t = (case writeURLs (tName t) of None \<Rightarrow> [] | Some u \<Rightarrow> u)"

text \<open>A target accepted the batch, among the events.\<close>

definition accepted :: "string \<Rightarrow> string \<Rightarrow> string \<Rightarrow> event list \<Rightarrow> bool" where
  "accepted url token batch evs \<longleftrightarrow> (\<exists>resp. HttpDo (writeRequest url token batch) (Inr resp) \<in> set evs \<and> rs_status resp = 204)"

lemma accepted_append [simp]:
  "accepted url token batch (evs @ evs') \<longleftrightarrow> accepted url token batch evs \<or> accepted url token batch evs'"
  unfolding accepted_def by auto

lemma run_writeBatch:
  assumes "run_state (writeBatch env url token batch) s = (err, s')"
  shows "clk s' = clk s \<and> (\<exists>evs. trace s' = trace s @ evs \<and> length evs \<le> 1 \<and> (err = None \<longrightarrow> accepted url token batch evs))"
  using assms
  by (fastforce simp: writeBatch_def writeRequest_def accepted_def run_client_Do split: option.splits sum.splits if_splits)

lemma run_writeEach:
  "run_state (writeEach env writeURLs token batch ts) s = (errs, s') \<Longrightarrow>
     clk s' = clk s \<and> (\<exists>evs. trace s' = trace s @ evs \<and> length evs \<le> length ts \<and>
       (errs = [] \<longrightarrow> (\<forall>t \<in> set ts. accepted (urlOf writeURLs t) token batch evs)))"
proof (induction ts arbitrary: s errs s')
  case (Cons t ts)
  obtain err s1 where w: "run_state (writeBatch env (urlOf writeURLs t) token batch) s = (err, s1)"
    by (cases "run_state (writeBatch env (urlOf writeURLs t) token batch) s")
  obtain errs' s2 where e: "run_state (writeEach env writeURLs token batch ts) s1 = (errs', s2)"
    by (cases "run_state (writeEach env writeURLs token batch ts) s1")
  have r: "s' = s2" "errs = (case err of None \<Rightarrow> errs' | Some e \<Rightarrow> TargetError (tName t) e # errs')"
    using Cons.prems w e by (simp_all add: urlOf_def)
  obtain e1 where e1: "clk s1 = clk s" "trace s1 = trace s @ e1" "length e1 \<le> 1" "err = None \<Longrightarrow> accepted (urlOf writeURLs t) token batch e1"
    using run_writeBatch [OF w] by blast
  obtain e2 where e2: "clk s2 = clk s1" "trace s2 = trace s1 @ e2" "length e2 \<le> length ts"
    "errs' = [] \<Longrightarrow> \<forall>t \<in> set ts. accepted (urlOf writeURLs t) token batch e2"
    using Cons.IH [OF e] by blast
  have "\<forall>t' \<in> set (t # ts). accepted (urlOf writeURLs t') token batch (e1 @ e2)" if "errs = []"
  proof -
    have "err = None" "errs' = []" using that r(2) by (auto split: option.splits)
    with e1(4) e2(4) show ?thesis by auto
  qed
  with e1 e2 r show ?case by (intro conjI exI [of _ "e1 @ e2"]) auto
qed simp

text \<open>The scheduler runs every goroutine once.\<close>

definition fair_order :: "('e \<Rightarrow> targetCfg list \<Rightarrow> targetCfg list) \<Rightarrow> bool" where
  "fair_order order \<longleftrightarrow> (\<forall>e ts. mset (order e ts) = mset ts)"

lemma run_writeBatchToAll:
  assumes "fair_order order" and "run_state (writeBatchToAll order env targets writeURLs token batch) s = (err, s')"
  shows "clk s' = clk s \<and> (\<exists>evs. trace s' = trace s @ evs \<and> length evs \<le> length targets \<and>
    (err = None \<longrightarrow> (\<forall>t \<in> set targets. accepted (urlOf writeURLs t) token batch evs)))"
proof -
  define ts where "ts = order (ext s) targets"
  have ts: "set ts = set targets" "length ts = length targets"
    using assms(1) unfolding fair_order_def ts_def by (metis set_mset_mset, metis size_mset)
  obtain errs where "run_state (writeEach env writeURLs token batch ts) s = (errs, s')"
    "err = (case errs of [] \<Rightarrow> None | e # _ \<Rightarrow> Some e)"
    using assms(2) by (auto simp: writeBatchToAll_def run_external ts_def split: prod.splits)
  with run_writeEach [of env writeURLs token batch ts s errs s'] ts show ?thesis
    by (auto split: list.splits)
qed

lemma run_writeAttempts:
  assumes "fair_order order" and "write = writeBatchToAll order env targets writeURLs token batch" and "0 \<le> retryBackoff"
  shows "run_state (writeAttempts left attempt retryBackoff write) s = (err, s') \<Longrightarrow> 0 \<le> attempt \<Longrightarrow>
    retryBackoff + (attempt + int left) * (150 * millisecond) \<le> max_int64 \<Longrightarrow>
    \<exists>evs. trace s' = trace s @ evs \<and> length evs \<le> Suc left * length targets \<and>
      (err = None \<longrightarrow> (\<forall>t \<in> set targets. accepted (urlOf writeURLs t) token batch evs)) \<and>
      (isRetryable err \<longrightarrow> clk s + int left * retryBackoff \<le> clk s')"
proof (induction left arbitrary: attempt s)
  case 0
  then have "run_state (writeBatchToAll order env targets writeURLs token batch) s = (err, s')" by (simp add: assms(2))
  from run_writeBatchToAll [OF assms(1) this] show ?case by simp
next
  case (Suc left)
  obtain err1 s1 where w: "run_state write s = (err1, s1)" by (cases "run_state write s")
  obtain e1 where e1: "clk s1 = clk s" "trace s1 = trace s @ e1" "length e1 \<le> length targets"
    "err1 = None \<Longrightarrow> \<forall>t \<in> set targets. accepted (urlOf writeURLs t) token batch e1"
    using run_writeBatchToAll [OF assms(1) w [unfolded assms(2)]] by blast
  show ?case
  proof (cases "isRetryable err1")
    case False
    with Suc.prems w have "err = err1" "s' = s1" by simp_all
    with e1 False show ?thesis by (intro exI [of _ e1]) auto
  next
    case True
    define d where "d = wrap64 (retryBackoff + wrap64 (attempt * 150 * millisecond))"
    define s2 where "s2 = s1\<lparr>clk := clk s1 + max 0 d\<rparr>"
    have "in_int64 (attempt * 150 * millisecond)" "in_int64 (retryBackoff + attempt * 150 * millisecond)"
      using Suc.prems(2,3) assms(3) by (auto simp: in_int64_def)
    then have d: "retryBackoff \<le> d" using Suc.prems(2) by (simp add: d_def)
    have s2: "trace s2 = trace s1" "clk s1 + retryBackoff \<le> clk s2" using d by (simp_all add: s2_def)
    have "run_state (writeAttempts left (attempt + 1) retryBackoff write) s2 = (err, s')"
      using Suc.prems(1) w True by (simp add: s2_def d_def)
    from Suc.IH [OF this] Suc.prems(2,3) obtain e2 where e2: "trace s' = trace s2 @ e2" "length e2 \<le> Suc left * length targets"
      "err = None \<longrightarrow> (\<forall>t \<in> set targets. accepted (urlOf writeURLs t) token batch e2)"
      "isRetryable err \<longrightarrow> clk s2 + int left * retryBackoff \<le> clk s'" by (auto simp: algebra_simps)
    have "clk s + int (Suc left) * retryBackoff \<le> clk s'" if "isRetryable err"
    proof -
      have "int (Suc left) * retryBackoff = retryBackoff + int left * retryBackoff" by (simp add: algebra_simps)
      with that e2(4) s2(2) e1(1) show ?thesis by linarith
    qed
    with e1 e2 s2(1) show ?thesis
      by (intro exI [of _ "e1 @ e2"]) auto
  qed
qed

section \<open>Workers\<close>

fun busyJob :: "worker \<Rightarrow> batchJob multiset" where
  "busyJob (Busy j) = {#j#}"
| "busyJob (Received j) = {#j#}"
| "busyJob (Failing j err) = {#j#}"
| "busyJob w = {#}"

definition busyJobs :: "worker list \<Rightarrow> batchJob multiset" where
  "busyJobs ws = sum_list (map busyJob ws)"

lemma busyJobs_update:
  "i < length ws \<Longrightarrow> busyJobs (ws[i := w]) + busyJob (ws ! i) = busyJobs ws + busyJob w"
proof (induction ws arbitrary: i)
  case (Cons v ws)
  then show ?case by (cases i) (auto simp: busyJobs_def ac_simps)
qed simp

text \<open>Jobs whose bytes are counted and which are not yet counted themselves.\<close>

definition countingOf :: "worker \<Rightarrow> int" where
  "countingOf w = (if w = Counting then 1 else 0)"

definition uncounted :: "worker list \<Rightarrow> int" where
  "uncounted ws = sum_list (map countingOf ws)"

lemma uncounted_update:
  "i < length ws \<Longrightarrow> uncounted (ws[i := w]) = uncounted ws - countingOf (ws ! i) + countingOf w"
proof (induction ws arbitrary: i)
  case (Cons v ws)
  then show ?case by (cases i) (auto simp: uncounted_def)
qed simp

text \<open>
  Every planned job is in the channel, with a worker, written (\<open>done\<close>) or given up (\<open>lost\<close>);
  the counters count the written ones; a job is given up, and a worker stops early, only if an
  error is recorded.
\<close>

definition loadInv :: "(batchJob \<Rightarrow> string) \<Rightarrow> batchJob list \<Rightarrow> load \<Rightarrow> bool" where
  "loadInv batch jobs l \<longleftrightarrow>
     (\<exists>written lost. mset jobs = mset (queue l) + busyJobs (workers l) + mset written + mset lost \<and>
        bytesSent l = wrap64 (\<Sum>j \<leftarrow> written. int (length (batch j))) \<and> jobsDone l = wrap64 (int (length written) - uncounted (workers l)) \<and>
        uncounted (workers l) \<le> int (length written) \<and>
        (firstErr l = None \<longrightarrow> lost = [] \<and> (Stopped \<in> set (workers l) \<longrightarrow> queue l = [])))"

lemma loadInv_step:
  assumes "loadStep batch l l'" and "loadInv batch jobs l"
  shows "loadInv batch jobs l'"
proof -
  from assms(2) obtain ws lost where inv:
    "mset jobs = mset (queue l) + busyJobs (workers l) + mset ws + mset lost"
    "bytesSent l = wrap64 (\<Sum>j \<leftarrow> ws. int (length (batch j)))" "jobsDone l = wrap64 (int (length ws) - uncounted (workers l))"
    "uncounted (workers l) \<le> int (length ws)"
    "firstErr l = None \<longrightarrow> lost = [] \<and> (Stopped \<in> set (workers l) \<longrightarrow> queue l = [])"
    unfolding loadInv_def by (elim exE conjE)
  have upd: "busyJobs (workers l) + busyJob w = busyJobs ((workers l)[i := w]) + busyJob (workers l ! i)"
    if "i < length (workers l)" for i w
    using busyJobs_update [OF that, of w] by simp
  have running: "Stopped \<in> set ((workers l)[i := w]) \<Longrightarrow> w \<noteq> Stopped \<Longrightarrow> Stopped \<in> set (workers l)" for i w
    using set_update_subset_insert [of "workers l" i w] by auto
  have keep: "loadInv batch jobs l'" if "mset (queue l') + busyJobs (workers l') = mset (queue l) + busyJobs (workers l)"
    "bytesSent l' = bytesSent l" "jobsDone l' = jobsDone l" "firstErr l' = firstErr l" "uncounted (workers l') = uncounted (workers l)"
    "queue l = [] \<longrightarrow> queue l' = []" "Stopped \<in> set (workers l') \<longrightarrow> queue l' = [] \<or> Stopped \<in> set (workers l)"
    using inv that unfolding loadInv_def by - (rule exI [of _ ws], rule exI [of _ lost], auto)
  have lose: "loadInv batch jobs l'" if "busyJobs (workers l) = add_mset j (busyJobs (workers l'))"
    "queue l' = queue l" "bytesSent l' = bytesSent l" "jobsDone l' = jobsDone l" "firstErr l' \<noteq> None"
    "uncounted (workers l') = uncounted (workers l)" for j
    using inv that unfolding loadInv_def by - (rule exI [of _ ws], rule exI [of _ "j # lost"], auto)
  note unc = uncounted_update countingOf_def
  from assms(1) show ?thesis
  proof cases
    case (receive j js i)
    then show ?thesis using upd [of i "Received j"] running [of i "Received j"] by (intro keep) (auto simp: unc)
  next
    case (finish i)
    then show ?thesis using upd [of i Stopped] by (intro keep) (auto simp: unc)
  next
    case (upload i j)
    then show ?thesis using upd [of i "Busy j"] running [of i "Busy j"] by (intro keep) (auto simp: unc)
  next
    case (quit i j)
    then show ?thesis using upd [of i Stopped] by (intro lose [of j]) (auto simp: unc)
  next
    case (written i j)
    then show ?thesis
      using inv upd [of i Counting] running [of i Counting] unfolding loadInv_def
      by - (rule exI [of _ "ws @ [j]"], rule exI [of _ lost], auto simp: unc wrap64_add)
  next
    case (counted i)
    have "wrap64 (int (length ws) - uncounted (workers l) + 1) = wrap64 (int (length ws) - (uncounted (workers l) - 1))"
      by (simp add: algebra_simps)
    with counted show ?thesis
      using inv upd [of i Idle] running [of i Idle] unfolding loadInv_def
      by - (rule exI [of _ ws], rule exI [of _ lost], auto simp: unc wrap64_add)
  next
    case (failed i j err)
    then show ?thesis using upd [of i "Failing j err"] running [of i "Failing j err"] by (intro keep) (auto simp: unc)
  next
    case (record_err i j err)
    then show ?thesis using upd [of i Stopped] by (intro lose [of j]) (auto simp: unc)
  next
    case (failed_later i j)
    then show ?thesis using upd [of i Stopped] by (intro lose [of j]) (auto simp: unc)
  qed
qed

lemma loadInv_start: "loadInv batch jobs (startLoad jobs n)"
proof -
  have "busyJobs (replicate k Idle) = {#}" "uncounted (replicate k Idle) = 0" for k
    by (induction k) (auto simp: busyJobs_def uncounted_def countingOf_def)
  then show ?thesis
    unfolding loadInv_def startLoad_def
    by - (rule exI [of _ "[]"], rule exI [of _ "[]"], auto simp: in_int64_def)
qed

lemma allStopped_idle:
  assumes "allStopped l"
  shows "busyJobs (workers l) = {#}" "uncounted (workers l) = 0"
proof -
  have "list_all (\<lambda>w. w = Stopped) ws \<Longrightarrow> busyJobs ws = {#} \<and> uncounted ws = 0" for ws
    by (induction ws) (auto simp: busyJobs_def uncounted_def countingOf_def)
  then show "busyJobs (workers l) = {#}" "uncounted (workers l) = 0" using assms by (simp_all add: allStopped_def)
qed

lemma loadStep_workers: "(loadStep batch)\<^sup>*\<^sup>* l l' \<Longrightarrow> length (workers l') = length (workers l)"
  by (induction rule: rtranclp_induct) (auto elim!: loadStepE)

lemma loadInv_reachable:
  assumes "(loadStep batch)\<^sup>*\<^sup>* (startLoad jobs n) l"
  shows "loadInv batch jobs l"
  using assms by induction (auto intro: loadInv_start loadInv_step)

section \<open>Parsing\<close>

lemma TrimRight_no_suffix: "TrimRight s cs = [] \<or> last (TrimRight s cs) \<notin> set cs"
proof (cases "dropWhile (\<lambda>c. c \<in> set cs) (rev s)")
  case (Cons x xs)
  then have "x \<notin> set cs" by (metis hd_dropWhile list.distinct(1) list.sel(1))
  with Cons show ?thesis by (simp add: TrimRight_def)
qed (simp add: TrimRight_def)

lemma TrimRight_prefix:
  assumes "HasPrefix s p" and "p \<noteq> []" "last p \<notin> set cs"
  shows "HasPrefix (TrimRight s cs) p"
proof -
  obtain r where s: "s = p @ r" using assms(1) by (auto simp: HasPrefix_iff)
  have "rev p \<noteq> []" "hd (rev p) \<notin> set cs" using assms(2,3) by (auto simp: hd_rev)
  then have keep: "dropWhile (\<lambda>c. c \<in> set cs) (rev p) = rev p" by (cases "rev p") auto
  have "\<exists>r'. dropWhile (\<lambda>c. c \<in> set cs) (rev r @ rev p) = r' @ rev p"
  proof (cases "\<forall>c \<in> set (rev r). c \<in> set cs")
    case True
    then have "dropWhile (\<lambda>c. c \<in> set cs) (rev r @ rev p) = [] @ rev p"
      using keep by (subst dropWhile_append2) auto
    then show ?thesis by blast
  next
    case False
    then obtain c where "c \<in> set (rev r)" "c \<notin> set cs" by auto
    then show ?thesis using dropWhile_append1 [of c "rev r" "\<lambda>c. c \<in> set cs" "rev p"] by auto
  qed
  then show ?thesis by (auto simp: TrimRight_def s HasPrefix_iff)
qed

definition targetOk :: "targetCfg \<Rightarrow> bool" where
  "targetOk t \<longleftrightarrow>
     tName t \<noteq> [] \<and> (HasPrefix (tURL t) ''http:'' \<or> HasPrefix (tURL t) ''https:'') \<and> last (tURL t) \<noteq> CHR ''/''"

lemma parseEntry_ok:
  assumes "parseEntry i p = Some (Inr t)"
  shows "targetOk t"
proof -
  obtain name addr where e: "entryParts i (TrimSpace p) = (name, addr)" by (cases "entryParts i (TrimSpace p)")
  then have a: "HasPrefix addr ''http://'' \<or> HasPrefix addr ''https://''" "tURL t = TrimRight addr ''/''" "tName t \<noteq> []"
    using assms by (auto simp: parseEntry_def Let_def split: if_splits)
  from a(1) have "HasPrefix addr ''http:'' \<or> HasPrefix addr ''https:''" by (auto simp: HasPrefix_iff)
  then have u: "HasPrefix (tURL t) ''http:'' \<or> HasPrefix (tURL t) ''https:''"
    using TrimRight_prefix [of addr "''http:''" "''/''"] TrimRight_prefix [of addr "''https:''" "''/''"] a(2) by auto
  then have "tURL t \<noteq> []" by (auto simp: HasPrefix_iff)
  then have "last (tURL t) \<noteq> CHR ''/''" using TrimRight_no_suffix [of addr "''/''"] a(2) by auto
  with u a(3) show ?thesis by (simp add: targetOk_def)
qed

lemma parseEntries_ok: "parseEntries i ps = Inr ts \<Longrightarrow> list_all targetOk ts \<and> length ts \<le> length ps"
proof (induction i ps arbitrary: ts rule: parseEntries.induct)
  case (2 i p ps)
  then show ?case
    by (fastforce split: option.splits sum.splits simp: parseEntry_ok)
qed simp

lemma writeURLsFrom_dom:
  "writeURLsFrom env org bucket m ts = Inr urls \<Longrightarrow> dom urls = dom m \<union> tName ` set ts"
proof (induction ts arbitrary: m)
  case (Cons t ts)
  then show ?case by (auto split: sum.splits)
qed simp

definition fullURL :: "'e env \<Rightarrow> string \<Rightarrow> string \<Rightarrow> targetCfg \<Rightarrow> string option" where
  "fullURL env org bucket t =
     (case url_JoinPath env (tURL t) ''/api/v2/write'' of
        Inl err \<Rightarrow> None
      | Inr u \<Rightarrow> Some (u @ ''?org='' @ QueryEscape org @ ''&bucket='' @ QueryEscape bucket @ ''&precision=ns''))"

text \<open>Later targets overwrite earlier ones of the same name.\<close>

lemma writeURLsFrom_last:
  "writeURLsFrom env org bucket m ts = Inr urls \<Longrightarrow>
     urls name = (case find (\<lambda>t. tName t = name) (rev ts) of None \<Rightarrow> m name | Some t \<Rightarrow> fullURL env org bucket t)"
proof (induction ts arbitrary: m)
  case (Cons t ts)
  obtain u where u: "url_JoinPath env (tURL t) ''/api/v2/write'' = Inr u"
    using Cons.prems by (auto split: sum.splits)
  have f: "find P (xs @ [y]) = (case find P xs of None \<Rightarrow> (if P y then Some y else None) | Some x \<Rightarrow> Some x)"
    for P and xs :: "targetCfg list" and y
    by (induction xs) auto
  show ?case
    using Cons.IH Cons.prems u by (auto simp: f fullURL_def split: option.splits)
qed simp

lemma find_SomeD: "find P xs = Some x \<Longrightarrow> x \<in> set xs \<and> P x"
  by (induction xs) (auto split: if_splits)

lemma find_last_distinct:
  "distinct (map tName ts) \<Longrightarrow> t \<in> set ts \<Longrightarrow> find (\<lambda>u. tName u = tName t) (rev ts) = Some t"
proof -
  assume d: "distinct (map tName ts)" and t: "t \<in> set ts"
  then obtain u where u: "find (\<lambda>u. tName u = tName t) (rev ts) = Some u"
    by (cases "find (\<lambda>u. tName u = tName t) (rev ts)") (auto simp: find_None_iff)
  then have "u \<in> set ts" "tName u = tName t" by (auto dest!: find_SomeD)
  with d t u show ?thesis by (metis inj_on_eq_iff distinct_map)
qed

section \<open>Claims\<close>

text \<open>
  C34: a load run that starts is well formed: there is at least one target, every target has a
  name and an \<open>http\<close> or \<open>https\<close> URL without a final slash, the batch size is at least 64 KiB and
  there is at least one worker. Every target's batches go to the URL of the last target of the
  same name, so each target is written to its own URL only if the names are distinct.
\<close>

theorem startup_wellformed:
  assumes "startup env fl = Inr (targets, urls, maxBatchB, n)"
  shows "targets \<noteq> [] \<and> list_all targetOk targets \<and> token_flag fl \<noteq> [] \<and> 0 < targetBytes_flag fl \<and>
    65536 \<le> maxBatchB \<and> 1 \<le> n \<and>
    (\<forall>t \<in> set targets. \<exists>t' \<in> set targets. tName t' = tName t \<and> urls (tName t) = fullURL env (org_flag fl) (bucket_flag fl) t' \<and>
       (distinct (map tName targets) \<longrightarrow> t' = t))"
proof -
  have p: "parseTargets (targetsRaw fl) = Inr targets" "targets \<noteq> []"
    and w: "writeURLsFrom env (org_flag fl) (bucket_flag fl) Map.empty targets = Inr urls"
    and rest: "token_flag fl \<noteq> []" "0 < targetBytes_flag fl" "65536 \<le> maxBatchB" "1 \<le> n"
    using assms by (auto simp: startup_def Let_def split: if_splits sum.splits)
  have "\<exists>t' \<in> set targets. tName t' = tName t \<and> urls (tName t) = fullURL env (org_flag fl) (bucket_flag fl) t' \<and>
      (distinct (map tName targets) \<longrightarrow> t' = t)" if t: "t \<in> set targets" for t
  proof -
    obtain u where u: "find (\<lambda>u. tName u = tName t) (rev targets) = Some u"
      using t by (cases "find (\<lambda>u. tName u = tName t) (rev targets)") (auto simp: find_None_iff)
    then have "u \<in> set targets" "tName u = tName t" by (auto dest!: find_SomeD)
    moreover have "urls (tName t) = fullURL env (org_flag fl) (bucket_flag fl) u"
      using writeURLsFrom_last [OF w, of "tName t"] u by simp
    ultimately show ?thesis using find_last_distinct [OF _ t] u by auto
  qed
  with p rest parseEntries_ok [of 0 _ targets] show ?thesis by (auto simp: parseTargets_def)
qed

definition exampleFlags :: flags where
  "exampleFlags = \<lparr>targetsRaw = ''a=http://a:8086/, http://b:8086'', org_flag = ''acme'', bucket_flag = ''m'',
     token_flag = ''t'', targetBytes_flag = 1000, workers_flag = 0, maxBatchB_flag = 1,
     reportPeriod_flag = 5 * second, seed_flag = 20260220\<rparr>"

theorem startup_wellformed_witness:
  "\<exists>urls. urls ''target-2'' =
     fullURL worldEnv ''acme'' ''m'' \<lparr>tName = ''target-2'', tURL = ''http://b:8086''\<rparr>"
proof -
  define ts where "ts = [\<lparr>tName = ''a'', tURL = ''http://a:8086''\<rparr>, \<lparr>tName = ''target-2'', tURL = ''http://b:8086''\<rparr>]"
  have "parseTargets (targetsRaw exampleFlags) = Inr ts" unfolding ts_def by code_simp
  then obtain urls where "startup worldEnv exampleFlags = Inr (ts, urls, 65536, 1)"
    by (simp add: startup_def exampleFlags_def ts_def worldEnv_def)
  from startup_wellformed [OF this] show ?thesis
    by (intro exI [of _ urls]) (auto simp: ts_def exampleFlags_def)
qed

text \<open>
  A tag value is escaped without loss: undoing the escapes gives the value back, so
  different values stay different, and the three passes over the string amount to one pass that
  puts a backslash before each comma, space and equals sign.
\<close>

lemma escapeTag_roundtrip:
  "unescapeTag (escapeTag s) = s \<and>
   escapeTag s = concat (map (\<lambda>c. if c \<in> set '', ='' then [CHR 0x5C, c] else [c]) s)"
proof
  show "unescapeTag (escapeTag s) = s" by (rule unescape_escapeTag)
  show "escapeTag s = concat (map (\<lambda>c. if c \<in> set '', ='' then [CHR 0x5C, c] else [c]) s)"
    by (induction s) (simp_all add: escapeTag_Cons tagSpecial_def)
qed

text \<open>
  C32: uploading a batch. It sends at most one request per target and attempt, with at most
  the configured number of retries. A batch that counts as written was accepted with status
  204 by every target; an error that could be retried is given up only after the back-off was
  waited out before each of the retries.
\<close>

theorem uploadBatch_accepted:
  assumes "fair_order order" and "0 \<le> retryBackoff" "0 \<le> maxRetries"
    and "retryBackoff + maxRetries * (150 * millisecond) \<le> max_int64"
    and "run_state (uploadBatch maxRetries retryBackoff batchSleep
           (writeBatchToAll order env targets urls token batch)) s = (err, s')"
  shows "\<exists>evs. trace s' = trace s @ evs \<and> int (length evs) \<le> (maxRetries + 1) * int (length targets) \<and>
    (err = None \<longrightarrow> (\<forall>t \<in> set targets. accepted (urlOf urls t) token batch evs)) \<and>
    (isRetryable err \<longrightarrow> clk s + maxRetries * retryBackoff \<le> clk s')"
proof -
  let ?upload = "writeBatchToAll order env targets urls token batch"
  obtain s1 where w: "run_state (writeAttempts (nat maxRetries) 0 retryBackoff ?upload) s = (err, s1)"
    and s1: "trace s' = trace s1" "clk s1 \<le> clk s'"
    using assms(5) by (auto simp: uploadBatch_def split: prod.splits if_splits)
  from run_writeAttempts [OF assms(1) refl assms(2) w] assms(3,4) obtain evs where
    "trace s1 = trace s @ evs" "length evs \<le> Suc (nat maxRetries) * length targets"
    "err = None \<longrightarrow> (\<forall>t \<in> set targets. accepted (urlOf urls t) token batch evs)"
    "isRetryable err \<longrightarrow> clk s + maxRetries * retryBackoff \<le> clk s1" by auto
  moreover have "int (Suc (nat maxRetries) * length targets) = (maxRetries + 1) * int (length targets)"
    using assms(3) by (simp add: algebra_simps)
  ultimately show ?thesis
    using s1 by (intro exI [of _ evs]) (auto simp del: of_nat_mult of_nat_Suc)
qed

theorem uploadBatch_accepted_witness:
  "\<exists>evs. accepted ''http://a/api/v2/write'' ''t'' ''cpu v=1'' evs"
proof -
  define ts where "ts = [\<lparr>tName = ''a'', tURL = ''http://a''\<rparr>]"
  define urls where "urls = [''a'' \<mapsto> ''http://a/api/v2/write'']"
  define s where "s = \<lparr>clk = 0, ext = world0\<lparr>answers := [Inr \<lparr>rs_status = 503, rs_header = [], rs_body = Inr []\<rparr>,
      Inr \<lparr>rs_status = 204, rs_header = [], rs_body = Inr []\<rparr>]\<rparr>, trace = []\<rparr>"
  obtain err s' where r: "run_state (uploadBatch 2 second 0 (writeBatchToAll (\<lambda>e ts. ts) worldEnv ts urls ''t'' ''cpu v=1'')) s = (err, s')"
    by (cases "run_state (uploadBatch 2 second 0 (writeBatchToAll (\<lambda>e ts. ts) worldEnv ts urls ''t'' ''cpu v=1'')) s")
  have "fst (run_state (uploadBatch 2 second 0 (writeBatchToAll (\<lambda>e ts. ts) worldEnv [\<lparr>tName = ''a'', tURL = ''http://a''\<rparr>]
      [''a'' \<mapsto> ''http://a/api/v2/write''] ''t'' ''cpu v=1'')) \<lparr>clk = 0, ext = world0\<lparr>answers := [Inr \<lparr>rs_status = 503, rs_header = [], rs_body = Inr []\<rparr>,
      Inr \<lparr>rs_status = 204, rs_header = [], rs_body = Inr []\<rparr>]\<rparr>, trace = []\<rparr>) = None"
    by code_simp
  then have "err = None" using r by (simp add: s_def ts_def urls_def)
  moreover have "fair_order (\<lambda>e ts. ts)" by (simp add: fair_order_def)
  ultimately show ?thesis
    using uploadBatch_accepted [OF _ _ _ _ r] by (auto simp: ts_def urls_def urlOf_def)
qed

text \<open>
  The load plan. With a positive batch size the planning loop ends; its batches are
  numbered from zero without gaps, each has at least one byte and at most the batch size, their
  sizes add up to exactly the bytes asked for, and there is no needless batch.
\<close>

lemma planJobs_partition:
  assumes "0 < maxBatch" and "0 \<le> totalBytes" "totalBytes \<le> max_int64"
  shows "\<exists>jobs. planJobs totalBytes maxBatch = Some jobs \<and> sum_list (map job_size jobs) = totalBytes \<and>
    list_all (\<lambda>j. 0 < job_size j \<and> job_size j \<le> maxBatch) jobs \<and>
    map job_id jobs = map int [0..<length jobs] \<and> int (length jobs) * maxBatch < totalBytes + maxBatch"
  using planFrom_total [OF assms(1,3), of 0 0] assms(2) by (simp add: planJobs_def)

text \<open>
  What a completed load run has sent. However the workers' steps interleave, when all of
  them have stopped and no error was recorded, every planned batch was written exactly once and
  the counters say so; since a batch is never smaller than planned, at least the bytes asked
  for were sent.
\<close>

lemma load_complete:
  assumes "planJobs totalBytes maxBatch = Some jobs" and "0 < maxBatch" "0 < totalBytes" "totalBytes \<le> max_int64"
    and "batch = (\<lambda>j. generateBatch newRand generatePoint (wrap64 (seed + job_id j)) (job_size j))"
    and "(loadStep batch)\<^sup>*\<^sup>* (startLoad jobs n) l" and "allStopped l" and "firstErr l = None"
    and "(\<Sum>j \<leftarrow> jobs. int (length (batch j))) \<le> max_int64"
  shows "bytesSent l = (\<Sum>j \<leftarrow> jobs. int (length (batch j))) \<and> totalBytes \<le> bytesSent l \<and>
    jobsDone l = int (length jobs) \<and> queue l = []"
proof -
  obtain ws lost where inv: "mset jobs = mset (queue l) + busyJobs (workers l) + mset ws + mset lost"
    "bytesSent l = wrap64 (\<Sum>j \<leftarrow> ws. int (length (batch j)))" "jobsDone l = wrap64 (int (length ws) - uncounted (workers l))"
    "firstErr l = None \<longrightarrow> lost = [] \<and> (Stopped \<in> set (workers l) \<longrightarrow> queue l = [])"
    using loadInv_reachable [OF assms(6)] unfolding loadInv_def by (elim exE conjE)
  have "0 < length (workers l)" using loadStep_workers [OF assms(6)] by (simp add: startLoad_def)
  with assms(7) have "Stopped \<in> set (workers l)" by (cases "workers l") (auto simp: allStopped_def)
  then have q: "queue l = []" "lost = []" using inv(4) assms(8) by auto
  note idle = allStopped_idle [OF assms(7)]
  have all: "mset ws = mset jobs" using inv(1) q idle by simp
  define bytes where "bytes = (\<Sum>j \<leftarrow> jobs. int (length (batch j)))"
  have sum: "(\<Sum>j \<leftarrow> ws. int (length (batch j))) = bytes"
    unfolding bytes_def by (metis all mset_map sum_mset_sum_list)
  obtain jobs' where plan: "jobs = jobs'" "sum_list (map job_size jobs') = totalBytes"
    "list_all (\<lambda>j. 0 < job_size j \<and> job_size j \<le> maxBatch) jobs'"
    using planFrom_total [OF assms(2,4), of 0 0] assms(1,3) by (auto simp: planJobs_def)
  have "job_size j \<le> int (length (batch j))" for j
    using fillBatch_length by (simp add: assms(5) generateBatch_def)
  then have ge: "totalBytes \<le> bytes"
    unfolding bytes_def plan(1) plan(2) [symmetric] by (intro sum_list_mono) auto
  have "int (length jobs) \<le> (\<Sum>j \<leftarrow> jobs. job_size j)"
    using plan(3) unfolding plan(1) by (induction jobs') auto
  then have "int (length jobs) \<le> totalBytes" using plan by simp
  then have "in_int64 (int (length ws))" using all assms(4) by (simp add: in_int64_def mset_eq_length [OF all])
  moreover have "in_int64 bytes" using ge assms(3,9) by (simp add: in_int64_def bytes_def)
  ultimately show ?thesis
    using inv(2,3) idle(2) sum ge q mset_eq_length [OF all] by (simp add: bytes_def)
qed

end
