(* ===== verification/LoadPoints.thy ===== *)
theory LoadPoints
  imports Loadgen
begin

text \<open>
  The points of \<open>cmd/loadgen/main.go\<close> (\<open>generatePoint\<close> and what it calls). Random numbers, the
  clock and floating-point arithmetic with its formatting are the fields of the record
  \<open>pointEnv\<close>; \<open>fmt.Sprintf\<close> is modelled for the verbs the code uses. Every line of a batch is
  shown to be a line of the line protocol.
\<close>

section \<open>What the generator uses\<close>

text \<open>
  \<open>rng_draw n\<close> is the number from which \<open>Intn(n)\<close> and \<open>Int63n(n)\<close> take the remainder, after any
  rejected numbers; a floating-point literal is given by its text.
\<close>

record ('r, 'f) pointEnv =
  rng_draw :: "int \<Rightarrow> 'r \<Rightarrow> int \<times> 'r"
  rng_Float64 :: "'r \<Rightarrow> 'f \<times> 'r"
  unixNano :: "'r \<Rightarrow> int \<times> 'r"
  f_lit :: "string \<Rightarrow> 'f"
  f_ofint :: "int \<Rightarrow> 'f"
  f_pi :: 'f
  f_add :: "'f \<Rightarrow> 'f \<Rightarrow> 'f"
  f_mul :: "'f \<Rightarrow> 'f \<Rightarrow> 'f"
  f_div :: "'f \<Rightarrow> 'f \<Rightarrow> 'f"
  f_sin :: "'f \<Rightarrow> 'f"
  f_less :: "'f \<Rightarrow> 'f \<Rightarrow> bool"
  f_fixed :: "nat \<Rightarrow> 'f \<Rightarrow> string"  \<comment> \<open>the verb \<open>%.nf\<close>\<close>

definition Intn :: "('r, 'f) pointEnv \<Rightarrow> int \<Rightarrow> ('r, int) state" where
  "Intn E n = do { v \<leftarrow> State (rng_draw E n); State_Monad.return (v mod n) }"

definition Float64 :: "('r, 'f) pointEnv \<Rightarrow> ('r, 'f) state" where
  "Float64 E = State (rng_Float64 E)"

text \<open>\<open>xs[rng.Intn(len(xs))]\<close>.\<close>

definition chooseFrom :: "('r, 'f) pointEnv \<Rightarrow> 'a list \<Rightarrow> ('r, 'a) state" where
  "chooseFrom E xs = do { i \<leftarrow> Intn E (int (length xs)); State_Monad.return (xs ! nat i) }"

text \<open>\<open>"prefix-" + strconv.Itoa(rng.Intn(n))\<close>.\<close>

definition numbered :: "('r, 'f) pointEnv \<Rightarrow> string \<Rightarrow> int \<Rightarrow> ('r, string) state" where
  "numbered E p n = do { i \<leftarrow> Intn E n; State_Monad.return (p @ Itoa i) }"

section \<open>Formatting\<close>

datatype 'f arg = ArgS string | ArgD int | ArgT bool | ArgF 'f

datatype piece = Lit char | VerbS | VerbD | VerbT | VerbF nat | BadVerb

text \<open>The format string, as literal bytes and verbs.\<close>

fun formatPieces :: "string \<Rightarrow> piece list" where
  "formatPieces [] = []"
| "formatPieces (c # cs) =
     (if c \<noteq> CHR ''%'' then Lit c # formatPieces cs
      else
        (case cs of
           [] \<Rightarrow> [BadVerb]
         | v # ds \<Rightarrow>
             if v = CHR ''s'' then VerbS # formatPieces ds
             else if v = CHR ''d'' then VerbD # formatPieces ds
             else if v = CHR ''t'' then VerbT # formatPieces ds
             else if v = CHR ''.'' then
               (case ds of
                  n # f # es \<Rightarrow>
                    (if f = CHR ''f'' \<and> is_digit n then VerbF (of_char n - 48) else BadVerb) # formatPieces es
                | _ \<Rightarrow> [BadVerb])
             else BadVerb # formatPieces ds))"

text \<open>The arguments in place of the verbs; \<open>None\<close> if they do not fit.\<close>

fun fillPieces :: "('r, 'f) pointEnv \<Rightarrow> piece list \<Rightarrow> 'f arg list \<Rightarrow> string option" where
  "fillPieces E [] [] = Some []"
| "fillPieces E (Lit c # ps) args = map_option (\<lambda>s. c # s) (fillPieces E ps args)"
| "fillPieces E (VerbS # ps) (ArgS v # args) = map_option (\<lambda>s. v @ s) (fillPieces E ps args)"
| "fillPieces E (VerbD # ps) (ArgD i # args) = map_option (\<lambda>s. Itoa i @ s) (fillPieces E ps args)"
| "fillPieces E (VerbT # ps) (ArgT b # args) = map_option (\<lambda>s. (if b then ''true'' else ''false'') @ s) (fillPieces E ps args)"
| "fillPieces E (VerbF n # ps) (ArgF x # args) = map_option (\<lambda>s. f_fixed E n x @ s) (fillPieces E ps args)"
| "fillPieces E _ _ = None"

text \<open>A format and arguments that do not fit print an error text.\<close>

definition Sprintf :: "('r, 'f) pointEnv \<Rightarrow> string \<Rightarrow> 'f arg list \<Rightarrow> string" where
  "Sprintf E format args = (case fillPieces E (formatPieces format) args of None \<Rightarrow> ''%!'' | Some s \<Rightarrow> s)"

section \<open>Points\<close>

definition clamp :: "('r, 'f) pointEnv \<Rightarrow> 'f \<Rightarrow> 'f \<Rightarrow> 'f \<Rightarrow> 'f" where
  "clamp E v lo hi = (if f_less E v lo then lo else if f_less E hi v then hi else v)"

text \<open>\<open>rng.Float64()*a + b\<close> and \<open>rng.Float64()*a\<close>.\<close>

definition scaled :: "('r, 'f) pointEnv \<Rightarrow> string \<Rightarrow> ('r, 'f) state" where
  "scaled E a = do { x \<leftarrow> Float64 E; State_Monad.return (f_mul E x (f_lit E a)) }"

definition stamp :: "('r, 'f) pointEnv \<Rightarrow> duration \<Rightarrow> ('r, int) state" where
  "stamp E back = do { t \<leftarrow> State (unixNano E); d \<leftarrow> Intn E back; State_Monad.return (wrap64 (t - d)) }"

definition endpoints :: "string list" where
  "endpoints = [''/api/search'', ''/api/orders'', ''/api/auth'', ''/api/cart'', ''/api/report'']"

definition generateHighCardPoint :: "('r, 'f) pointEnv \<Rightarrow> ('r, string) state" where
  "generateHighCardPoint E = do {
     now \<leftarrow> stamp E (24 * 60 * 60 * second);
     tenant \<leftarrow> numbered E ''tenant-'' 1000;
     host \<leftarrow> numbered E ''host-'' 20000;
     service \<leftarrow> numbered E ''svc-'' 1200;
     region \<leftarrow> chooseFrom E [''us-east'', ''us-west'', ''eu-west'', ''ap-south''];
     cluster \<leftarrow> numbered E ''cluster-'' 80;
     pod \<leftarrow> numbered E ''pod-'' 250000;
     session \<leftarrow> numbered E ''sess-'' 2000000;
     endpoint \<leftarrow> chooseFrom E endpoints;
     meth \<leftarrow> chooseFrom E [''GET'', ''POST'', ''PUT'', ''DELETE''];
     status \<leftarrow> chooseFrom E [200, 201, 204, 400, 401, 404, 429, 500, 503];
     kind \<leftarrow> Intn E 4;
     if kind = 0 then do {
       user \<leftarrow> scaled E ''100.0'';
       sys \<leftarrow> scaled E ''100.0'';
       cores \<leftarrow> Intn E 64;
       online \<leftarrow> Intn E 100;
       temp \<leftarrow> scaled E ''50.0'';
       version \<leftarrow> chooseFrom E [''v1.2.0'', ''v1.2.1'', ''v1.2.2'', ''v1.3.0''];
       State_Monad.return (Sprintf E
         ''cpu,profile=stress,tenant=%s,host=%s,region=%s,cluster=%s,pod=%s,service=%s usage_user=%.4f,usage_sys=%.4f,cores=%di,online=%t,temp_c=%.2f,node_version=\"%s\" %d''
         [ArgS tenant, ArgS host, ArgS region, ArgS cluster, ArgS pod, ArgS service,
          ArgF user, ArgF sys, ArgD (cores + 1), ArgT (online > 1),
          ArgF (f_add E temp (f_lit E ''20.0'')), ArgS version, ArgD now])
     }
     else if kind = 1 then do {
       latency \<leftarrow> scaled E ''900.0'';
       bytes \<leftarrow> Intn E (4 * 1024 * 1024);
       retry \<leftarrow> Intn E 5;
       hit \<leftarrow> Intn E 100;
       err \<leftarrow> chooseFrom E [''none'', ''timeout'', ''upstream_5xx'', ''quota''];
       State_Monad.return (Sprintf E
         ''http_requests,profile=stress,tenant=%s,host=%s,region=%s,service=%s,endpoint=%s,method=%s,status=%d,session=%s latency_ms=%.3f,bytes_out=%di,retry=%di,cache_hit=%t,error=\"%s\" %d''
         [ArgS tenant, ArgS host, ArgS region, ArgS service, ArgS (escapeTag endpoint), ArgS meth, ArgD status, ArgS session,
          ArgF (f_add E latency (f_lit E ''10.0'')), ArgD bytes, ArgD retry, ArgT (hit < 40), ArgS err, ArgD now])
     }
     else if kind = 2 then do {
       customer \<leftarrow> numbered E ''cust-'' 2500000;
       order \<leftarrow> numbered E ''ord-'' 5000000;
       total \<leftarrow> scaled E ''2500.0'';
       items \<leftarrow> Intn E 30;
       discount \<leftarrow> scaled E ''80.0'';
       priority \<leftarrow> Intn E 100;
       currency \<leftarrow> chooseFrom E [''USD'', ''EUR'', ''JPY''];
       st \<leftarrow> chooseFrom E [''new'', ''paid'', ''shipped'', ''cancelled''];
       State_Monad.return (Sprintf E
         ''orders,profile=stress,tenant=%s,region=%s,service=%s,customer_id=%s,order_id=%s total=%.2f,item_count=%di,discount=%.2f,priority=%t,currency=\"%s\",state=\"%s\" %d''
         [ArgS tenant, ArgS region, ArgS service, ArgS customer, ArgS order,
          ArgF total, ArgD (items + 1), ArgF discount, ArgT (priority < 20), ArgS currency, ArgS st, ArgD now])
     }
     else do {
       actor \<leftarrow> numbered E ''user-'' 7000000;
       severity \<leftarrow> chooseFrom E [''low'', ''medium'', ''high'', ''critical''];
       attempts \<leftarrow> Intn E 20;
       blocked \<leftarrow> Intn E 100;
       score \<leftarrow> scaled E ''100.0'';
       rule \<leftarrow> chooseFrom E [''geo-velocity'', ''token-reuse'', ''burst-login'', ''impossible-travel''];
       message \<leftarrow> chooseFrom E [''ok'', ''flagged'', ''blocked'', ''review''];
       State_Monad.return (Sprintf E
         ''security_events,profile=stress,tenant=%s,region=%s,host=%s,service=%s,actor=%s,severity=%s attempts=%di,blocked=%t,score=%.2f,rule=\"%s\",message=\"%s\" %d''
         [ArgS tenant, ArgS region, ArgS host, ArgS service, ArgS actor, ArgS severity,
          ArgD (attempts + 1), ArgT (blocked < 70), ArgF score, ArgS rule, ArgS message, ArgD now])
     }
   }"

text \<open>\<open>%\<close> of Go has the sign of the dividend.\<close>

definition go_rem :: "int \<Rightarrow> int \<Rightarrow> int" where
  "go_rem a b = a - go_div a b * b"

definition phaseOf :: "('r, 'f) pointEnv \<Rightarrow> int \<Rightarrow> 'f" where
  "phaseOf E now =
     f_mul E (f_mul E (f_div E (f_ofint E (go_rem now (15 * 60 * second))) (f_ofint E (15 * 60 * second))) (f_lit E ''2'')) (f_pi E)"

text \<open>\<open>a + b*math.Sin(x)\<close>.\<close>

definition wave :: "('r, 'f) pointEnv \<Rightarrow> string \<Rightarrow> string \<Rightarrow> 'f \<Rightarrow> 'f" where
  "wave E a b x = f_add E (f_lit E a) (f_mul E (f_lit E b) (f_sin E x))"

definition generateVizPoint :: "('r, 'f) pointEnv \<Rightarrow> ('r, string) state" where
  "generateVizPoint E = do {
     now \<leftarrow> stamp E (45 * 60 * second);
     region \<leftarrow> chooseFrom E [''us-east'', ''us-west'', ''eu-west''];
     service \<leftarrow> chooseFrom E [''api'', ''billing'', ''auth'', ''search''];
     host \<leftarrow> chooseFrom E [''edge-a'', ''edge-b'', ''edge-c'', ''edge-d''];
     tenant \<leftarrow> chooseFrom E [''tenant-a'', ''tenant-b'', ''tenant-c''];
     endpoint \<leftarrow> chooseFrom E endpoints;
     meth \<leftarrow> chooseFrom E [''GET'', ''POST'', ''PUT''];
     status \<leftarrow> chooseFrom E [200, 201, 204, 400, 401, 404, 429, 500];
     let phase = phaseOf E now;
     let cpuBase = wave E ''45.0'' ''25.0'' phase;
     let latBase = wave E ''140.0'' ''60.0'' (f_add E phase (f_lit E ''0.6''));
     let scoreBase = wave E ''50.0'' ''20.0'' (f_add E phase (f_lit E ''1.2''));
     kind \<leftarrow> Intn E 4;
     if kind = 0 then do {
       user \<leftarrow> scaled E ''8.0'';
       sys \<leftarrow> scaled E ''6.0'';
       State_Monad.return (Sprintf E
         ''cpu,profile=viz,tenant=%s,host=%s,region=%s,service=%s usage_user=%.3f,usage_sys=%.3f %d''
         [ArgS tenant, ArgS host, ArgS region, ArgS service,
          ArgF (clamp E (f_add E cpuBase user) (f_lit E ''2'') (f_lit E ''98'')),
          ArgF (clamp E (f_add E (f_mul E cpuBase (f_lit E ''0.62'')) sys) (f_lit E ''1'') (f_lit E ''92'')), ArgD now])
     }
     else if kind = 1 then do {
       latency \<leftarrow> scaled E ''55.0'';
       bytes \<leftarrow> Intn E (512 * 1024);
       retry \<leftarrow> Intn E 3;
       State_Monad.return (Sprintf E
         ''http_requests,profile=viz,tenant=%s,host=%s,region=%s,service=%s,endpoint=%s,method=%s,status=%d latency_ms=%.3f,bytes_out=%di,retry=%di %d''
         [ArgS tenant, ArgS host, ArgS region, ArgS service, ArgS (escapeTag endpoint), ArgS meth, ArgD status,
          ArgF (clamp E (f_add E latBase latency) (f_lit E ''8'') (f_lit E ''2000'')), ArgD bytes, ArgD retry, ArgD now])
     }
     else if kind = 2 then do {
       total \<leftarrow> scaled E ''480'';
       items \<leftarrow> Intn E 12;
       discount \<leftarrow> scaled E ''25'';
       State_Monad.return (Sprintf E
         ''orders,profile=viz,tenant=%s,region=%s,service=%s total=%.2f,item_count=%di,discount=%.2f %d''
         [ArgS tenant, ArgS region, ArgS service,
          ArgF (clamp E (f_add E (f_lit E ''120'') total) (f_lit E ''20'') (f_lit E ''3000'')), ArgD (items + 1),
          ArgF (clamp E discount (f_lit E ''0'') (f_lit E ''80'')), ArgD now])
     }
     else do {
       severity \<leftarrow> chooseFrom E [''low'', ''medium'', ''high'', ''critical''];
       attempts \<leftarrow> Intn E 8;
       blocked \<leftarrow> Intn E 100;
       score \<leftarrow> scaled E ''18.0'';
       State_Monad.return (Sprintf E
         ''security_events,profile=viz,tenant=%s,region=%s,host=%s,service=%s,severity=%s attempts=%di,blocked=%t,score=%.2f %d''
         [ArgS tenant, ArgS region, ArgS host, ArgS service, ArgS severity,
          ArgD (attempts + 1), ArgT (blocked < 55),
          ArgF (clamp E (f_add E scoreBase score) (f_lit E ''1'') (f_lit E ''100'')), ArgD now])
     }
   }"

definition generatePoint :: "('r, 'f) pointEnv \<Rightarrow> 'f \<Rightarrow> ('r, string) state" where
  "generatePoint E vizRatio = do {
     x \<leftarrow> Float64 E;
     if f_less E x vizRatio then generateVizPoint E else generateHighCardPoint E
   }"

section \<open>Lines of the line protocol\<close>

text \<open>
  A recogniser of \<open>measurement,tag=value,... field=value,... timestamp\<close> without escapes: where
  in the line it is, and whether the current word has begun (\<open>True\<close>).
\<close>

datatype linePos = Measurement bool | TagKey bool | TagVal bool | FieldKey bool | FieldVal bool | Stamp bool | Broken

definition separators :: "char list" where
  "separators = [CHR '','', CHR ''='', CHR '' '', newline]"

fun lineStep :: "char \<Rightarrow> linePos \<Rightarrow> linePos" where
  "lineStep c (Measurement b) = (if c \<notin> set separators then Measurement True else if b \<and> c = CHR '','' then TagKey False else Broken)"
| "lineStep c (TagKey b) = (if c \<notin> set separators then TagKey True else if b \<and> c = CHR ''='' then TagVal False else Broken)"
| "lineStep c (TagVal b) =
     (if c \<notin> set separators then TagVal True
      else if b \<and> c = CHR '','' then TagKey False else if b \<and> c = CHR '' '' then FieldKey False else Broken)"
| "lineStep c (FieldKey b) = (if c \<notin> set separators then FieldKey True else if b \<and> c = CHR ''='' then FieldVal False else Broken)"
| "lineStep c (FieldVal b) =
     (if c \<notin> set separators then FieldVal True
      else if b \<and> c = CHR '','' then FieldKey False else if b \<and> c = CHR '' '' then Stamp False else Broken)"
| "lineStep c (Stamp b) = (if is_digit c \<or> c = CHR ''-'' \<and> \<not> b then Stamp True else Broken)"
| "lineStep c Broken = Broken"

definition lineOk :: "string \<Rightarrow> bool" where
  "lineOk s \<longleftrightarrow> fold lineStep s (Measurement False) = Stamp True"

section \<open>Words\<close>

definition word_ok :: "string \<Rightarrow> bool" where
  "word_ok w \<longleftrightarrow> w \<noteq> [] \<and> list_all (\<lambda>c. c \<notin> set separators) w"

text \<open>Documented of the verb \<open>%.nf\<close>: digits, sign, point, or \<open>NaN\<close>, \<open>Inf\<close>.\<close>

definition plain_floats :: "('r, 'f) pointEnv \<Rightarrow> bool" where
  "plain_floats E \<longleftrightarrow> (\<forall>n x. f_fixed E n x \<noteq> [] \<and> set (f_fixed E n x) \<subseteq> set ''0123456789.+-NaInf'')"

lemma plain_floats_word: "plain_floats E \<Longrightarrow> word_ok (f_fixed E n x)"
  unfolding plain_floats_def word_ok_def list_all_iff
  by (intro conjI ballI) (fastforce simp: separators_def)+

fun begun :: "linePos \<Rightarrow> linePos" where
  "begun (Measurement b) = Measurement True"
| "begun (TagKey b) = TagKey True"
| "begun (TagVal b) = TagVal True"
| "begun (FieldKey b) = FieldKey True"
| "begun (FieldVal b) = FieldVal True"
| "begun pos = Broken"

lemma fold_word:
  assumes "word_ok w" and "begun pos \<noteq> Broken"
  shows "fold lineStep w pos = begun pos"
proof -
  have one: "lineStep c pos = begun pos" if "c \<notin> set separators" "begun pos \<noteq> Broken" for c pos
    using that by (cases pos) auto
  have idem: "begun (begun pos) = begun pos" for pos by (cases pos) auto
  have "fold lineStep w pos = begun pos" if "list_all (\<lambda>c. c \<notin> set separators) w" "pos = begun pos" "pos \<noteq> Broken" for w pos
    using that by (induction w) (auto simp: one)
  with one idem assms show ?thesis by (cases w) (auto simp: word_ok_def)
qed

lemma digit_ordinary: "is_digit c \<Longrightarrow> c \<notin> set separators \<and> c \<noteq> CHR ''-''"
  by (auto simp: is_digit_def separators_def)

lemma Itoa_word: "word_ok (Itoa i)"
proof -
  have "list_all (\<lambda>c. c \<notin> set separators) ds" if "list_all is_digit ds" for ds
    using that digit_ordinary by (auto simp: list_all_iff)
  moreover have "CHR ''-'' \<notin> set separators" by code_simp
  ultimately show ?thesis
    using dec_digits_digits [of i] dec_digits_digits [of "- i"]
    by (cases "i < 0") (auto simp: Itoa_def word_ok_def)
qed

lemma fold_stamp: "fold lineStep (Itoa i) (Stamp False) = Stamp True"
proof -
  have "fold lineStep ds (Stamp b) = Stamp (b \<or> ds \<noteq> [])" if "list_all is_digit ds" for ds b
    using that by (induction ds arbitrary: b) auto
  then show ?thesis
    using dec_digits_digits [of i] dec_digits_digits [of "- i"] by (cases "i < 0") (auto simp: Itoa_def)
qed

lemma word_escapeTag: "word_ok w \<Longrightarrow> escapeTag w = w"
proof -
  have "list_all (\<lambda>c. c \<notin> set separators) w \<Longrightarrow> escapeTag w = w"
    by (induction w) (auto simp: escapeTag_Cons tagSpecial_def separators_def)
  then show "word_ok w \<Longrightarrow> escapeTag w = w" by (simp add: word_ok_def)
qed

text \<open>The recogniser on formats: a verb stands for a word, at the end for a number.\<close>

fun pieceStep :: "piece \<Rightarrow> linePos \<Rightarrow> linePos" where
  "pieceStep (Lit c) pos = lineStep c pos"
| "pieceStep VerbD (Stamp b) = (if b then Broken else Stamp True)"
| "pieceStep BadVerb pos = Broken"
| "pieceStep v pos = begun pos"

fun isVerb :: "piece \<Rightarrow> bool" where
  "isVerb (Lit c) = False"
| "isVerb v = True"

fun wordArg :: "('r, 'f) pointEnv \<Rightarrow> piece \<Rightarrow> 'f arg \<Rightarrow> bool" where
  "wordArg E VerbS (ArgS w) = word_ok w"
| "wordArg E VerbD (ArgD i) = True"
| "wordArg E VerbT (ArgT b) = True"
| "wordArg E (VerbF n) (ArgF x) = True"
| "wordArg E v a = False"

lemma fold_broken: "fold pieceStep ps Broken = Broken"
proof (induction ps)
  case (Cons p ps)
  then show ?case by (cases p) auto
qed simp

lemma fillPieces_line:
  assumes "plain_floats E"
  shows "list_all2 (wordArg E) (filter isVerb ps) args \<Longrightarrow> fold pieceStep ps pos \<noteq> Broken \<Longrightarrow>
    \<exists>s. fillPieces E ps args = Some s \<and> fold lineStep s pos = fold pieceStep ps pos"
proof (induction ps arbitrary: args pos)
  case (Cons p ps)
  have pos: "pieceStep p pos \<noteq> Broken" using Cons.prems(2) fold_broken by (metis fold_simps(2))
  show ?case
  proof (cases "isVerb p")
    case False
    then obtain c where p: "p = Lit c" by (cases p) auto
    from Cons.IH [of args "lineStep c pos"] Cons.prems obtain s where
      "fillPieces E ps args = Some s" "fold lineStep s (lineStep c pos) = fold pieceStep ps (lineStep c pos)"
      by (auto simp: p)
    then show ?thesis by (auto simp: p)
  next
    case True
    with Cons.prems(1) obtain a args' where a: "args = a # args'" "wordArg E p a" "list_all2 (wordArg E) (filter isVerb ps) args'"
      by (auto simp: list_all2_Cons1)
    from Cons.IH [OF a(3), of "pieceStep p pos"] Cons.prems(2) obtain s where
      s: "fillPieces E ps args' = Some s" "fold lineStep s (pieceStep p pos) = fold pieceStep ps (pieceStep p pos)" by auto
    obtain w where "fillPieces E (p # ps) args = Some (w @ s)" "fold lineStep w pos = pieceStep p pos"
    proof (cases p)
      case VerbD
      then obtain i where i: "a = ArgD i" using a(2) by (cases a) auto
      have "fold lineStep (Itoa i) pos = pieceStep VerbD pos"
        using pos fold_word [OF Itoa_word] fold_stamp VerbD by (cases pos) (auto split: if_splits)
      with that VerbD i a(1) s(1) show ?thesis by simp
    next
      case VerbS
      then obtain w where "a = ArgS w" "word_ok w" using a(2) by (cases a) auto
      with that VerbS a(1) s(1) pos fold_word [of w pos] show ?thesis by simp
    next
      case VerbT
      then obtain b where b: "a = ArgT b" using a(2) by (cases a) auto
      have "word_ok ''true''" "word_ok ''false''" by code_simp+
      then have "word_ok (if b then ''true'' else ''false'')" by simp
      with that [of "if b then ''true'' else ''false''"] VerbT b a(1) s(1) pos fold_word [of _ pos] show ?thesis by simp
    next
      case (VerbF n)
      then obtain x where "a = ArgF x" using a(2) by (cases a) auto
      with that VerbF a(1) s(1) pos fold_word [OF plain_floats_word [OF assms], of pos n x] show ?thesis by simp
    qed (use True a(2) in auto)
    with s(2) show ?thesis by simp
  qed
qed simp

lemma Sprintf_line:
  assumes "plain_floats E" and "fold pieceStep (formatPieces f) (Measurement False) = Stamp True"
    and "list_all2 (wordArg E) (filter isVerb (formatPieces f)) args"
  shows "lineOk (Sprintf E f args)"
  using fillPieces_line [OF assms(1,3), of "Measurement False"] assms(2) by (auto simp: Sprintf_def lineOk_def)

section \<open>Results of the generator\<close>

definition returns :: "('a \<Rightarrow> bool) \<Rightarrow> ('r, 'a) state \<Rightarrow> bool" where
  "returns P m \<longleftrightarrow> (\<forall>r. P (fst (run_state m r)))"

lemma returns_return: "P a \<Longrightarrow> returns P (State_Monad.return a)"
  by (simp add: returns_def)

lemma returns_bind: "returns P m \<Longrightarrow> (\<And>a. P a \<Longrightarrow> returns Q (f a)) \<Longrightarrow> returns Q (State_Monad.bind m f)"
  by (auto simp: returns_def split: prod.splits) (metis fst_conv)

lemma returns_if: "(b \<Longrightarrow> returns P m) \<Longrightarrow> (\<not> b \<Longrightarrow> returns P m') \<Longrightarrow> returns P (if b then m else m')"
  by simp

lemma returns_Intn: "0 < n \<Longrightarrow> returns (\<lambda>i. 0 \<le> i \<and> i < n) (Intn E n)"
  by (simp add: returns_def Intn_def split: prod.splits)

lemma returns_chooseFrom: "xs \<noteq> [] \<Longrightarrow> returns (\<lambda>x. x \<in> set xs) (chooseFrom E xs)"
proof -
  assume "xs \<noteq> []"
  then have "0 < int (length xs)" by simp
  from returns_Intn [OF this] show ?thesis
    unfolding chooseFrom_def by (rule returns_bind) (simp add: returns_def nat_less_iff)
qed

lemma returns_numbered:
  assumes "word_ok p" and "0 < n"
  shows "returns word_ok (numbered E p n)"
  unfolding numbered_def
  by (rule returns_bind [OF returns_Intn [OF assms(2)]])
     (use assms(1) Itoa_word in \<open>simp add: returns_def word_ok_def\<close>)

lemma returns_any: "returns (\<lambda>x. True) (scaled E a)" "returns (\<lambda>x. True) (Float64 E)" "returns (\<lambda>t. True) (stamp E back)"
  by (simp_all add: returns_def)

lemma returns_words:
  assumes "xs \<noteq> []" and "list_all word_ok xs"
  shows "returns word_ok (chooseFrom E xs)"
  using returns_chooseFrom [OF assms(1), of E] assms(2) by (auto simp: returns_def list_all_iff)

lemma returns_numbers: "returns (\<lambda>x. True) (chooseFrom E (xs :: int list))"
  by (simp add: returns_def)

lemma word_literals [simp]:
  "word_ok [] = False" "word_ok [c] = (c \<notin> set separators)" "word_ok (c # d # w) = (c \<notin> set separators \<and> word_ok (d # w))"
  by (auto simp: word_ok_def)

text \<open>One rule per kind of step, with what is kept of its result.\<close>

lemmas returns_rules = returns_return returns_if returns_bind [OF returns_words] returns_bind [OF returns_numbers]
  returns_bind [OF returns_numbered] returns_bind [OF returns_Intn]
  returns_bind [OF returns_any(1)] returns_bind [OF returns_any(2)] returns_bind [OF returns_any(3)]

lemmas line_simps = list_all_iff endpoints_def separators_def word_escapeTag is_digit_def

lemma VizPoint_line:
  assumes "plain_floats E"
  shows "returns lineOk (generateVizPoint E)"
  unfolding generateVizPoint_def Let_def
  by (intro returns_rules Sprintf_line [OF assms]) (simp_all add: line_simps)

lemma HighCardPoint_line:
  assumes "plain_floats E"
  shows "returns lineOk (generateHighCardPoint E)"
  unfolding generateHighCardPoint_def Let_def
  by (intro returns_rules Sprintf_line [OF assms]) (simp_all add: line_simps)

lemma generatePoint_line:
  assumes "plain_floats E"
  shows "returns lineOk (generatePoint E vizRatio)"
  unfolding generatePoint_def
  by (intro returns_rules VizPoint_line HighCardPoint_line assms)

section \<open>Claims\<close>

definition asLines :: "string list \<Rightarrow> string" where
  "asLines ps = concat (map (\<lambda>p. p @ [newline]) ps)"

lemma fillBatch_points:
  assumes "\<And>r. P (fst (gen r))"
  shows "\<exists>ps. fillBatch gen targetBytes b rng = b @ asLines ps \<and> list_all P ps \<and>
    (ps \<noteq> [] \<longrightarrow> int (length (b @ asLines (butlast ps))) < targetBytes)"
  using assms
proof (induction gen targetBytes b rng rule: fillBatch.induct)
  case (1 gen targetBytes b rng)
  obtain p rng' where g: "gen rng = (p, rng')" by (cases "gen rng")
  show ?case
  proof (cases "int (length b) < targetBytes")
    case False
    then show ?thesis by (subst fillBatch.simps) (auto simp: asLines_def)
  next
    case True
    from "1.IH" [OF True g [symmetric] "1.prems"] obtain ps where
      ps: "fillBatch gen targetBytes (b @ p @ [newline]) rng' = (b @ p @ [newline]) @ asLines ps" "list_all P ps"
      "ps \<noteq> [] \<longrightarrow> int (length ((b @ p @ [newline]) @ asLines (butlast ps))) < targetBytes" by blast
    moreover have "P p" using "1.prems" [of rng] g by simp
    ultimately show ?thesis
      using True g by (subst fillBatch.simps) (intro exI [of _ "p # ps"], auto simp: asLines_def)
  qed
qed

text \<open>
  C33: a batch consists of whole lines of the line protocol. Whatever the random numbers and
  whatever the share of dashboard points, each line has a measurement, tags, fields and an
  integer time stamp, separated as the protocol wants, with no empty or broken word; the batch
  has at least the bytes asked for, and without its last line it would have fewer.
\<close>

theorem generateBatch_lines:
  assumes "plain_floats E"
  shows "\<exists>ps. generateBatch newRand (run_state (generatePoint E vizRatio)) seed targetBytes = asLines ps \<and>
    list_all lineOk ps \<and> targetBytes \<le> int (length (asLines ps)) \<and>
    (ps \<noteq> [] \<longrightarrow> int (length (asLines (butlast ps))) < targetBytes)"
proof -
  have "lineOk (fst (run_state (generatePoint E vizRatio) r))" for r
    using generatePoint_line [OF assms, of vizRatio] by (simp add: returns_def)
  from fillBatch_points [of lineOk "run_state (generatePoint E vizRatio)" targetBytes "[]" "newRand seed", OF this]
  show ?thesis
    using fillBatch_length [of targetBytes "run_state (generatePoint E vizRatio)" "[]" "newRand seed"]
    unfolding generateBatch_def by auto
qed

text \<open>Random numbers from a counter, whole numbers for floating-point ones.\<close>

definition counterEnv :: "(int, int) pointEnv" where
  "counterEnv = \<lparr>rng_draw = (\<lambda>n r. (r, r + 1)), rng_Float64 = (\<lambda>r. (r, r + 1)), unixNano = (\<lambda>r. (1700000000000000000, r)),
     f_lit = (\<lambda>s. int (length s)), f_ofint = (\<lambda>i. i), f_pi = 3, f_add = (+), f_mul = (*), f_div = (div), f_sin = (\<lambda>x. x),
     f_less = (<), f_fixed = (\<lambda>n x. Itoa x)\<rparr>"

theorem generateBatch_lines_witness:
  "\<exists>p ps. generateBatch (\<lambda>seed. seed) (run_state (generatePoint counterEnv 0)) 5 200 = asLines (p # ps) \<and> lineOk p"
proof -
  define plain where "plain = set ''0123456789.+-NaInf''"
  have "list_all (\<lambda>d. digit_char d \<in> set ''0123456789.+-NaInf'') [0..9]" by code_simp
  then have d: "digit_char d \<in> plain" if "0 \<le> d" "d < 10" for d
    using that by (auto simp: list_all_iff plain_def simp del: set_simps)
  have digits: "0 \<le> n \<Longrightarrow> set (dec_digits n) \<subseteq> plain" for n
  proof (induction n rule: dec_digits.induct)
    case (1 n)
    then show ?case using d [of n] d [of "n mod 10"] by (subst dec_digits.simps) auto
  qed
  have "set (Itoa i) \<subseteq> set ''0123456789.+-NaInf''" for i
    using digits [of i] digits [of "- i"] unfolding plain_def [symmetric]
    by (cases "i < 0") (auto simp: Itoa_def plain_def)
  then have "plain_floats counterEnv"
    using Itoa_word by (simp add: plain_floats_def counterEnv_def word_ok_def)
  from generateBatch_lines [OF this, of "\<lambda>seed. seed" 0 5 200] obtain ps where
    ps: "generateBatch (\<lambda>seed. seed) (run_state (generatePoint counterEnv 0)) 5 200 = asLines ps"
    "list_all lineOk ps" "200 \<le> int (length (asLines ps))" by blast
  then obtain p qs where "ps = p # qs" by (cases ps) (auto simp: asLines_def)
  with ps show ?thesis by auto
qed

end
