(* ===== verification/LoadRun.thy ===== *)
theory LoadRun
  imports LoadPoints GoFormat
begin

text \<open>
  \<open>cmd/loadgen/main.go\<close> from its flags to its exit status: the workers of \<open>Loadgen\<close> beside the
  goroutine that reports progress, and the end of \<open>main\<close>. Every run ends; what it reports on the
  way and at the end is true.
\<close>

section \<open>Progress reports\<close>

text \<open>What \<open>main\<close> and \<open>reportLoop\<close> log, and the text of it.\<close>

datatype load_log =
    Progress int int | Complete int int duration | LoadFailed go_error | NotStarted fatal

fun logText :: "int \<Rightarrow> load_log \<Rightarrow> string option" where
  "logText targetBytes (Progress bytes jobs) =
     Some (''progress: bytes_per_target='' @ Itoa bytes @ '' jobs='' @ Itoa jobs @ '' '' @
       fixed 1 (f64_mul (f64_div (f64_of_int bytes) (f64_of_int targetBytes)) 100) @ ''%'')"
| "logText targetBytes (Complete bytes jobs elapsed) =
     Some (''complete: bytes_per_target='' @ Itoa bytes @ '' jobs='' @ Itoa jobs @ '' elapsed='' @
       Duration_String (Duration_Round elapsed second))"
| "logText targetBytes (LoadFailed err) = Some (''load generation failed: '' @ errorString err)"
| "logText targetBytes (NotStarted err) = None"

text \<open>
  Where \<open>reportLoop\<close> is: not yet started, waiting in \<open>select\<close>, with the bytes loaded after a tick,
  returned, or in the panic of \<open>time.NewTicker\<close>, which does not accept a period that is not
  positive.
\<close>

datatype reporter = Starting | Waiting | Loaded int | ReporterDone | Panicked

record loadRun =
  work :: load
  reporter :: reporter
  load_logs :: "load_log list"

text \<open>
  A step of a worker or of \<open>reportLoop\<close>. \<open>main\<close> closes \<open>stop\<close> after all workers have returned; a
  panic of any goroutine ends the process.
\<close>

inductive runStep :: "(batchJob \<Rightarrow> string) \<Rightarrow> duration \<Rightarrow> loadRun \<Rightarrow> loadRun \<Rightarrow> bool" for batch period where
  worker: "reporter r \<noteq> Panicked \<Longrightarrow> loadStep batch (work r) l \<Longrightarrow> runStep batch period r (r\<lparr>work := l\<rparr>)"
| start_ticker: "reporter r = Starting \<Longrightarrow> 0 < period \<Longrightarrow> runStep batch period r (r\<lparr>reporter := Waiting\<rparr>)"
| ticker_panic: "reporter r = Starting \<Longrightarrow> period \<le> 0 \<Longrightarrow> runStep batch period r (r\<lparr>reporter := Panicked\<rparr>)"
| tick: "reporter r = Waiting \<Longrightarrow> runStep batch period r (r\<lparr>reporter := Loaded (bytesSent (work r))\<rparr>)"
| report: "reporter r = Loaded bytes \<Longrightarrow>
    runStep batch period r (r\<lparr>reporter := Waiting, load_logs := load_logs r @ [Progress bytes (jobsDone (work r))]\<rparr>)"
| stop: "reporter r = Waiting \<Longrightarrow> allStopped (work r) \<Longrightarrow> runStep batch period r (r\<lparr>reporter := ReporterDone\<rparr>)"

inductive_cases runStepE: "runStep batch period r r'"

definition startRun :: "batchJob list \<Rightarrow> int \<Rightarrow> loadRun" where
  "startRun jobs n = \<lparr>work = startLoad jobs n, reporter = Starting, load_logs = []\<rparr>"

section \<open>The process\<close>

text \<open>The end of \<open>main\<close>, after \<open>wg.Wait\<close>: the last log entry and the exit status.\<close>

definition loadExit :: "load \<Rightarrow> duration \<Rightarrow> load_log \<times> int" where
  "loadExit l elapsed =
     (case firstErr l of
        Some err \<Rightarrow> (LoadFailed err, 1)
      | None \<Rightarrow> (Complete (bytesSent l) (jobsDone l) elapsed, 0))"

text \<open>The flag \<open>viz-ratio\<close> is brought into the unit interval.\<close>

definition vizRatioOf :: "('r, 'f) pointEnv \<Rightarrow> 'f \<Rightarrow> 'f" where
  "vizRatioOf E vizRatio =
     (let vizRatio = (if f_less E vizRatio (f_lit E ''0'') then f_lit E ''0'' else vizRatio)
      in if f_less E (f_lit E ''1'') vizRatio then f_lit E ''1'' else vizRatio)"

definition batchOf :: "('r, 'f) pointEnv \<Rightarrow> (int \<Rightarrow> 'r) \<Rightarrow> int \<Rightarrow> 'f \<Rightarrow> batchJob \<Rightarrow> string" where
  "batchOf E newRand seed vizRatio j =
     generateBatch newRand (run_state (generatePoint E (vizRatioOf E vizRatio))) (wrap64 (seed + job_id j)) (job_size j)"

text \<open>
  \<open>main\<close>: the ways in which the process can end, with what it logged and its exit status. A fatal
  error exits with status 1, a panic with status 2.
\<close>

inductive loadMain :: "'e env \<Rightarrow> flags \<Rightarrow> (batchJob \<Rightarrow> string) \<Rightarrow> load_log list \<Rightarrow> int \<Rightarrow> bool" for env fl batch where
  fatal: "startup env fl = Inl err \<Longrightarrow> loadMain env fl batch [NotStarted err] 1"
| panic: "startup env fl = Inr (targets, urls, maxBatch, n) \<Longrightarrow>
    planJobs (targetBytes_flag fl) maxBatch = Some jobs \<Longrightarrow>
    (runStep batch (reportPeriod_flag fl))\<^sup>*\<^sup>* (startRun jobs n) r \<Longrightarrow> reporter r = Panicked \<Longrightarrow>
    loadMain env fl batch (load_logs r) 2"
| exit: "startup env fl = Inr (targets, urls, maxBatch, n) \<Longrightarrow>
    planJobs (targetBytes_flag fl) maxBatch = Some jobs \<Longrightarrow>
    (runStep batch (reportPeriod_flag fl))\<^sup>*\<^sup>* (startRun jobs n) r \<Longrightarrow> reporter r \<noteq> Panicked \<Longrightarrow>
    allStopped (work r) \<Longrightarrow> loadExit (work r) elapsed = (final, status) \<Longrightarrow>
    loadMain env fl batch (load_logs r @ [final]) status"

section \<open>Every run ends\<close>

text \<open>The steps a worker can still take with the job it has.\<close>

fun stepsLeft :: "worker \<Rightarrow> nat" where
  "stepsLeft Idle = 1"
| "stepsLeft (Received j) = 4"
| "stepsLeft (Busy j) = 3"
| "stepsLeft Counting = 2"
| "stepsLeft (Failing j err) = 1"
| "stepsLeft Stopped = 0"

definition potential :: "load \<Rightarrow> nat" where
  "potential l = 4 * length (queue l) + sum_list (map stepsLeft (workers l))"

lemma sum_stepsLeft_update:
  "i < length ws \<Longrightarrow> sum_list (map stepsLeft (ws[i := w])) + stepsLeft (ws ! i) = sum_list (map stepsLeft ws) + stepsLeft w"
proof (induction ws arbitrary: i)
  case (Cons v ws)
  then show ?case by (cases i) auto
qed simp

lemma loadStep_potential:
  assumes "loadStep batch l l'"
  shows "potential l' < potential l"
proof -
  have upd: "sum_list (map stepsLeft ((workers l)[i := w])) = sum_list (map stepsLeft (workers l)) + stepsLeft w - stepsLeft (workers l ! i)"
    "stepsLeft (workers l ! i) \<le> sum_list (map stepsLeft (workers l))"
    if "i < length (workers l)" for i w
    using sum_stepsLeft_update [OF that, of w] member_le_sum_list [of "stepsLeft (workers l ! i)" "map stepsLeft (workers l)"] that
    by auto
  from assms show ?thesis
    by cases (use upd in \<open>fastforce simp: potential_def\<close>)+
qed

lemma loadStep_bounded: "(loadStep batch ^^ k) l l' \<Longrightarrow> k + potential l' \<le> potential l"
proof (induction k arbitrary: l')
  case (Suc k)
  then obtain l1 where "(loadStep batch ^^ k) l l1" "loadStep batch l1 l'" by auto
  with Suc.IH [of l1] loadStep_potential [of batch l1 l'] show ?case by simp
qed simp

lemma loadStep_progress: "allStopped l \<or> (\<exists>l'. loadStep batch l l')"
proof (rule disjCI)
  assume "\<nexists>l'. loadStep batch l l'"
  then have no: "\<not> loadStep batch l l'" for l' by blast
  have "workers l ! i = Stopped" if i: "i < length (workers l)" for i
  proof (cases "workers l ! i")
    case Idle
    then show ?thesis using no loadStep.receive [OF _ i] loadStep.finish [OF _ i] by (cases "queue l") blast+
  next
    case (Received j)
    then show ?thesis using no loadStep.upload [OF i] loadStep.quit [OF i] by blast
  next
    case (Busy j)
    then show ?thesis using no loadStep.written [OF i] by blast
  next
    case Counting
    then show ?thesis using no loadStep.counted [OF i] by blast
  next
    case (Failing j err)
    then show ?thesis using no loadStep.record_err [OF i] by blast
  qed
  then show "allStopped l" by (auto simp: allStopped_def list_all_length)
qed


section \<open>What is reported\<close>

text \<open>The bytes of the batches of some jobs. As long as they fit the counters, the counters are exact.\<close>

abbreviation bytesOf :: "(batchJob \<Rightarrow> string) \<Rightarrow> batchJob list \<Rightarrow> int" where
  "bytesOf batch js \<equiv> \<Sum>j \<leftarrow> js. int (length (batch j))"

definition countable_load :: "(batchJob \<Rightarrow> string) \<Rightarrow> batchJob list \<Rightarrow> bool" where
  "countable_load batch jobs \<longleftrightarrow> bytesOf batch jobs \<le> max_int64 \<and> int (length jobs) \<le> max_int64"

lemma bytesOf_sub:
  assumes "mset js \<subseteq># mset jobs"
  shows "0 \<le> bytesOf batch js" "bytesOf batch js \<le> bytesOf batch jobs" "length js \<le> length jobs"
proof -
  obtain M where M: "mset jobs = mset js + M" using assms by (auto simp: subset_mset.le_iff_add)
  have "bytesOf batch jobs = bytesOf batch js + (\<Sum>j \<in># M. int (length (batch j)))"
    unfolding sum_mset_sum_list [symmetric] mset_map M by simp
  moreover have "0 \<le> (\<Sum>j \<in># M. int (length (batch j)))" by (induction M) auto
  ultimately show "bytesOf batch js \<le> bytesOf batch jobs" by simp
  show "0 \<le> bytesOf batch js" by (intro sum_list_nonneg) auto
  show "length js \<le> length jobs" using M by (metis le_add1 size_mset size_union)
qed

lemma loadInv_exact:
  assumes "loadInv batch jobs l" and "countable_load batch jobs"
  obtains ws where "mset ws + busyJobs (workers l) \<subseteq># mset jobs" "bytesSent l = bytesOf batch ws"
    "jobsDone l = int (length ws) - uncounted (workers l)" "0 \<le> jobsDone l"
    "bytesSent l \<le> bytesOf batch jobs" "length ws \<le> length jobs"
proof -
  from assms(1) obtain ws lost where inv: "mset jobs = mset (queue l) + busyJobs (workers l) + mset ws + mset lost"
    "bytesSent l = wrap64 (bytesOf batch ws)" "jobsDone l = wrap64 (int (length ws) - uncounted (workers l))"
    "uncounted (workers l) \<le> int (length ws)"
    unfolding loadInv_def by (elim exE conjE)
  have "mset jobs = mset ws + busyJobs (workers l) + (mset (queue l) + mset lost)" using inv(1) by simp
  then have sub: "mset ws + busyJobs (workers l) \<subseteq># mset jobs" by (metis mset_subset_eq_add_left)
  then have "mset ws \<subseteq># mset jobs" by (metis subset_mset.order_trans mset_subset_eq_add_left)
  note b = bytesOf_sub [OF this]
  have u: "0 \<le> uncounted (workers l)" by (auto simp: uncounted_def countingOf_def intro!: sum_list_nonneg)
  have "in_int64 (bytesOf batch ws)" "in_int64 (int (length ws) - uncounted (workers l))"
    using b(1,2) [of batch] b(3) u inv(4) assms(2) by (simp_all add: in_int64_def countable_load_def)
  with inv sub b show thesis by (intro that [of ws]) simp_all
qed

text \<open>The counters never go back.\<close>

lemma loadStep_monotone:
  assumes "loadStep batch l l'" and "loadInv batch jobs l" and "countable_load batch jobs"
  shows "bytesSent l \<le> bytesSent l'" "jobsDone l \<le> jobsDone l'"
proof -
  from loadInv_exact [OF assms(2,3)] obtain ws where ws: "mset ws + busyJobs (workers l) \<subseteq># mset jobs"
    "bytesSent l = bytesOf batch ws" "jobsDone l = int (length ws) - uncounted (workers l)" "0 \<le> jobsDone l"
    "length ws \<le> length jobs" by blast
  have "bytesSent l \<le> bytesSent l' \<and> jobsDone l \<le> jobsDone l'"
    using assms(1)
  proof cases
    case (written i j)
    have "busyJobs (workers l) = busyJobs ((workers l)[i := Stopped]) + {#j#}"
      using busyJobs_update [OF written(2), of Stopped] written(3) by simp
    then have "mset ws + busyJobs (workers l) = mset (j # ws) + busyJobs ((workers l)[i := Stopped])" by simp
    then have "mset (j # ws) \<subseteq># mset jobs"
      using ws(1) by (metis mset_subset_eq_add_left subset_mset.order_trans)
    from bytesOf_sub(2) [OF this, of batch] ws(2) assms(3)
    have "wrap64 (bytesSent l + int (length (batch j))) = bytesSent l + int (length (batch j))"
      using bytesOf_sub(1) [of ws ws batch] by (intro wrap64_id) (simp add: in_int64_def countable_load_def)
    with written show ?thesis by simp
  next
    case (counted i)
    have "uncounted (workers l) = 1 + uncounted ((workers l)[i := Stopped])"
      using uncounted_update [OF counted(2), of Stopped] counted(3) by (simp add: countingOf_def)
    moreover have "0 \<le> uncounted ((workers l)[i := Stopped])"
      by (auto simp: uncounted_def countingOf_def intro!: sum_list_nonneg)
    ultimately have "jobsDone l + 1 \<le> int (length jobs)" using ws(3,5) by linarith
    then have "wrap64 (jobsDone l + 1) = jobsDone l + 1"
      using ws(4) assms(3) by (intro wrap64_id) (simp add: in_int64_def countable_load_def)
    with counted show ?thesis by simp
  qed simp_all
  then show "bytesSent l \<le> bytesSent l'" "jobsDone l \<le> jobsDone l'" by simp_all
qed

text \<open>The bytes that the next report will give at least, as far as they are fixed by now.\<close>

definition lastBytes :: "loadRun \<Rightarrow> int" where
  "lastBytes r = (case reporter r of Loaded bytes \<Rightarrow> bytes | _ \<Rightarrow> bytesSent (work r))"

definition progressLogs :: "(int \<times> int) list \<Rightarrow> load_log list" where
  "progressLogs ps = map (\<lambda>(bytes, jobs). Progress bytes jobs) ps"

definition runInv :: "(batchJob \<Rightarrow> string) \<Rightarrow> batchJob list \<Rightarrow> duration \<Rightarrow> loadRun \<Rightarrow> bool" where
  "runInv batch jobs period r \<longleftrightarrow>
     loadInv batch jobs (work r) \<and> lastBytes r \<le> bytesSent (work r) \<and>
     (reporter r = Starting \<longrightarrow> load_logs r = []) \<and> (reporter r = Panicked \<longrightarrow> load_logs r = [] \<and> period \<le> 0) \<and>
     (\<exists>ps. load_logs r = progressLogs ps \<and> sorted (map fst ps) \<and> sorted (map snd ps) \<and>
        list_all (\<lambda>(bytes, n). bytes \<le> lastBytes r \<and> n \<le> jobsDone (work r)) ps)"

lemma runInv_step:
  assumes "runStep batch period r r'" and "runInv batch jobs period r" and "countable_load batch jobs"
  shows "runInv batch jobs period r'"
proof -
  from assms(2) obtain ps where inv: "loadInv batch jobs (work r)" "lastBytes r \<le> bytesSent (work r)"
    "reporter r = Starting \<longrightarrow> load_logs r = []"
    and ps: "load_logs r = progressLogs ps" "sorted (map fst ps)" "sorted (map snd ps)"
    "list_all (\<lambda>(bytes, n). bytes \<le> lastBytes r \<and> n \<le> jobsDone (work r)) ps"
    unfolding runInv_def by (elim exE conjE)
  have keep: "runInv batch jobs period r'" if "load_logs r' = load_logs r" "loadInv batch jobs (work r')"
    "lastBytes r \<le> lastBytes r'" "lastBytes r' \<le> bytesSent (work r')" "jobsDone (work r) \<le> jobsDone (work r')"
    "reporter r' = Starting \<longrightarrow> reporter r = Starting" "reporter r' = Panicked \<longrightarrow> reporter r = Starting \<and> period \<le> 0"
  proof -
    have "list_all (\<lambda>(bytes, n). bytes \<le> lastBytes r' \<and> n \<le> jobsDone (work r')) ps"
      using ps(4) that(3,5) by (auto simp: list_all_iff)
    with that ps(1-3) inv(3) show ?thesis unfolding runInv_def by - (intro conjI exI [of _ ps]; simp)
  qed
  from assms(1) show ?thesis
  proof cases
    case (worker l)
    from loadStep_monotone [OF worker(3) inv(1) assms(3)] loadInv_step [OF worker(3) inv(1)] worker inv(2)
    show ?thesis by (intro keep) (auto simp: lastBytes_def split: reporter.splits)
  next
    case (report bytes)
    have "list_all (\<lambda>(b, n). b \<le> lastBytes r' \<and> n \<le> jobsDone (work r')) (ps @ [(bytes, jobsDone (work r))])"
      "sorted (map fst (ps @ [(bytes, jobsDone (work r))]))" "sorted (map snd (ps @ [(bytes, jobsDone (work r))]))"
      using report inv(2) ps(2-4) by (auto simp: lastBytes_def list_all_iff sorted_append)
    then show ?thesis
      using report inv(1) ps(1) unfolding runInv_def
      by - (intro conjI exI [of _ "ps @ [(bytes, jobsDone (work r))]"]; simp add: lastBytes_def progressLogs_def)
  qed (use inv in \<open>intro keep; simp add: lastBytes_def\<close>)+
qed

lemma runInv_reachable:
  assumes "(runStep batch period)\<^sup>*\<^sup>* (startRun jobs n) r" and "countable_load batch jobs"
  shows "runInv batch jobs period r"
  using assms(1)
proof induction
  case base
  show ?case
    using loadInv_start unfolding runInv_def
    by - (intro conjI exI [of _ "[]"]; simp add: startRun_def lastBytes_def progressLogs_def)
qed (use runInv_step assms(2) in blast)

lemma runStep_work: "(runStep batch period)\<^sup>*\<^sup>* r r' \<Longrightarrow> (loadStep batch)\<^sup>*\<^sup>* (work r) (work r')"
  by (induction rule: rtranclp_induct) (auto elim!: runStepE intro: rtranclp.rtrancl_into_rtrancl)

text \<open>
  The last log entry and the exit status that fit a run with the progress reports \<open>ps\<close>; there is
  no last entry after a panic.
\<close>

definition reportEnd :: "flags \<Rightarrow> (batchJob \<Rightarrow> string) \<Rightarrow> batchJob list \<Rightarrow> (int \<times> int) list \<Rightarrow> load_log list \<Rightarrow> int \<Rightarrow> bool" where
  "reportEnd fl batch jobs ps final status \<longleftrightarrow>
     (case final of
       [Complete bytes done elapsed] \<Rightarrow> status = 0 \<and> bytes = bytesOf batch jobs \<and> targetBytes_flag fl \<le> bytes \<and>
         done = int (length jobs) \<and> list_all (\<lambda>(b, d). b \<le> bytes \<and> d \<le> done) ps
     | [LoadFailed err] \<Rightarrow> status = 1
     | [] \<Rightarrow> status = 2 \<and> ps = [] \<and> reportPeriod_flag fl \<le> 0
     | _ \<Rightarrow> False)"

section \<open>Claims\<close>





end
