(* ===== verification/Querybench.thy ===== *)
theory Querybench
  imports World GoFormat "HOL-Library.List_Lexorder" "HOL-Library.Char_ord"
begin

text \<open>
  \<open>cmd/querybench/main.go\<close>: one timed request, the workers and the aggregation of their results
  in the order in which they arrive, percentiles in \<open>float64\<close>, and the report with its exit status.
  Log output is left out.
\<close>

section \<open>Requests\<close>

record result =
  latencyMillis :: rat
  r_status :: int
  r_cache :: string
  r_target :: string
  r_err :: "string option"

definition failedResult :: "string \<Rightarrow> result" where
  "failedResult err = \<lparr>latencyMillis = 0, r_status = 0, r_cache = [], r_target = [], r_err = Some err\<rparr>"

text \<open>
  The result of an answer. A response whose body cannot be read counts as one without a body.
\<close>

definition readAnswer :: "'e env \<Rightarrow> instant \<Rightarrow> int \<Rightarrow> http_response \<Rightarrow> ('e, 'x, result) io" where
  "readAnswer env start maxRead resp =
     (let cache = TrimSpace (hdr_Get (rs_header resp) ''X-Cache'');
          live = TrimSpace (hdr_Get (rs_header resp) ''X-Target-Live'');
          target = (if live = [] then TrimSpace (hdr_Get (rs_header resp) ''X-Target'') else live);
          status = rs_status resp
      in if status < 200 \<or> status \<ge> 300 then
           State_Monad.return \<lparr>latencyMillis = 0, r_status = status, r_cache = cache, r_target = target,
             r_err = Some (''status='' @ Itoa status @ '' body='' @
               TrimSpace (take (nat maxRead) (case rs_body resp of Inl err \<Rightarrow> [] | Inr b \<Rightarrow> b)))\<rparr>
         else do {
           d \<leftarrow> time_Since env start;
           State_Monad.return \<lparr>latencyMillis = f64_div (f64_of_int (go_div d 1000)) 1000, r_status = status,
             r_cache = cache, r_target = target, r_err = None\<rparr>
         })"

definition doReq :: "'e env \<Rightarrow> string \<Rightarrow> string \<Rightarrow> string \<Rightarrow> int \<Rightarrow> ('e, 'x, result) io" where
  "doReq env url token query maxRead = do {
     start \<leftarrow> time_Now env;
     (case http_NewRequest env ''POST'' url of
        Some err \<Rightarrow> State_Monad.return (failedResult err)
      | None \<Rightarrow> do {
          resp \<leftarrow> client_Do env
            \<lparr>rq_method = ''POST'', rq_url = url,
             rq_header = hdr_Set ''Accept'' ''application/csv'' (hdr_Set ''Content-Type'' ''application/vnd.flux''
               (hdr_Set ''Authorization'' (''Bearer '' @ token) [])),
             rq_body = query\<rparr>;
          (case resp of
             Inl err \<Rightarrow> State_Monad.return (failedResult err)
           | Inr resp \<Rightarrow> readAnswer env start maxRead resp)
        })
   }"

section \<open>Aggregation\<close>

record aggregate =
  latencies :: "rat list"
  statusCounts :: "(int \<times> int) list"
  cacheCounts :: "(string \<times> int) list"
  targetCounts :: "(string \<times> int) list"
  errorCount :: int

text \<open>\<open>m[k]++\<close>.\<close>

fun bump :: "'k \<Rightarrow> ('k \<times> int) list \<Rightarrow> ('k \<times> int) list" where
  "bump k [] = [(k, 1)]"
| "bump k ((k', n) # m) = (if k = k' then (k', n + 1) # m else (k', n) # bump k m)"

definition orUnknown :: "string \<Rightarrow> string" where
  "orUnknown s = (if s = [] then ''UNKNOWN'' else s)"

definition addResult :: "aggregate \<Rightarrow> result \<Rightarrow> aggregate" where
  "addResult agg r =
     (if r_err r \<noteq> None then agg\<lparr>errorCount := errorCount agg + 1\<rparr>
      else agg\<lparr>latencies := latencies agg @ [latencyMillis r], statusCounts := bump (r_status r) (statusCounts agg),
        cacheCounts := bump (orUnknown (r_cache r)) (cacheCounts agg),
        targetCounts := bump (orUnknown (r_target r)) (targetCounts agg)\<rparr>)"

definition aggregateAll :: "result list \<Rightarrow> aggregate" where
  "aggregateAll rs = foldl addResult
     \<lparr>latencies = [], statusCounts = [], cacheCounts = [], targetCounts = [], errorCount = 0\<rparr> rs"

section \<open>Figures\<close>

definition percentile :: "rat list \<Rightarrow> rat \<Rightarrow> rat" where
  "percentile ordered p =
     (if ordered = [] then 0
      else if p \<le> 0 then ordered ! 0
      else if p \<ge> 100 then ordered ! (length ordered - 1)
      else
        (let idx = \<lceil>f64_mul (f64_div p 100) (f64_of_int (int (length ordered)))\<rceil> - 1;
             idx = (if idx < 0 then 0 else idx);
             idx = (if idx \<ge> int (length ordered) then int (length ordered) - 1 else idx)
         in ordered ! nat idx))"

definition pct :: "int \<Rightarrow> int \<Rightarrow> rat" where
  "pct n requests = (if requests = 0 then 0 else f64_mul (f64_div (f64_of_int n) (f64_of_int requests)) 100)"

definition printMap :: "('k::linorder \<Rightarrow> string) \<Rightarrow> ('k \<times> int) list \<Rightarrow> string" where
  "printMap show_key m =
     concat (map (\<lambda>k. ''  '' @ show_key k @ '': '' @ Itoa (case map_of m k of None \<Rightarrow> 0 | Some n \<Rightarrow> n) @ [newline])
       (sort (map fst m)))"

definition printIntMap :: "(int \<times> int) list \<Rightarrow> string" where
  "printIntMap m = printMap Itoa m"

definition printStringMap :: "(string \<times> int) list \<Rightarrow> string" where
  "printStringMap m = printMap (\<lambda>k. k) m"

section \<open>The report\<close>

record bench_flags =
  b_url :: string
  b_token :: string
  b_query :: string
  b_concurrency :: int
  b_duration :: duration
  b_warmup :: int
  b_maxRead :: int
  b_progress :: duration

text \<open>\<open>main\<close> raises the concurrency to one.\<close>

definition workersOf :: "int \<Rightarrow> int" where
  "workersOf concurrency = (if concurrency < 1 then 1 else concurrency)"

definition reportHeading :: "bench_flags \<Rightarrow> string" where
  "reportHeading fl =
     ''=== Query Benchmark ==='' @ [newline] @ ''url='' @ b_url fl @ [newline] @
     ''concurrency='' @ Itoa (workersOf (b_concurrency fl)) @ '' duration='' @ Duration_String (b_duration fl) @
     '' warmup='' @ Itoa (b_warmup fl) @ [newline]"

definition latencyLine :: "rat list \<Rightarrow> string" where
  "latencyLine ordered =
     (if ordered = [] then []
      else
        (let sum = foldl f64_add 0 ordered; avg = f64_div sum (f64_of_int (int (length ordered)))
         in ''latency_ms min='' @ fixed 2 (ordered ! 0) @ '' avg='' @ fixed 2 avg @
            '' p50='' @ fixed 2 (percentile ordered 50) @ '' p90='' @ fixed 2 (percentile ordered 90) @
            '' p95='' @ fixed 2 (percentile ordered 95) @ '' p99='' @ fixed 2 (percentile ordered 99) @
            '' max='' @ fixed 2 (ordered ! (length ordered - 1)) @ [newline]))"

text \<open>
  The printed report and the exit status; \<open>None\<close> for \<open>no requests completed\<close>.
\<close>

definition benchReport :: "bench_flags \<Rightarrow> aggregate \<Rightarrow> (string \<times> int) option" where
  "benchReport fl agg =
     (let requests = int (length (latencies agg)) + errorCount agg; ordered = sort (latencies agg)
      in if requests = 0 then None
         else Some
           (reportHeading fl @
            ''total_requests='' @ Itoa requests @ '' successful='' @ Itoa (int (length ordered)) @ '' errors='' @ Itoa (errorCount agg) @
            '' error_rate='' @ fixed 2 (pct (errorCount agg) requests) @ ''%'' @ [newline] @
            ''throughput_rps='' @ fixed 2 (f64_div (f64_of_int requests) (secondsOf (b_duration fl))) @ [newline] @
            latencyLine ordered @
            ''status_counts:'' @ [newline] @ printIntMap (statusCounts agg) @
            ''cache_header_counts:'' @ [newline] @ printStringMap (cacheCounts agg) @
            ''target_header_counts:'' @ [newline] @ printStringMap (targetCounts agg),
            if ordered \<noteq> [] \<and> (percentile ordered 99 > 5000 \<or> pct (errorCount agg) requests > 1) then 2 else 0))"

section \<open>Workers\<close>

text \<open>
  Where a worker is in its loop: about to look whether the time is up, or with a result for the
  channel, or returned.
\<close>

datatype bench_worker = Looping | Sending result | Returned

record bench =
  bench_workers :: "bench_worker list"
  channel :: "result list"
  taken :: "result option"
  agg :: aggregate
  sent :: int
  completed :: int
  errCount :: int

text \<open>
  A step of a worker or of the goroutine that aggregates, in any order. A request may have any
  result; a worker may find at any time that the time is up; the channel holds 4096 results. The aggregating goroutine takes a
  result out of the channel and counts it before it adds it to the aggregate.
\<close>

inductive benchStep :: "bench \<Rightarrow> bench \<Rightarrow> bool" where
  request: "i < length (bench_workers b) \<Longrightarrow> bench_workers b ! i = Looping \<Longrightarrow>
    benchStep b (b\<lparr>bench_workers := (bench_workers b)[i := Sending r], sent := wrap64 (sent b + 1)\<rparr>)"
| time_up: "i < length (bench_workers b) \<Longrightarrow> bench_workers b ! i = Looping \<Longrightarrow>
    benchStep b (b\<lparr>bench_workers := (bench_workers b)[i := Returned]\<rparr>)"
| send: "i < length (bench_workers b) \<Longrightarrow> bench_workers b ! i = Sending r \<Longrightarrow> length (channel b) < 4096 \<Longrightarrow>
    benchStep b (b\<lparr>bench_workers := (bench_workers b)[i := Looping], channel := channel b @ [r]\<rparr>)"
| collect: "taken b = None \<Longrightarrow> channel b = r # rs \<Longrightarrow>
    benchStep b (b\<lparr>channel := rs, taken := Some r, completed := wrap64 (completed b + 1)\<rparr>)"
| aggregate: "taken b = Some r \<Longrightarrow>
    benchStep b (b\<lparr>taken := None, errCount := (if r_err r \<noteq> None then wrap64 (errCount b + 1) else errCount b),
      agg := addResult (agg b) r\<rparr>)"

inductive_cases benchStepE: "benchStep b b'"

definition startBench :: "int \<Rightarrow> bench" where
  "startBench concurrency =
     \<lparr>bench_workers = replicate (nat (workersOf concurrency)) Looping, channel = [], taken = None,
      agg = aggregateAll [], sent = 0, completed = 0, errCount = 0\<rparr>"

text \<open>
  \<open>main\<close> up to the start of the workers. The deadline of the workers is already running during
  the warm-up requests, whose results are not used.
\<close>

primrec warmupRuns :: "'e env \<Rightarrow> string \<Rightarrow> string \<Rightarrow> string \<Rightarrow> int \<Rightarrow> nat \<Rightarrow> ('e, 'x, unit) io" where
  "warmupRuns env url token query maxRead 0 = State_Monad.return ()"
| "warmupRuns env url token query maxRead (Suc n) = do {
     _ \<leftarrow> doReq env url token query maxRead;
     warmupRuns env url token query maxRead n
   }"

definition prepareBench :: "'e env \<Rightarrow> bench_flags \<Rightarrow> ('e, 'x, (instant \<times> instant \<times> bench) option) io" where
  "prepareBench env fl =
     (if b_duration fl \<le> 0 then State_Monad.return None
      else do {
        deadline \<leftarrow> time_Now env;
        startRun \<leftarrow> time_Now env;
        warmupRuns env (b_url fl) (b_token fl) (b_query fl) (b_maxRead fl) (nat (b_warmup fl));
        State_Monad.return (Some (deadline + b_duration fl, startRun, startBench (b_concurrency fl)))
      })"

text \<open>All workers have returned, and the results of the closed channel are aggregated.\<close>

definition benchDone :: "bench \<Rightarrow> bool" where
  "benchDone b \<longleftrightarrow> list_all (\<lambda>w. w = Returned) (bench_workers b) \<and> channel b = [] \<and> taken b = None"

section \<open>Counting\<close>

definition countOf :: "'k \<Rightarrow> 'k list \<Rightarrow> int" where
  "countOf k ks = int (count_list ks k)"

lemma map_of_bump: "map_of (bump k m) k' = (if k' = k then Some (case map_of m k of None \<Rightarrow> 1 | Some n \<Rightarrow> n + 1) else map_of m k')"
  by (induction k m rule: bump.induct) auto

lemma bump_keys: "set (map fst (bump k m)) = insert k (set (map fst m))"
  by (induction k m rule: bump.induct) auto

lemma bump_distinct: "distinct (map fst m) \<Longrightarrow> distinct (map fst (bump k m))"
proof (induction k m rule: bump.induct)
  case (2 k k' n m)
  then show ?case using bump_keys [of k m] by auto
qed simp

lemma sum_bump: "sum_list (map snd (bump k m)) = sum_list (map snd m) + 1"
  by (induction k m rule: bump.induct) auto

text \<open>Counting a list of keys.\<close>

definition tally :: "'k list \<Rightarrow> ('k \<times> int) list" where
  "tally ks = foldl (\<lambda>m k. bump k m) [] ks"

lemma tally_snoc: "tally (ks @ [k]) = bump k (tally ks)"
  by (simp add: tally_def)

lemma tally_keys: "distinct (map fst (tally ks))" "set (map fst (tally ks)) = set ks"
  by (induction ks rule: rev_induct) (simp_all add: tally_snoc bump_keys bump_distinct del: set_map, simp_all add: tally_def)

lemma map_of_tally: "map_of (tally ks) k = (if k \<in> set ks then Some (countOf k ks) else None)"
proof (induction ks arbitrary: k rule: rev_induct)
  case (snoc x ks)
  then show ?case
    by (auto simp: tally_snoc map_of_bump countOf_def count_list_0_iff)
qed (simp add: tally_def)

lemma sum_tally: "sum_list (map snd (tally ks)) = int (length ks)"
  by (induction ks rule: rev_induct) (simp_all add: tally_snoc sum_bump, simp add: tally_def)

text \<open>What is printed of a tally depends only on how often each key occurs.\<close>

lemma printMap_tally:
  "printMap show_key (tally ks) =
     concat (map (\<lambda>k. ''  '' @ show_key k @ '': '' @ Itoa (countOf k ks) @ [newline]) (sorted_list_of_set (set ks)))"
proof -
  have "sort (map fst (tally ks)) = sorted_list_of_set (set ks)"
    using sorted_list_of_set_sort_remdups [of "map fst (tally ks)"] tally_keys [of ks] by (metis distinct_remdups_id)
  moreover have "(case map_of (tally ks) k of None \<Rightarrow> 0 | Some n \<Rightarrow> n) = countOf k ks" for k
    by (simp add: map_of_tally countOf_def)
  ultimately show ?thesis by (simp add: printMap_def)
qed

lemma countOf_mset: "countOf k ks = int (count (mset ks) k)"
  by (simp add: countOf_def count_mset)

lemma printMap_perm: "mset ks = mset ks' \<Longrightarrow> printMap show_key (tally ks) = printMap show_key (tally ks')"
proof -
  assume m: "mset ks = mset ks'"
  then have "set ks = set ks'" by (rule mset_eq_setD)
  with m show ?thesis unfolding printMap_tally countOf_mset by simp
qed

section \<open>What the aggregate holds\<close>

definition successes :: "result list \<Rightarrow> result list" where
  "successes rs = filter (\<lambda>r. r_err r = None) rs"

lemma aggregateAll_eq:
  "aggregateAll rs =
     \<lparr>latencies = map latencyMillis (successes rs), statusCounts = tally (map r_status (successes rs)),
      cacheCounts = tally (map (\<lambda>r. orUnknown (r_cache r)) (successes rs)),
      targetCounts = tally (map (\<lambda>r. orUnknown (r_target r)) (successes rs)),
      errorCount = int (length rs) - int (length (successes rs))\<rparr>"
proof (induction rs rule: rev_induct)
  case (snoc r rs)
  have "aggregateAll (rs @ [r]) = addResult (aggregateAll rs) r" by (simp add: aggregateAll_def)
  with snoc show ?case by (auto simp: addResult_def successes_def tally_snoc)
qed (simp add: aggregateAll_def successes_def tally_def)

lemma successes_perm: "mset rs = mset rs' \<Longrightarrow> mset (successes rs) = mset (successes rs')"
  by (simp add: successes_def)

section \<open>Runs\<close>

definition sendingCount :: "bench_worker list \<Rightarrow> nat" where
  "sendingCount ws = length (filter (\<lambda>w. case w of Sending r \<Rightarrow> True | _ \<Rightarrow> False) ws)"

lemma sendingCount_update:
  "i < length ws \<Longrightarrow> sendingCount (ws[i := w]) + sendingCount [ws ! i] = sendingCount ws + sendingCount [w]"
proof (induction ws arbitrary: i)
  case (Cons v ws)
  then show ?case by (cases i) (auto simp: sendingCount_def)
qed simp

definition takenCount :: "bench \<Rightarrow> int" where
  "takenCount b = (case taken b of None \<Rightarrow> 0 | Some r \<Rightarrow> 1)"

definition benchInv :: "bench \<Rightarrow> bool" where
  "benchInv b \<longleftrightarrow> (\<exists>rs. agg b = aggregateAll rs \<and> completed b = wrap64 (int (length rs) + takenCount b) \<and>
     errCount b = wrap64 (errorCount (agg b)) \<and>
     sent b = wrap64 (int (length rs) + takenCount b + int (length (channel b)) + int (sendingCount (bench_workers b))))"

lemma aggregateAll_snoc: "aggregateAll (rs @ [r]) = addResult (aggregateAll rs) r"
  by (simp add: aggregateAll_def)

lemma benchInv_step:
  assumes "benchStep b b'" and "benchInv b"
  shows "benchInv b'"
proof -
  obtain rs where rs: "agg b = aggregateAll rs" "completed b = wrap64 (int (length rs) + takenCount b)"
    "errCount b = wrap64 (errorCount (agg b))"
    "sent b = wrap64 (int (length rs) + takenCount b + int (length (channel b)) + int (sendingCount (bench_workers b)))"
    using assms(2) unfolding benchInv_def by (elim exE conjE)
  note upd = sendingCount_update [of _ "bench_workers b"]
  from assms(1) show ?thesis
  proof cases
    case (request i r)
    then have "sendingCount ((bench_workers b)[i := Sending r]) = sendingCount (bench_workers b) + 1"
      using upd [of i "Sending r"] by (simp add: sendingCount_def)
    with request rs show ?thesis
      unfolding benchInv_def by (intro exI [of _ rs]) (simp add: takenCount_def wrap64_add algebra_simps)
  next
    case (time_up i)
    then have "sendingCount ((bench_workers b)[i := Returned]) = sendingCount (bench_workers b)"
      using upd [of i Returned] by (simp add: sendingCount_def)
    with time_up rs show ?thesis unfolding benchInv_def by (intro exI [of _ rs]) (simp add: takenCount_def)
  next
    case (send i r)
    then have "sendingCount (bench_workers b) = sendingCount ((bench_workers b)[i := Looping]) + 1"
      using upd [of i Looping] by (simp add: sendingCount_def)
    with send rs show ?thesis unfolding benchInv_def by (intro exI [of _ rs]) (auto simp: takenCount_def algebra_simps)
  next
    case (collect r rs')
    with rs show ?thesis
      unfolding benchInv_def by (intro exI [of _ rs]) (simp add: takenCount_def wrap64_add algebra_simps)
  next
    case (aggregate r)
    have "errorCount (addResult (agg b) r) = (if r_err r \<noteq> None then errorCount (agg b) + 1 else errorCount (agg b))"
      by (simp add: addResult_def)
    with aggregate rs show ?thesis
      unfolding benchInv_def
      by (intro exI [of _ "rs @ [r]"]) (auto simp: aggregateAll_snoc takenCount_def wrap64_add algebra_simps)
  qed
qed

lemma benchInv_reachable:
  assumes "benchStep\<^sup>*\<^sup>* (startBench n) b"
  shows "benchInv b"
  using assms
proof induction
  case base
  have "sendingCount (replicate k Looping) = 0" for k by (induction k) (auto simp: sendingCount_def)
  then show ?case
    unfolding benchInv_def startBench_def
    by (intro exI [of _ "[]"]) (simp add: aggregateAll_eq successes_def takenCount_def in_int64_def)
qed (rule benchInv_step)

text \<open>A benchmark that is not done is not stuck.\<close>

lemma bench_progress: "benchDone b \<or> (\<exists>b'. benchStep b b')"
proof (cases "taken b = None \<and> channel b = []")
  case True
  show ?thesis
  proof (cases "list_all (\<lambda>w. w = Returned) (bench_workers b)")
    case False
    then obtain i where i: "i < length (bench_workers b)" "bench_workers b ! i \<noteq> Returned"
      by (auto simp: list_all_length)
    then show ?thesis
      using True benchStep.time_up [of i b] benchStep.send [of i b] by (cases "bench_workers b ! i") auto
  qed (use True in \<open>simp add: benchDone_def\<close>)
next
  case False
  then show ?thesis
    using benchStep.collect [of b] benchStep.aggregate [of b] by (cases "taken b"; cases "channel b") blast+
qed

text \<open>The exit status of the report.\<close>

definition beyondLimits :: "result list \<Rightarrow> bool" where
  "beyondLimits rs \<longleftrightarrow> successes rs \<noteq> [] \<and>
     (percentile (sort (map latencyMillis (successes rs))) 99 > 5000 \<or>
      pct (int (length rs) - int (length (successes rs))) (int (length rs)) > 1)"

lemma benchReport_status:
  "benchReport fl (aggregateAll []) = None"
  "rs \<noteq> [] \<Longrightarrow> \<exists>out. benchReport fl (aggregateAll rs) = Some (out, if beyondLimits rs then 2 else 0)"
proof -
  show "benchReport fl (aggregateAll []) = None" by (simp add: benchReport_def aggregateAll_def)
  have "sort xs = [] \<longleftrightarrow> xs = []" for xs :: "rat list" by (metis length_0_conv length_sort)
  then show "\<exists>out. benchReport fl (aggregateAll rs) = Some (out, if beyondLimits rs then 2 else 0)" if "rs \<noteq> []"
    using that unfolding benchReport_def aggregateAll_eq beyondLimits_def Let_def by simp
qed

lemma benchReport_perm:
  assumes "mset rs = mset rs'"
  shows "benchReport fl (aggregateAll rs) = benchReport fl (aggregateAll rs')"
proof -
  note s = successes_perm [OF assms]
  have len: "length rs = length rs'" "length (successes rs) = length (successes rs')"
    using mset_eq_length [OF assms] mset_eq_length [OF s] by simp_all
  have sort: "sort (map latencyMillis (successes rs)) = sort (map latencyMillis (successes rs'))"
    using s by (intro properties_for_sort) simp_all
  have maps: "printMap sh (tally (map f (successes rs))) = printMap sh (tally (map f (successes rs')))"
    for sh and f :: "result \<Rightarrow> 'k::linorder"
    using s by (intro printMap_perm) simp
  show ?thesis
    unfolding benchReport_def Let_def aggregateAll_eq printIntMap_def printStringMap_def
    by (simp add: len sort maps)
qed

section \<open>Percentiles\<close>

text \<open>Where the computed product differs from the exact one by little, the index is exact.\<close>

lemma ceiling_product:
  fixes c :: rat
  assumes n: "0 < n" "n < 2 ^ 40" and p: "0 < p" "p < 100"
    and r: "0 < r" "r < 1" "\<bar>r - of_int p / 100\<bar> \<le> r / (2 * 10 ^ 16)"
  shows "\<lceil>round64 (r * of_int n)\<rceil> = \<lceil>of_int (p * n) / (100 :: rat)\<rceil>"
proof -
  define y q :: rat where "y = r * of_int n" and "q = of_int (p * n) / 100"
  have n': "(0 :: rat) < of_int n" "(of_int n :: rat) < 2 ^ 40"
    using n of_int_less_iff [of n "2 ^ 40", where ?'a = rat] by simp_all
  have y: "0 < y" "y < 2 ^ 40"
    using r(1,2) n' mult_strict_right_mono [of r 1 "of_int n :: rat"] unfolding y_def by (simp, linarith)
  have "\<bar>y - q\<bar> = \<bar>r - of_int p / 100\<bar> * of_int n"
    using n' by (simp add: y_def q_def abs_mult_pos left_diff_distrib)
  also have "\<dots> \<le> r / (2 * 10 ^ 16) * of_int n" using r(3) n' by (intro mult_right_mono) auto
  finally have err: "\<bar>y - q\<bar> \<le> y / (2 * 10 ^ 16)" by (simp add: y_def)
  show ?thesis
  proof (cases "q = of_int \<lceil>q\<rceil>")
    case True
    have "round64 y = of_int \<lceil>q\<rceil>" using y err True by (intro round64_near_whole) auto
    then show ?thesis by (simp add: y_def q_def)
  next
    case False
    define c where "c = \<lceil>q\<rceil>"
    have "of_int c - 1 < q" "q < of_int c" using False unfolding c_def by linarith+
    then have "of_int (100 * c - 100) < (of_int (p * n) :: rat)" "(of_int (p * n) :: rat) < of_int (100 * c)"
      by (simp_all add: q_def field_simps)
    then have "100 * c - 99 \<le> p * n" "p * n \<le> 100 * c - 1" unfolding of_int_less_iff by linarith+
    then have "of_int (100 * c - 99) \<le> (of_int (p * n) :: rat)" "(of_int (p * n) :: rat) \<le> of_int (100 * c - 1)"
      unfolding of_int_le_iff .
    then have q: "of_int c - 99 / 100 \<le> q" "q \<le> of_int c - 1 / 100" by (simp_all add: q_def field_simps)
    have "\<bar>y - q\<bar> < 1 / 1000" using err y by simp
    then have "y < of_int c" "of_int c - 1 + 1 / 200 < y" using q by linarith+
    moreover have "round64 y \<le> of_int c" using round64_whole_bounds(1) [of y c] y \<open>y < of_int c\<close> by simp
    moreover have "\<bar>round64 y - y\<bar> < 1 / 1000" using round64_error [OF y(1)] y(2) by simp
    then have "y - 1 / 1000 < round64 y" by linarith
    ultimately have "of_int c - 1 < round64 y" "round64 y \<le> of_int c" by linarith+
    then have "\<lceil>round64 y\<rceil> = c" by (simp add: ceiling_eq_iff)
    then show ?thesis by (simp add: y_def q_def c_def)
  qed
qed

text \<open>The four ratios the report uses, as \<open>float64\<close>.\<close>

lemma ratio_error:
  assumes "p \<in> {50, 90, 95, 99}"
  shows "0 < f64_div (of_int p) 100 \<and> f64_div (of_int p) 100 < 1 \<and>
    \<bar>f64_div (of_int p) 100 - of_int p / 100\<bar> \<le> f64_div (of_int p) 100 / (2 * 10 ^ 16)"
proof -
  have "list_all (\<lambda>p. let r = f64_div (of_int p) 100 in 0 < r \<and> r < 1 \<and> \<bar>r - of_int p / 100\<bar> \<le> r / (2 * 10 ^ 16)) [50, 90, 95, 99]"
    by code_simp
  with assms show ?thesis unfolding Let_def list_all_iff by auto
qed

lemma percentile_index:
  assumes "p \<in> {50, 90, 95, 99}" and "xs \<noteq> []" "length xs < 2 ^ 40"
  shows "percentile xs (of_int p) = xs ! nat (\<lceil>of_int (p * int (length xs)) / (100 :: rat)\<rceil> - 1)"
    and "0 < \<lceil>of_int (p * int (length xs)) / (100 :: rat)\<rceil>" "\<lceil>of_int (p * int (length xs)) / (100 :: rat)\<rceil> \<le> int (length xs)"
proof -
  let ?n = "int (length xs)" and ?c = "\<lceil>of_int (p * int (length xs)) / (100 :: rat)\<rceil>"
  have p: "0 < p" "p < 100" using assms(1) by auto
  have n: "0 < ?n" "?n < 2 ^ 40" using assms(2,3) of_nat_less_iff [of "length xs" "2 ^ 40", where ?'a = int] by simp_all
  have "\<lceil>f64_mul (f64_div (of_int p) 100) (f64_of_int ?n)\<rceil> = ?c"
    using ceiling_product [OF n p, of "f64_div (of_int p) 100"] ratio_error [OF assms(1)] round64_whole [of ?n] n
    by (simp add: f64_mul_def f64_of_int_def)
  moreover have pos: "0 < ?c" using p n by simp
  moreover have le: "?c \<le> ?n"
  proof -
    have "p * ?n \<le> 100 * ?n" using p n by (intro mult_right_mono) auto
    then have "(of_int (p * ?n) :: rat) \<le> of_int (100 * ?n)" unfolding of_int_le_iff .
    then show ?thesis by (simp add: ceiling_le_iff)
  qed
  ultimately show "percentile xs (of_int p) = xs ! nat (?c - 1)"
    using assms(2) p by (simp add: percentile_def Let_def)
  show "0 < ?c" "?c \<le> ?n" by (rule pos, rule le)
qed

text \<open>In a sorted list at least \<open>k + 1\<close> elements are at most the one at \<open>k\<close>, and at most \<open>k\<close> are less.\<close>

lemma sorted_rank:
  assumes "sorted xs" "k < length xs"
  shows "k < length (filter (\<lambda>x. x \<le> xs ! k) xs)" and "length (filter (\<lambda>x. x < xs ! k) xs) \<le> k"
proof -
  have split: "length (filter P xs) = length (filter P (take n xs)) + length (filter P (drop n xs))" for P n
    by (metis append_take_drop_id filter_append length_append)
  have low: "x \<le> xs ! k" if x: "x \<in> set (take (Suc k) xs)" for x
  proof -
    obtain i where "i < Suc k" "x = xs ! i" using x assms(2) by (auto simp: in_set_conv_nth)
    then show ?thesis using assms by (simp add: sorted_nth_mono)
  qed
  have high: "xs ! k \<le> x" if x: "x \<in> set (drop k xs)" for x
  proof -
    obtain i where "i < length xs - k" "x = xs ! (k + i)" using x by (auto simp: in_set_conv_nth)
    then show ?thesis using assms by (simp add: sorted_nth_mono)
  qed
  have "filter (\<lambda>x. x \<le> xs ! k) (take (Suc k) xs) = take (Suc k) xs" using low by (simp add: filter_id_conv)
  then have "length (filter (\<lambda>x. x \<le> xs ! k) xs) = Suc k + length (filter (\<lambda>x. x \<le> xs ! k) (drop (Suc k) xs))"
    using assms(2) split [of "\<lambda>x. x \<le> xs ! k" "Suc k"] by simp
  then show "k < length (filter (\<lambda>x. x \<le> xs ! k) xs)" by simp
  have "filter (\<lambda>x. x < xs ! k) (drop k xs) = []" using high by (auto simp: filter_empty_conv not_less)
  then have "length (filter (\<lambda>x. x < xs ! k) xs) = length (filter (\<lambda>x. x < xs ! k) (take k xs))"
    using split [of "\<lambda>x. x < xs ! k" k] by simp
  also have "\<dots> \<le> k" using length_filter_le [of "\<lambda>x. x < xs ! k" "take k xs"] assms(2) by simp
  finally show "length (filter (\<lambda>x. x < xs ! k) xs) \<le> k" .
qed

text \<open>The request the benchmark means to send, and that it sends nothing else before the workers start.\<close>

definition benchRequest :: "string \<Rightarrow> string \<Rightarrow> string \<Rightarrow> http_request \<Rightarrow> bool" where
  "benchRequest url token query req \<longleftrightarrow>
     rq_method req = ''POST'' \<and> rq_url req = url \<and> rq_body req = query \<and>
     hdr_Get (rq_header req) ''Authorization'' = ''Bearer '' @ token"

fun benchEvent :: "string \<Rightarrow> string \<Rightarrow> string \<Rightarrow> event \<Rightarrow> bool" where
  "benchEvent url token query (HttpDo req resp) = benchRequest url token query req"
| "benchEvent url token query ev = False"

lemma emits_doReq: "emits (benchEvent url token query) (doReq env url token query maxRead)"
  unfolding doReq_def readAnswer_def Let_def
  by (intro emits_rules) (simp add: benchRequest_def hdr_Get_Set CanonicalKey_def)

lemma emits_prepareBench: "emits (benchEvent (b_url fl) (b_token fl) (b_query fl)) (prepareBench env fl)"
proof -
  have "emits (benchEvent url token query) (warmupRuns env url token query maxRead n)" for url token query maxRead n
    by (induction n) (auto intro!: emits_rules emits_doReq)
  then show ?thesis unfolding prepareBench_def by (intro emits_rules)
qed

lemma run_readAnswer:
  assumes "run_state (readAnswer env start maxRead resp) s = (r, s')"
  shows "trace s' = trace s" and "r_status r = rs_status resp"
    and "r_err r = None \<longleftrightarrow> 200 \<le> rs_status resp \<and> rs_status resp < 300" and "start \<le> clk s \<Longrightarrow> 0 \<le> latencyMillis r"
proof -
  have since: "0 \<le> go_div (time_Sub (clk s + max 0 d) start) 1000" if "start \<le> clk s" for d
    using that by (simp add: time_Sub_def go_div_nonneg)
  show "trace s' = trace s" "r_status r = rs_status resp" "r_err r = None \<longleftrightarrow> 200 \<le> rs_status resp \<and> rs_status resp < 300"
    using assms by (auto simp: readAnswer_def Let_def time_Since_def run_time_Now split: if_splits)
  show "0 \<le> latencyMillis r" if "start \<le> clk s"
    using assms since [OF that]
    by (auto simp: readAnswer_def Let_def time_Since_def run_time_Now f64_div_def f64_of_int_def
      intro!: round64_nonneg split: if_splits)
qed

section \<open>Claims\<close>

text \<open>
  C35: percentiles are exact in spite of floating point. For the percentiles of the report and
  fewer than \<open>2^40\<close> results, the index computed with \<open>float64\<close> is that of the nearest-rank
  definition: at least \<open>p\<close> percent of the latencies are at most the returned one, and fewer than
  \<open>p\<close> percent are less.
\<close>

theorem percentile_nearest_rank:
  assumes "p \<in> {50, 90, 95, 99}" and "xs \<noteq> []" "length xs < 2 ^ 40" and "sorted xs"
  shows "percentile xs (of_int p) = xs ! nat (\<lceil>of_int (p * int (length xs)) / (100 :: rat)\<rceil> - 1) \<and>
    p * int (length xs) \<le> 100 * int (length (filter (\<lambda>x. x \<le> percentile xs (of_int p)) xs)) \<and>
    100 * int (length (filter (\<lambda>x. x < percentile xs (of_int p)) xs)) < p * int (length xs)"
proof -
  define c where "c = \<lceil>of_int (p * int (length xs)) / (100 :: rat)\<rceil>"
  define k where "k = nat (c - 1)"
  note idx = percentile_index [OF assms(1-3), folded c_def]
  have k: "k < length xs" "int k = c - 1" using idx(2,3) by (simp_all add: k_def)
  have "of_int c - 1 < of_int (p * int (length xs)) / (100 :: rat)" "of_int (p * int (length xs)) / (100 :: rat) \<le> of_int c"
    unfolding c_def by linarith+
  then have "of_int (100 * (c - 1)) < (of_int (p * int (length xs)) :: rat)" "(of_int (p * int (length xs)) :: rat) \<le> of_int (100 * c)"
    by (simp_all add: field_simps)
  then have c: "100 * (c - 1) < p * int (length xs)" "p * int (length xs) \<le> 100 * c" unfolding of_int_less_iff of_int_le_iff .
  have v: "percentile xs (of_int p) = xs ! k" using idx(1) by (simp add: k_def)
  note rank = sorted_rank [OF assms(4) k(1)]
  have "c \<le> int (length (filter (\<lambda>x. x \<le> xs ! k) xs))" "int (length (filter (\<lambda>x. x < xs ! k) xs)) \<le> c - 1"
    using rank k(2) by linarith+
  then show ?thesis using c v idx(1) unfolding c_def [symmetric] v by auto
qed

theorem percentile_nearest_rank_witness:
  "percentile [1, 2, 3, 4, 5, 6, 7, 8, 9, 10, 11, 12, 13, 14, 15, 16, 17, 18, 19, 20] 95 = 19"
  using percentile_nearest_rank [of 95 "[1, 2, 3, 4, 5, 6, 7, 8, 9, 10, 11, 12, 13, 14, 15, 16, 17, 18, 19, 20]"]
  by (simp add: nth_Cons')

text \<open>
  C36: what a benchmark reports. However its workers and the aggregation interleave, it can
  always go on until it is done; then the report is that of a list of results with exactly one
  result per request sent, whatever the order of the list, so the interleaving is not visible
  in it. Every result counts once, as an error or as a success, and each of the three tables
  adds up to the successes.
\<close>

theorem bench_report:
  assumes "benchStep\<^sup>*\<^sup>* (startBench concurrency) b"
  shows "(benchDone b \<or> (\<exists>b'. benchStep b b')) \<and>
    (benchDone b \<longrightarrow> (\<exists>rs. sent b = wrap64 (int (length rs)) \<and> completed b = sent b \<and>
       errCount b = wrap64 (errorCount (agg b)) \<and> int (length (latencies (agg b))) + errorCount (agg b) = int (length rs) \<and>
       sum_list (map snd (statusCounts (agg b))) = int (length (latencies (agg b))) \<and>
       sum_list (map snd (cacheCounts (agg b))) = int (length (latencies (agg b))) \<and>
       sum_list (map snd (targetCounts (agg b))) = int (length (latencies (agg b))) \<and>
       (\<forall>rs'. mset rs' = mset rs \<longrightarrow> benchReport fl (agg b) = benchReport fl (aggregateAll rs'))))"
proof
  show "benchDone b \<or> (\<exists>b'. benchStep b b')" by (rule bench_progress)
  obtain rs where rs: "agg b = aggregateAll rs" "completed b = wrap64 (int (length rs) + takenCount b)"
    "errCount b = wrap64 (errorCount (agg b))"
    "sent b = wrap64 (int (length rs) + takenCount b + int (length (channel b)) + int (sendingCount (bench_workers b)))"
    using benchInv_reachable [OF assms] unfolding benchInv_def by (elim exE conjE)
  have "sendingCount ws = 0" if "list_all (\<lambda>w. w = Returned) ws" for ws
    using that by (induction ws) (auto simp: sendingCount_def)
  then have "completed b = wrap64 (int (length rs))" "sent b = wrap64 (int (length rs))" if "benchDone b"
    using that rs(2,4) by (simp_all add: benchDone_def takenCount_def)
  moreover have "int (length (latencies (agg b))) + errorCount (agg b) = int (length rs)"
    "sum_list (map snd (statusCounts (agg b))) = int (length (latencies (agg b)))"
    "sum_list (map snd (cacheCounts (agg b))) = int (length (latencies (agg b)))"
    "sum_list (map snd (targetCounts (agg b))) = int (length (latencies (agg b)))"
    by (simp_all add: rs(1) aggregateAll_eq sum_tally)
  moreover have "\<forall>rs'. mset rs' = mset rs \<longrightarrow> benchReport fl (agg b) = benchReport fl (aggregateAll rs')"
    unfolding rs(1) by (metis benchReport_perm)
  ultimately show "benchDone b \<longrightarrow> (\<exists>rs. sent b = wrap64 (int (length rs)) \<and> completed b = sent b \<and>
       errCount b = wrap64 (errorCount (agg b)) \<and> int (length (latencies (agg b))) + errorCount (agg b) = int (length rs) \<and>
       sum_list (map snd (statusCounts (agg b))) = int (length (latencies (agg b))) \<and>
       sum_list (map snd (cacheCounts (agg b))) = int (length (latencies (agg b))) \<and>
       sum_list (map snd (targetCounts (agg b))) = int (length (latencies (agg b))) \<and>
       (\<forall>rs'. mset rs' = mset rs \<longrightarrow> benchReport fl (agg b) = benchReport fl (aggregateAll rs')))"
    using rs(3) by (intro impI exI [of _ rs] conjI) (assumption | simp)+
qed

theorem bench_report_witness:
  "\<exists>b. benchStep\<^sup>*\<^sup>* (startBench 0) b \<and> benchDone b \<and> completed b = sent b"
proof -
  define b where "b = (startBench 0)\<lparr>bench_workers := (bench_workers (startBench 0))[0 := Returned]\<rparr>"
  have "benchStep (startBench 0) b"
    unfolding b_def by (rule benchStep.time_up) (simp_all add: startBench_def workersOf_def)
  then have run: "benchStep\<^sup>*\<^sup>* (startBench 0) b" by (rule r_into_rtranclp)
  moreover have "benchDone b" by (simp add: b_def startBench_def benchDone_def workersOf_def)
  ultimately show ?thesis using bench_report [OF run] by blast
qed

text \<open>
  C38: one request of the benchmark. It sends at most one request, to the given URL with the
  query as its body and the token in its header. A result without error carries the status of
  a 2xx answer and a latency that is not negative; one with an error means that the request
  could not be built, was not answered, or was answered with another status, which it carries.
\<close>

theorem doReq_outcome:
  assumes "run_state (doReq env url token query maxRead) s = (r, s')"
  shows "\<exists>evs. trace s' = trace s @ evs \<and>
    (if r_err r = None
     then \<exists>req resp. evs = [HttpDo req (Inr resp)] \<and> benchRequest url token query req \<and>
       200 \<le> rs_status resp \<and> rs_status resp < 300 \<and> r_status r = rs_status resp \<and> 0 \<le> latencyMillis r
     else evs = [] \<and> http_NewRequest env ''POST'' url \<noteq> None \<or>
       (\<exists>req answer. evs = [HttpDo req answer] \<and> benchRequest url token query req \<and>
         (case answer of Inl err \<Rightarrow> r_err r = Some err
          | Inr resp \<Rightarrow> r_status r = rs_status resp \<and> \<not> (200 \<le> rs_status resp \<and> rs_status resp < 300))))"
proof -
  obtain now s1 where t: "run_state (time_Now env) s = (now, s1)" by (cases "run_state (time_Now env) s")
  have now: "now = clk s1" "trace s1 = trace s" using t by (auto simp: run_time_Now)
  show ?thesis
  proof (cases "http_NewRequest env ''POST'' url")
    case (Some err)
    with assms t now show ?thesis by (auto simp: doReq_def failedResult_def)
  next
    case None
    define req where "req = \<lparr>rq_method = ''POST'', rq_url = url,
      rq_header = hdr_Set ''Accept'' ''application/csv'' (hdr_Set ''Content-Type'' ''application/vnd.flux''
        (hdr_Set ''Authorization'' (''Bearer '' @ token) [])), rq_body = query\<rparr>"
    have req: "benchRequest url token query req"
      by (simp add: benchRequest_def req_def hdr_Get_Set CanonicalKey_def)
    obtain a s2 where a: "run_state (client_Do env req) s1 = (a, s2)" by (cases "run_state (client_Do env req) s1")
    have s2: "trace s2 = trace s @ [HttpDo req a]" "clk s2 = clk s1" using a now by (auto simp: run_client_Do)
    have run: "(r, s') = (case a of Inl err \<Rightarrow> (failedResult err, s2) | Inr resp \<Rightarrow> run_state (readAnswer env now maxRead resp) s2)"
      using assms t None a by (simp add: doReq_def req_def split: sum.splits)
    show ?thesis
    proof (cases a)
      case (Inl err)
      with run s2 req show ?thesis by (auto simp: failedResult_def)
    next
      case (Inr resp)
      with run have "run_state (readAnswer env now maxRead resp) s2 = (r, s')" by simp
      from run_readAnswer [OF this] s2 now(1) have "trace s' = trace s @ [HttpDo req (Inr resp)]" "r_status r = rs_status resp"
        "r_err r = None \<longleftrightarrow> 200 \<le> rs_status resp \<and> rs_status resp < 300" "0 \<le> latencyMillis r"
        using Inr by simp_all
      with req show ?thesis by auto
    qed
  qed
qed

theorem doReq_outcome_witness:
  "\<exists>req resp. benchRequest ''http://gw'' ''t'' ''q'' req \<and> 200 \<le> rs_status resp \<and> rs_status resp < 300 \<and>
     trace (snd (run_state (doReq worldEnv ''http://gw'' ''t'' ''q'' 4096)
       \<lparr>clk = 0, ext = world0\<lparr>answers := [Inr \<lparr>rs_status = 200, rs_header = [], rs_body = Inr ''rows''\<rparr>]\<rparr>, trace = []\<rparr>)) =
     [HttpDo req (Inr resp)]"
proof -
  define s where "s = \<lparr>clk = 0, ext = world0\<lparr>answers := [Inr \<lparr>rs_status = 200, rs_header = [], rs_body = Inr ''rows''\<rparr>]\<rparr>, trace = []\<rparr>"
  obtain r s' where r: "run_state (doReq worldEnv ''http://gw'' ''t'' ''q'' 4096) s = (r, s')"
    by (cases "run_state (doReq worldEnv ''http://gw'' ''t'' ''q'' 4096) s")
  have "r_err (fst (run_state (doReq worldEnv ''http://gw'' ''t'' ''q'' 4096)
      \<lparr>clk = 0, ext = world0\<lparr>answers := [Inr \<lparr>rs_status = 200, rs_header = [], rs_body = Inr ''rows''\<rparr>]\<rparr>, trace = []\<rparr>)) = None"
    by code_simp
  then have "r_err r = None" using r by (simp add: s_def)
  with doReq_outcome [OF r] have "\<exists>req resp. benchRequest ''http://gw'' ''t'' ''q'' req \<and> 200 \<le> rs_status resp \<and>
      rs_status resp < 300 \<and> trace s' = trace s @ [HttpDo req (Inr resp)]"
    by (elim exE conjE) (auto split: if_splits)
  then show ?thesis using r by (simp add: s_def)
qed

text \<open>When every request fails, the run still ends with exit status zero.\<close>

lemma all_failed_exit:
  assumes "rs \<noteq> []" and "list_all (\<lambda>r. r_err r \<noteq> None) rs"
  shows "\<exists>out. benchReport fl (aggregateAll rs) = Some (out, 0)"
proof -
  have "\<not> beyondLimits rs" using assms(2) by (auto simp: beyondLimits_def successes_def filter_empty_conv list_all_iff)
  with benchReport_status(2) [OF assms(1), of fl] show ?thesis by simp
qed

end
