(* ===== verification/BenchRun.thy ===== *)
theory BenchRun
  imports Querybench
begin

text \<open>
  \<open>cmd/querybench/main.go\<close>, the goroutine that logs progress beside the workers, and the end of
  \<open>main\<close>.
\<close>

section \<open>Progress\<close>

text \<open>A progress log entry: requests completed, errors, and the rate since the last one.\<close>

record benchProgress =
  p_completed :: int
  p_errors :: int
  p_rate :: rat

definition progressText :: "benchProgress \<Rightarrow> string" where
  "progressText p =
     ''progress completed='' @ Itoa (p_completed p) @ '' errors='' @ Itoa (p_errors p) @ '' interval_rps='' @ fixed 2 (p_rate p)"

definition intervalRate :: "int \<Rightarrow> instant \<Rightarrow> int \<Rightarrow> instant \<Rightarrow> rat" where
  "intervalRate lastCompleted lastTick c now =
     (let interval = secondsOf (time_Sub now lastTick);
          interval = (if interval \<le> 0 then 1 else interval);
          delta = wrap64 (c - lastCompleted)
      in f64_div (f64_of_int delta) interval)"

text \<open>
  Where the goroutine is: waiting in \<open>select\<close>, with one or both counters loaded after a tick,
  or not running (a progress interval that is not positive, or the time is up).
\<close>

datatype bench_reporter = ProgressWaiting | LoadedCompleted int | LoadedBoth int int | ProgressOff

record benchRun =
  running :: bench
  reporting :: bench_reporter
  lastCompleted :: int
  lastTick :: instant
  bench_clock :: instant
  progress_logs :: "benchProgress list"

text \<open>A step of a worker or of the aggregation, time passing, or a step of the progress goroutine.\<close>

inductive benchRunStep :: "instant \<Rightarrow> benchRun \<Rightarrow> benchRun \<Rightarrow> bool" for deadline where
  bench: "benchStep (running r) b \<Longrightarrow> benchRunStep deadline r (r\<lparr>running := b\<rparr>)"
| pass: "0 \<le> d \<Longrightarrow> benchRunStep deadline r (r\<lparr>bench_clock := bench_clock r + d\<rparr>)"
| tick: "reporting r = ProgressWaiting \<Longrightarrow>
    benchRunStep deadline r (r\<lparr>reporting := LoadedCompleted (completed (running r))\<rparr>)"
| load_errors: "reporting r = LoadedCompleted c \<Longrightarrow>
    benchRunStep deadline r (r\<lparr>reporting := LoadedBoth c (errCount (running r))\<rparr>)"
| log: "reporting r = LoadedBoth c e \<Longrightarrow>
    benchRunStep deadline r (r\<lparr>reporting := ProgressWaiting, lastCompleted := c, lastTick := bench_clock r,
      progress_logs := progress_logs r @
        [\<lparr>p_completed = c, p_errors = e, p_rate = intervalRate (lastCompleted r) (lastTick r) c (bench_clock r)\<rparr>]\<rparr>)"
| time_up: "reporting r = ProgressWaiting \<Longrightarrow> deadline \<le> bench_clock r \<Longrightarrow>
    benchRunStep deadline r (r\<lparr>reporting := ProgressOff\<rparr>)"

inductive_cases benchRunStepE: "benchRunStep deadline r r'"

definition startBenchRun :: "bench_flags \<Rightarrow> instant \<Rightarrow> instant \<Rightarrow> bench \<Rightarrow> benchRun" where
  "startBenchRun fl startRun now b =
     \<lparr>running = b, reporting = (if b_progress fl > 0 then ProgressWaiting else ProgressOff), lastCompleted = 0,
      lastTick = startRun, bench_clock = now, progress_logs = []\<rparr>"

section \<open>The process\<close>

text \<open>The end of \<open>main\<close>: what is printed, the message on standard error and the exit status.\<close>

definition benchExit :: "bench_flags \<Rightarrow> aggregate \<Rightarrow> string \<times> string \<times> int" where
  "benchExit fl a =
     (case benchReport fl a of
        None \<Rightarrow> ([], ''no requests completed'', 1)
      | Some (out, status) \<Rightarrow>
          (out, if status = 2 then ''benchmark thresholds exceeded: p99>5000ms or error_rate>1%'' else [], status))"

text \<open>
  \<open>main\<close>: the warm-up requests on the state \<open>s\<close>, then \<open>k\<close> steps until the benchmark is done, or a
  fatal error before.
\<close>

inductive benchMain :: "'e env \<Rightarrow> bench_flags \<Rightarrow> ('e, 'x) host_scheme \<Rightarrow> nat \<Rightarrow> benchProgress list \<Rightarrow> string \<times> string \<times> int \<Rightarrow> bool"
  for env fl s k where
  no_duration: "run_state (prepareBench env fl) s = (None, s') \<Longrightarrow>
    benchMain env fl s k [] ([], ''duration must be > 0'', 1)"
| finished: "run_state (prepareBench env fl) s = (Some (deadline, startRun, b), s') \<Longrightarrow>
    (benchRunStep deadline ^^ k) (startBenchRun fl startRun (clk s') b) r \<Longrightarrow> benchDone (running r) \<Longrightarrow>
    benchMain env fl s k (progress_logs r) (benchExit fl (agg (running r)))"

section \<open>Counters\<close>

text \<open>
  In fewer than \<open>2^63\<close> steps the counters do not overflow, so they never go back, and neither do
  the reports.
\<close>

definition seenCompleted :: "benchRun \<Rightarrow> int" where
  "seenCompleted r = (case reporting r of LoadedCompleted c \<Rightarrow> c | LoadedBoth c e \<Rightarrow> c | _ \<Rightarrow> completed (running r))"

definition seenErrors :: "benchRun \<Rightarrow> int" where
  "seenErrors r = (case reporting r of LoadedBoth c e \<Rightarrow> e | _ \<Rightarrow> errCount (running r))"

definition aggregated :: "aggregate \<Rightarrow> int" where
  "aggregated a = int (length (latencies a)) + errorCount a"

definition benchRunInv :: "nat \<Rightarrow> benchRun \<Rightarrow> bool" where
  "benchRunInv k r \<longleftrightarrow>
     completed (running r) \<le> int k \<and> errCount (running r) \<le> int k \<and> aggregated (agg (running r)) \<le> int k \<and>
     0 \<le> lastCompleted r \<and> lastCompleted r \<le> seenCompleted r \<and> seenCompleted r \<le> completed (running r) \<and>
     0 \<le> seenErrors r \<and> seenErrors r \<le> errCount (running r) \<and>
     sorted (map p_completed (progress_logs r)) \<and> sorted (map p_errors (progress_logs r)) \<and>
     list_all (\<lambda>p. 0 \<le> p_completed p \<and> p_completed p \<le> lastCompleted r \<and> 0 \<le> p_errors p \<and> p_errors p \<le> seenErrors r \<and> 0 \<le> p_rate p)
       (progress_logs r)"

lemma intervalRate_nonneg:
  assumes "0 \<le> a" "a \<le> c" "c \<le> max_int64" 
  shows "0 \<le> intervalRate a t c t'"
proof -
  have "wrap64 (c - a) = c - a" using assms by (intro wrap64_id) (simp add: in_int64_def)
  then show ?thesis
    using assms by (auto simp: intervalRate_def Let_def f64_div_def f64_of_int_def intro!: round64_nonneg divide_nonneg_pos)
qed

lemma benchStep_counters:
  assumes "benchStep b b'" and "0 \<le> completed b" "completed b < max_int64" "0 \<le> errCount b" "errCount b < max_int64"
  shows "completed b \<le> completed b'" "completed b' \<le> completed b + 1" "errCount b \<le> errCount b'" "errCount b' \<le> errCount b + 1"
    "aggregated (agg b') \<le> aggregated (agg b) + 1"
proof -
  have "wrap64 (completed b + 1) = completed b + 1" "wrap64 (errCount b + 1) = errCount b + 1"
    using assms by (auto intro!: wrap64_id simp: in_int64_def)
  with assms(1) show "completed b \<le> completed b'" "completed b' \<le> completed b + 1" "errCount b \<le> errCount b'" "errCount b' \<le> errCount b + 1"
    "aggregated (agg b') \<le> aggregated (agg b) + 1"
    by (auto simp: aggregated_def addResult_def elim!: benchStepE)
qed

lemma benchRunInv_step:
  assumes "benchRunStep deadline r r'" and "benchRunInv k r" and "int k < max_int64"
  shows "benchRunInv (Suc k) r'"
  using assms(1)
proof cases
  case (bench b)
  have "0 \<le> completed (running r)" "0 \<le> errCount (running r)" "completed (running r) < max_int64" "errCount (running r) < max_int64"
    using assms(2,3) by (simp_all add: benchRunInv_def)
  note mono = benchStep_counters [OF bench(2) this(1,3,2,4)]
  have "list_all (\<lambda>p. 0 \<le> p_completed p \<and> p_completed p \<le> lastCompleted r' \<and> 0 \<le> p_errors p \<and> p_errors p \<le> seenErrors r' \<and> 0 \<le> p_rate p)
      (progress_logs r')"
    using assms(2) mono bench
    by (auto simp: benchRunInv_def seenErrors_def list_all_iff split: bench_reporter.splits)
  with assms(2) mono bench show ?thesis
    by (auto simp: benchRunInv_def seenCompleted_def seenErrors_def split: bench_reporter.splits)
next
  case (log c e)
  have c: "0 \<le> lastCompleted r" "lastCompleted r \<le> c" "c \<le> max_int64" "0 \<le> e" "e \<le> errCount (running r)"
    using assms(2,3) log by (auto simp: benchRunInv_def seenCompleted_def seenErrors_def)
  from intervalRate_nonneg [OF c(1-3)] c assms(2) log show ?thesis
    by (auto simp: benchRunInv_def seenCompleted_def seenErrors_def list_all_iff sorted_append intro: order_trans)
next
  case (pass d)
  then have "seenCompleted r' = seenCompleted r" "seenErrors r' = seenErrors r"
    by (cases "reporting r"; simp add: seenCompleted_def seenErrors_def)+
  with pass assms(2) show ?thesis by (auto simp: benchRunInv_def)
qed (use assms(2) in \<open>auto simp: benchRunInv_def seenCompleted_def seenErrors_def list_all_iff\<close>)

lemma benchRunInv_reachable:
  "(benchRunStep deadline ^^ k) (startBenchRun fl startRun now (startBench n)) r \<Longrightarrow> int k \<le> max_int64 \<Longrightarrow>
     benchRunInv k r"
proof (induction k arbitrary: r)
  case 0
  then show ?case
    by (auto simp: benchRunInv_def startBenchRun_def startBench_def seenCompleted_def seenErrors_def aggregated_def
      aggregateAll_eq successes_def)
next
  case (Suc k)
  then obtain r1 where "(benchRunStep deadline ^^ k) (startBenchRun fl startRun now (startBench n)) r1" "benchRunStep deadline r1 r"
    by auto
  with Suc show ?case by (intro benchRunInv_step) auto
qed

lemma benchRunStep_running: "(benchRunStep deadline ^^ k) r r' \<Longrightarrow> benchStep\<^sup>*\<^sup>* (running r) (running r')"
proof (induction k arbitrary: r')
  case (Suc k)
  then obtain r1 where "benchStep\<^sup>*\<^sup>* (running r) (running r1)" "benchRunStep deadline r1 r'" by auto
  then show ?case by (auto elim!: benchRunStepE intro: rtranclp.rtrancl_into_rtrancl)
qed simp

lemma benchRunStep_off:
  "(benchRunStep deadline ^^ k) r r' \<Longrightarrow> reporting r = ProgressOff \<Longrightarrow> progress_logs r' = progress_logs r \<and> reporting r' = ProgressOff"
proof (induction k arbitrary: r')
  case (Suc k)
  then obtain r1 where "progress_logs r1 = progress_logs r" "reporting r1 = ProgressOff" "benchRunStep deadline r1 r'" by auto
  then show ?case by (auto elim!: benchRunStepE)
qed simp

section \<open>Claims\<close>

text \<open>
  C37: how a benchmark ends and what it says on the way. It exits with status 1 for a duration
  that is not positive or if no request was completed. Otherwise it prints the report on exactly
  the results \<open>rs\<close> and exits with status 0 or 2, 2 if there was a success and the 99th percentile or
  the error rate is beyond its limit. The progress reports never go back, never exceed the
  results of the end, and state rates that are not negative; there are none without a positive
  progress interval. (In fewer than \<open>2^63\<close> steps the counters do not overflow.)
\<close>

theorem bench_process:
  assumes "benchMain env fl s k logs (out, msg, status)" and "int k \<le> max_int64"
  shows "if b_duration fl \<le> 0 then logs = [] \<and> out = [] \<and> status = 1
    else \<exists>rs. (rs = [] \<longrightarrow> out = [] \<and> status = 1) \<and> (rs \<noteq> [] \<longrightarrow> benchReport fl (aggregateAll rs) = Some (out, status)) \<and>
      (status = 2 \<longleftrightarrow> beyondLimits rs) \<and>
      sorted (map p_completed logs) \<and> sorted (map p_errors logs) \<and> (b_progress fl \<le> 0 \<longrightarrow> logs = []) \<and>
      list_all (\<lambda>p. 0 \<le> p_completed p \<and> p_completed p \<le> int (length rs) \<and> 0 \<le> p_errors p \<and>
        p_errors p \<le> int (length rs) - int (length (successes rs)) \<and> 0 \<le> p_rate p) logs"
  using assms(1)
proof cases
  case (no_duration s')
  then have "b_duration fl \<le> 0" by (auto simp: prepareBench_def split: if_splits prod.splits)
  with no_duration show ?thesis by simp
next
  case (finished deadline startRun b s' r)
  have start: "\<not> b_duration fl \<le> 0" "b = startBench (b_concurrency fl)"
    using finished(3) by (auto simp: prepareBench_def run_time_Now split: if_splits prod.splits)
  note inv = benchRunInv_reachable [OF finished(4) [unfolded start(2)] assms(2), unfolded benchRunInv_def]
  have "benchStep\<^sup>*\<^sup>* (startBench (b_concurrency fl)) (running r)"
    using benchRunStep_running [OF finished(4)] start(2) by (simp add: startBenchRun_def)
  from benchInv_reachable [OF this] obtain rs where rs: "agg (running r) = aggregateAll rs"
    "completed (running r) = wrap64 (int (length rs) + takenCount (running r))"
    "errCount (running r) = wrap64 (errorCount (agg (running r)))"
    unfolding benchInv_def by (elim exE conjE)
  have le: "length (successes rs) \<le> length rs" by (simp add: successes_def)
  have "int (length rs) \<le> int k" using inv rs(1) le by (simp add: aggregated_def aggregateAll_eq)
  then have counts: "completed (running r) = int (length rs)" "errCount (running r) = int (length rs) - int (length (successes rs))"
    using rs finished(5) assms(2) le by (simp_all add: benchDone_def takenCount_def aggregateAll_eq in_int64_def)
  have report: "benchExit fl (aggregateAll rs) = (out, msg, status)" using finished(2) rs(1) by simp
  have "(rs = [] \<longrightarrow> out = [] \<and> status = 1) \<and> (rs \<noteq> [] \<longrightarrow> benchReport fl (aggregateAll rs) = Some (out, status)) \<and>
      (status = 2 \<longleftrightarrow> beyondLimits rs)"
  proof (cases "rs = []")
    case True
    with report benchReport_status(1) [of fl] show ?thesis by (simp add: benchExit_def beyondLimits_def successes_def)
  next
    case False
    with report benchReport_status(2) [OF False, of fl] show ?thesis by (auto simp: benchExit_def split: if_splits)
  qed
  note out = this
  have "b_progress fl \<le> 0 \<longrightarrow> logs = []"
    using benchRunStep_off [OF finished(4)] finished(1) by (auto simp: startBenchRun_def)
  moreover have "list_all (\<lambda>p. 0 \<le> p_completed p \<and> p_completed p \<le> int (length rs) \<and> 0 \<le> p_errors p \<and>
        p_errors p \<le> int (length rs) - int (length (successes rs)) \<and> 0 \<le> p_rate p) logs"
    using inv counts finished(1) by (fastforce simp: list_all_iff)
  ultimately show ?thesis
    using inv finished(1) start(1) out by (intro if_not_P [THEN iffD2] exI [of _ rs]) simp_all
qed

text \<open>A benchmark with one worker, whose only request fails.\<close>

definition exampleBench :: bench_flags where
  "exampleBench = \<lparr>b_url = ''http://gw'', b_token = ''t'', b_query = ''q'', b_concurrency = 1, b_duration = second,
     b_warmup = 0, b_maxRead = 4096, b_progress = 0\<rparr>"

theorem bench_process_witness:
  "\<exists>logs out msg status. benchMain worldEnv exampleBench \<lparr>clk = 0, ext = world0, trace = []\<rparr> 5 logs (out, msg, status) \<and>
     logs = [] \<and> (status = 0 \<or> status = 1 \<or> status = 2)"
proof -
  define s where "s = \<lparr>clk = 0, ext = world0, trace = []\<rparr>"
  obtain deadline start s' where p: "run_state (prepareBench worldEnv exampleBench) s = (Some (deadline, start, startBench 1), s')"
    by (auto simp: prepareBench_def exampleBench_def run_time_Now)
  define b0 where "b0 = startBench 1"
  define b1 where "b1 = b0\<lparr>bench_workers := [Sending (failedResult ''timeout'')], sent := 1\<rparr>"
  define b2 where "b2 = b1\<lparr>bench_workers := [Looping], channel := [failedResult ''timeout'']\<rparr>"
  define b3 where "b3 = b2\<lparr>channel := [], taken := Some (failedResult ''timeout''), completed := 1\<rparr>"
  define b4 where "b4 = b3\<lparr>taken := None, errCount := 1, agg := addResult (agg b3) (failedResult ''timeout'')\<rparr>"
  define b5 where "b5 = b4\<lparr>bench_workers := [Returned]\<rparr>"
  have w: "wrap64 1 = 1" by (simp add: in_int64_def)
  note bs = b5_def b4_def b3_def b2_def b1_def b0_def startBench_def workersOf_def failedResult_def w
  have st: "benchStep b0 b1" "benchStep b1 b2" "benchStep b2 b3" "benchStep b3 b4" "benchStep b4 b5"
    using benchStep.request [of 0 b0 "failedResult ''timeout''"] benchStep.send [of 0 b1 "failedResult ''timeout''"]
      benchStep.collect [of b2 "failedResult ''timeout''" "[]"] benchStep.aggregate [of b3 "failedResult ''timeout''"]
      benchStep.time_up [of 0 b4] by (simp_all add: bs)
  define R where "R = (\<lambda>b. (startBenchRun exampleBench start (clk s') (startBench 1))\<lparr>running := b\<rparr>)"
  have run: "benchRunStep deadline (R b) (R b')" if "benchStep b b'" for b b'
    using benchRunStep.bench [of "R b" b' deadline] that by (simp add: R_def)
  note then_step = relpowp_Suc_I [where P = "benchRunStep deadline"]
  have "(benchRunStep deadline ^^ Suc (Suc (Suc (Suc (Suc 0))))) (R b0) (R b5)"
    by (intro then_step [OF _ run [OF st(5)]] then_step [OF _ run [OF st(4)]] then_step [OF _ run [OF st(3)]]
        then_step [OF _ run [OF st(2)]] then_step [OF _ run [OF st(1)]] relpowp_0_I)
  then have "(benchRunStep deadline ^^ 5) (R b0) (R b5)" by (simp add: numeral_eq_Suc del: relpowp.simps)
  moreover have "R b0 = startBenchRun exampleBench start (clk s') (startBench 1)" by (simp add: R_def b0_def startBenchRun_def)
  moreover have "benchDone (running (R b5))" by (simp add: R_def bs benchDone_def)
  ultimately have run: "benchMain worldEnv exampleBench s 5 (progress_logs (R b5)) (benchExit exampleBench (agg (running (R b5))))"
    using benchMain.finished [OF p] by simp
  obtain out msg status where e: "benchExit exampleBench (agg (running (R b5))) = (out, msg, status)"
    by (cases "benchExit exampleBench (agg (running (R b5)))")
  have d: "\<not> b_duration exampleBench \<le> 0" "b_progress exampleBench \<le> 0" by (simp_all add: exampleBench_def)
  from bench_process [OF run [unfolded e]] d obtain rs where rs: "rs = [] \<longrightarrow> status = 1"
    "rs \<noteq> [] \<longrightarrow> benchReport exampleBench (aggregateAll rs) = Some (out, status)" "progress_logs (R b5) = []"
    by auto
  have "status = 0 \<or> status = 1 \<or> status = 2"
    using rs(1,2) benchReport_status(2) [of rs exampleBench] by (auto split: if_splits)
  with run e rs(3) show ?thesis unfolding s_def by auto
qed

end
