(* ===== verification/Spec2Isabelle.thy ===== *)
theory Spec2Isabelle
  imports Stampede GatewayMain LoadRun BenchRun
begin

text \<open>
  A verification of \<open>influx-gateway\<close>: a caching reverse proxy for InfluxDB's query API with two
  companion commands, a load generator and a query benchmark.

  \<^bold>\<open>The program.\<close> A client posts a Flux query to the gateway (\<open>internal/gateway/server.go\<close>). The
  gateway checks its token, and if the query reaches up to now, splits it at a cutoff
  (\<open>internal/flux/split.go\<close>, \<open>utils.go\<close>) into an old part, which is answered from Redis if it can
  be (\<open>internal/cache/service.go\<close>), and a live part, which always goes upstream; the two answers
  are merged (\<open>internal/flux/merge.go\<close>). Requests upstream go to one of several targets, picked by a
  weighted round robin with circuit breakers (\<open>internal/upstream/manager.go\<close>), with retries on
  other targets. A lock in Redis is to keep many requests for the same missing entry from going
  upstream together. Other reads are proxied. \<open>internal/config/config.go\<close> reads the environment,
  \<open>internal/metrics/metrics.go\<close> counts. \<open>cmd/loadgen\<close> writes generated points to several InfluxDB
  servers; \<open>cmd/querybench\<close> measures the gateway.

  \<^bold>\<open>How code is modelled.\<close> Pure functions are HOL functions over byte strings; integers are kept
  at 64 bits by \<open>wrap64\<close> where a computation can leave the range, and the round-robin counter is a
  \<open>64 word\<close>. Effectful code runs in the state monad over a record with the clock, the state of
  the environment, and the trace of all events (commands to Redis, requests upstream, metrics,
  log entries). Redis, the HTTP client, URL joining, random numbers and \<open>sort.Slice\<close> are fields of
  the record \<open>env\<close>, so the theorems hold for any behaviour of theirs unless a hypothesis says what
  is relied on. Errors are values of sums; a panic is a value, too. Loops are structural
  recursion, or \<open>function\<close> with a termination proof; the one loop whose end depends on its
  arguments (\<open>planJobs\<close>) is a \<open>partial_function\<close> and is shown to end. No fuel is used except for the
  number of attempts and retries, which are the code's own bounds.

  \<^bold>\<open>Theories and sources.\<close>

  \<^item> \<open>Prelude\<close>: 64-bit integers, Hoare triples and preservation rules for the state monad.
  \<^item> \<open>GoStrings\<close>, \<open>GoTime\<close>, \<open>GoRegexp\<close>, \<open>GoHash\<close>, \<open>GoUrl\<close>, \<open>GoJson\<close>, \<open>JsonScan\<close>, \<open>GoFloat\<close>,
    \<open>GoFormat\<close>: what the program uses of Go's standard library, with the facts about it that the components need:
    RFC 3339 printing and parsing, leftmost-first regular expressions, SHA-256 as FIPS 180-4 has it,
    JSON scanning and printing with their round trip, query escaping, \<open>float64\<close> rounding, and
    printing of numbers and durations.
  \<^item> \<open>FluxSplit\<close> (\<open>split.go\<close>): a split query differs from the original only in the matched
    \<open>range\<close> call, the old part ends and the live part starts at the cutoff; the documented rewrite;
    the cutoff denotes the same instant when it is read back; the window of absolute ranges.
  \<^item> \<open>FluxMerge\<close> (\<open>merge.go\<close>): the merged answer has the rows of both answers without duplicates in
    the order of time, and parses back. \<open>sort.Slice\<close> is the locale \<open>row_sorter\<close>, interpreted with
    the insertion sort of the package (which it runs on short slices).
  \<^item> \<open>FluxUtils\<close> (\<open>utils.go\<close>): JSON bodies are rebuilt with only the query changed; cutoff; preview.
  \<^item> \<open>Runtime\<close>, \<open>World\<close>: the environment, traces and \<open>emits\<close> rules; a concrete environment in which
    the witnesses are evaluated.
  \<^item> \<open>Config\<close> (\<open>config.go\<close>): loading fails in exactly four cases and otherwise gives a
    well-formed configuration. \<open>Metrics\<close> (\<open>metrics.go\<close>): the three observations.
  \<^item> \<open>Upstream\<close> (\<open>manager.go\<close>): the manager's state as a record, \<open>mgr_step\<close> as its step relation;
    the breaker refines its specification as a function of the reports; failure counts and open
    circuits stay in bounds in every reachable state; the round robin is fair and safe; probes.
  \<^item> \<open>Cache\<close> (\<open>service.go\<close>): keys separate organisations and queries; expiry bounds; waiting for the
    lock ends. What is relied on of Redis is the locale \<open>redis_rely\<close>, interpreted with the Redis of
    \<open>World\<close>.
  \<^item> \<open>Gateway\<close> (\<open>server.go\<close>, all handlers), \<open>GatewayTrace\<close>, \<open>GatewayForward\<close>, \<open>GatewayFetch\<close>,
    \<open>GatewayHandlers\<close>, \<open>GatewayServe\<close>: which events each handler may emit; a forward refines a
    specification of its attempts, and succeeds if one target does. The retry loop is verified once,
    in the locales \<open>attempter\<close> and \<open>answering\<close> (an attempt leaves the manager alone; it answers only
    what a target answered), which queries and reads interpret. Further: the use of lock and cache by a
    fetch and the source of its answer; isolation of organisations and tokens; refusals; the reply
    to a split query on every path; no panic; invariants over any sequence of requests.
  \<^item> \<open>Assembly\<close> (\<open>NewMetrics\<close>, \<open>InitTracer\<close> of \<open>internal/telemetry/setup.go\<close>, \<open>NewService\<close>, \<open>NewServer\<close>):
    how the parts are put together; Prometheus accepts the collectors, and every observation has a
    value for each label.
  \<^item> \<open>GatewayMain\<close> (\<open>cmd/influx-gateway/main.go\<close>): the process from its environment variables to its
    end, composed of the configuration, the assembled server and any sequence of requests.
  \<^item> \<open>CacheSound\<close>: the shared cache holds, and serves, only what an upstream answered with 2xx to
    the same organisation and query.
  \<^item> \<open>Stampede\<close>: a fetch follows the protocol automaton \<open>reqNext\<close>; any number of fetches interleaved
    over one Redis, with commands failing at any point and time passing. Mutual exclusion is proved
    in the locale \<open>lock_client\<close>, from the client's contract alone, for holders that stay within the
    expiry, and \<open>fetchOrCache\<close> interprets it; a counterexample shows that the expiry matters.
  \<^item> \<open>Loadgen\<close>, \<open>LoadPoints\<close> (\<open>cmd/loadgen/main.go\<close>): starting, planning, generating, writing with
    retries, and the workers as the step relation \<open>loadStep\<close>, whose steps are the atomic
    operations of the goroutines. Every batch consists of lines of the line protocol, and a
    completed run has written every planned batch exactly once.
  \<^item> \<open>LoadRun\<close>: the workers beside \<open>reportLoop\<close>, as the step relation \<open>runStep\<close>, and the ways in which
    the process can end, \<open>loadMain\<close>. Every run ends, by a bound on the number of steps; its progress
    reports and its exit status are true as long as the counters stay below \<open>2^63\<close>.
  \<^item> \<open>Querybench\<close> (\<open>cmd/querybench/main.go\<close>): a timed request; workers and aggregation as the step
    relation \<open>benchStep\<close>, which never gets stuck; the report is independent of the order of arrival;
    the percentile computed in \<open>float64\<close> is the nearest-rank percentile for fewer than
    \<open>2^40\<close> results, a bound far above what a run can collect.
  \<^item> \<open>BenchRun\<close>: the goroutine that logs progress beside the workers, as the step relation
    \<open>benchRunStep\<close>, and the ways in which the process can end, \<open>benchMain\<close>, for runs of fewer than
    \<open>2^63\<close> steps.

  \<^bold>\<open>Not modelled.\<close> What Prometheus, OpenTelemetry and \<open>promhttp\<close> do inside, and tracing spans: the
  code only builds them and hands them on, so they are parameters. Contexts (cancellation by the
  client) are left out: a cancelled request is one whose HTTP or Redis calls return errors.
  Concurrency of handlers is modelled where handlers share state: in Redis (\<open>Stampede\<close>, and the
  hypothesis of \<open>CacheSound\<close> that others may store at any time) and in the manager, whose mutex
  makes each operation atomic, as sequences of operations. In the commands, the results of single
  uploads and requests are arbitrary in the step relations (what one upload and one request do is
  proved apart); random numbers and the floating-point arithmetic of the points (\<open>math.Sin\<close>) are
  parameters. The parsing of command lines and the log entries of single retries and warm-up
  requests are left out.
\<close>

end
